theory Spec2Isabelle
  imports Complex_Main
begin

section \<open>Python values, errors and indexing\<close>

text \<open>
  The development embeds \<^verbatim>\<open>ddparser/parser/data_struct/utils.py\<close>: the projective-tree
  validator (\<^verbatim>\<open>NODE\<close>, \<^verbatim>\<open>DepTree\<close>, \<^verbatim>\<open>istree\<close>), the length bucketer
  (\<^verbatim>\<open>kmeans\<close>) and the Eisner decoder (\<^verbatim>\<open>eisner\<close>).

  Every exception of the Python code is a value \<open>Inl e\<close> of a sum type. A loop or a
  recursion whose length is not bounded by the shape of its argument takes a fuel argument
  and returns \<open>None\<close> when the fuel is used up; the theorems prove that the fuel named in
  them is enough. The recursion of the validator is bounded by the interpreter: its fuel
  is the number of nested calls that the recursion limit of Python still allows, and
  using it up raises \<^verbatim>\<open>RecursionError\<close>.
\<close>

datatype py_error = IndexError | TypeError | ValueError | AssertionError | RecursionError

text \<open>
  Indexing a Python list of length \<open>n\<close> with the integer \<open>i\<close>: \<open>0 \<le> i < n\<close> reads
  position \<open>i\<close>, \<open>-n \<le> i < 0\<close> reads position \<open>n + i\<close>, anything else raises
  \<^verbatim>\<open>IndexError\<close> (\<open>None\<close> here).
\<close>

definition py_index :: "nat \<Rightarrow> int \<Rightarrow> nat option" where
  "py_index n i =
     (if 0 \<le> i \<and> i < int n then Some (nat i)
      else if - int n \<le> i \<and> i < 0 then Some (nat (int n + i))
      else None)"

section \<open>The tree validator\<close>

subsection \<open>NODE and DepTree\<close>

text \<open>
  \<^verbatim>\<open>NODE.__init__\<close> stores \<^verbatim>\<open>int(id)\<close>, so the test \<^verbatim>\<open>id is None\<close> of
  \<^verbatim>\<open>DepTree.add\<close> never holds; ids come from \<^verbatim>\<open>enumerate\<close> and are naturals.
  The field \<^verbatim>\<open>id\<close> is named \<open>node_id\<close> (\<open>id\<close> is the identity function of HOL).
\<close>

record NODE =
  lefts :: "nat list"
  rights :: "nat list"
  node_id :: nat
  parent :: "int option"

definition NODE_init :: "nat \<Rightarrow> int option \<Rightarrow> NODE" where
  "NODE_init i p = \<lparr>lefts = [], rights = [], node_id = i, parent = p\<rparr>"

record DepTree =
  sentence :: "int list"
  nodes :: "NODE list"
  root :: NODE
  visit :: "bool list"

text \<open>\<^verbatim>\<open>DepTree.add\<close>: the parent object is updated in place; the model returns it.\<close>

definition add :: "NODE \<Rightarrow> NODE \<Rightarrow> NODE" where
  "add par child =
     (if node_id par < node_id child
      then par\<lparr>rights := sort (rights par @ [node_id child])\<rparr>
      else par\<lparr>lefts := sort (lefts par @ [node_id child])\<rparr>)"

text \<open>
  The loop \<^verbatim>\<open>for node in self.nodes[1:]: self.add(self.nodes[node.parent], node)\<close>.
  The first argument lists the positions still to visit. \<^verbatim>\<open>self.nodes[node.parent]\<close>
  is a Python list read: it raises \<^verbatim>\<open>IndexError\<close> out of range and wraps a negative
  index.
\<close>

fun build_loop :: "nat list \<Rightarrow> NODE list \<Rightarrow> py_error + NODE list" where
  "build_loop [] ns = Inr ns"
| "build_loop (c # cs) ns =
     (case parent (ns ! c) of
        None \<Rightarrow> Inl TypeError
      | Some h \<Rightarrow>
          (case py_index (length ns) h of
             None \<Rightarrow> Inl IndexError
           | Some p \<Rightarrow> build_loop cs (ns[p := add (ns ! p) (ns ! c)])))"

definition build_tree :: "int list \<Rightarrow> py_error + NODE list" where
  "build_tree sent =
     build_loop [1..<length sent]
       (map (\<lambda>(index, p_index). NODE_init index (Some p_index)) (enumerate 0 sent))"

text \<open>
  \<^verbatim>\<open>DepTree.__init__\<close> on the value of the sequence. \<^verbatim>\<open>sentence[0] = -1\<close> raises
  \<^verbatim>\<open>IndexError\<close> on the empty list. (The copy that precedes it is modelled with the
  store, below.)
\<close>

definition DepTree_init :: "int list \<Rightarrow> py_error + DepTree" where
  "DepTree_init sequence =
     (if sequence = [] then Inl IndexError
      else let sent = sequence[0 := -1] in
        (case build_tree sent of
           Inl e \<Rightarrow> Inl e
         | Inr ns \<Rightarrow>
             Inr \<lparr>sentence = sent, nodes = ns, root = ns ! 0,
                  visit = replicate (length sent) False\<rparr>))"

subsection \<open>The traversal\<close>

text \<open>
  \<^verbatim>\<open>DepTree.inorder_traversal\<close> with the two \<^verbatim>\<open>for\<close> loops as \<open>traverse_list\<close>.
  \<^verbatim>\<open>self.visit\<close> is threaded through. The reads \<^verbatim>\<open>self.visit[node.id]\<close> and
  \<^verbatim>\<open>self.nodes[ln]\<close> raise \<^verbatim>\<open>IndexError\<close> out of range. Every call of
  \<^verbatim>\<open>inorder_traversal\<close> takes one frame of the interpreter, also the call on a visited
  node: the first argument is the number of nested calls that the recursion limit still
  allows, and a call beyond it raises \<^verbatim>\<open>RecursionError\<close>. The loops over the
  dependents run in the frame of their node. (The result \<open>None\<close> is kept in the type,
  which the traversal shares with the functions that take fuel; it is never returned.)
\<close>

fun inorder_traversal ::
    "nat \<Rightarrow> NODE list \<Rightarrow> bool list \<Rightarrow> NODE \<Rightarrow> (py_error + nat list \<times> bool list) option"
  and traverse_list ::
    "nat \<Rightarrow> NODE list \<Rightarrow> bool list \<Rightarrow> nat list \<Rightarrow> (py_error + nat list \<times> bool list) option"
where
  "inorder_traversal 0 ns vis node = Some (Inl RecursionError)"
| "inorder_traversal (Suc fuel) ns vis node =
     (if length vis \<le> node_id node then Some (Inl IndexError)
      else if vis ! node_id node then Some (Inr ([], vis))
      else
        (case traverse_list fuel ns (vis[node_id node := True]) (lefts node) of
           None \<Rightarrow> None
         | Some (Inl e) \<Rightarrow> Some (Inl e)
         | Some (Inr (lf_list, vis1)) \<Rightarrow>
             (case traverse_list fuel ns vis1 (rights node) of
                None \<Rightarrow> None
              | Some (Inl e) \<Rightarrow> Some (Inl e)
              | Some (Inr (rf_list, vis2)) \<Rightarrow>
                  Some (Inr (lf_list @ [node_id node] @ rf_list, vis2)))))"
| "traverse_list fuel ns vis [] = Some (Inr ([], vis))"
| "traverse_list fuel ns vis (c # cs) =
     (if length ns \<le> c then Some (Inl IndexError)
      else
        (case inorder_traversal fuel ns vis (ns ! c) of
           None \<Rightarrow> None
         | Some (Inl e) \<Rightarrow> Some (Inl e)
         | Some (Inr (xs, vis1)) \<Rightarrow>
             (case traverse_list fuel ns vis1 cs of
                None \<Rightarrow> None
              | Some (Inl e) \<Rightarrow> Some (Inl e)
              | Some (Inr (ys, vis2)) \<Rightarrow> Some (Inr (xs @ ys, vis2)))))"

definition judge_legal :: "nat \<Rightarrow> DepTree \<Rightarrow> (py_error + bool) option" where
  "judge_legal fuel t =
     (let target_seq = [0..<length (nodes t)] in
      if length (lefts (root t) @ rights (root t)) \<noteq> 1 then Some (Inr False)
      else
        (case inorder_traversal fuel (nodes t) (visit t) (root t) of
           None \<Rightarrow> None
         | Some (Inl e) \<Rightarrow> Some (Inl e)
         | Some (Inr (cur_seq, vis)) \<Rightarrow>
             if target_seq \<noteq> cur_seq then Some (Inr False) else Some (Inr True)))"

definition istree :: "nat \<Rightarrow> int list \<Rightarrow> (py_error + bool) option" where
  "istree fuel sequence =
     (case DepTree_init sequence of
        Inl e \<Rightarrow> Some (Inl e)
      | Inr t \<Rightarrow> judge_legal fuel t)"

subsection \<open>The validator as the specification words it\<close>

text \<open>
  The head array read as a graph: \<open>is_dep hs p c\<close> holds when the entry of token \<open>c\<close>
  denotes position \<open>p\<close>. The left dependents of \<open>p\<close> are the dependents \<open>c \<le> p\<close>
  and the right dependents the dependents \<open>p < c\<close>, both ascending, over the tokens
  \<open>1, \<dots>, n - 1\<close> (the entry at position 0 is never read). \<open>valid_heads\<close> says that
  the array is not empty and every entry from position 1 on is an index Python accepts.
\<close>

definition is_dep :: "int list \<Rightarrow> nat \<Rightarrow> nat \<Rightarrow> bool" where
  "is_dep hs p c = (py_index (length hs) (hs ! c) = Some p)"

definition spec_lefts :: "int list \<Rightarrow> nat \<Rightarrow> nat list" where
  "spec_lefts hs p = filter (\<lambda>c. is_dep hs p c \<and> c \<le> p) [1..<length hs]"

definition spec_rights :: "int list \<Rightarrow> nat \<Rightarrow> nat list" where
  "spec_rights hs p = filter (\<lambda>c. is_dep hs p c \<and> p < c) [1..<length hs]"

definition valid_heads :: "int list \<Rightarrow> bool" where
  "valid_heads hs = (hs \<noteq> [] \<and> (\<forall>c \<in> set [1..<length hs]. py_index (length hs) (hs ! c) \<noteq> None))"

text \<open>
  The node list after the loop of \<^verbatim>\<open>build_tree\<close> has handled the tokens \<open>1, \<dots>, k - 1\<close>;
  it is the invariant of that loop.
\<close>

definition part_nodes :: "int list \<Rightarrow> nat \<Rightarrow> NODE list" where
  "part_nodes hs k =
     map (\<lambda>p. \<lparr>lefts = filter (\<lambda>c. is_dep hs p c \<and> c \<le> p) [1..<k],
               rights = filter (\<lambda>c. is_dep hs p c \<and> p < c) [1..<k],
               node_id = p, parent = Some (hs ! p)\<rparr>) [0..<length hs]"

text \<open>
  The in-order traversal of the specification: left subtrees in ascending order of the
  dependents, the node, right subtrees in ascending order, with a set of visited nodes; a
  visited node contributes the empty list.
\<close>

fun spec_inorder ::
    "nat \<Rightarrow> (nat \<Rightarrow> nat list) \<Rightarrow> (nat \<Rightarrow> nat list) \<Rightarrow> nat set \<Rightarrow> nat \<Rightarrow> (nat list \<times> nat set) option"
  and spec_inorder_list ::
    "nat \<Rightarrow> (nat \<Rightarrow> nat list) \<Rightarrow> (nat \<Rightarrow> nat list) \<Rightarrow> nat set \<Rightarrow> nat list \<Rightarrow> (nat list \<times> nat set) option"
where
  "spec_inorder 0 lf rt seen i = None"
| "spec_inorder (Suc fuel) lf rt seen i =
     (if i \<in> seen then Some ([], seen)
      else
        (case spec_inorder_list fuel lf rt (insert i seen) (lf i) of
           None \<Rightarrow> None
         | Some (ls, seen1) \<Rightarrow>
             (case spec_inorder_list fuel lf rt seen1 (rt i) of
                None \<Rightarrow> None
              | Some (rs, seen2) \<Rightarrow> Some (ls @ [i] @ rs, seen2))))"
| "spec_inorder_list fuel lf rt seen [] = Some ([], seen)"
| "spec_inorder_list fuel lf rt seen (c # cs) =
     (case spec_inorder fuel lf rt seen c of
        None \<Rightarrow> None
      | Some (xs, seen1) \<Rightarrow>
          (case spec_inorder_list fuel lf rt seen1 cs of
             None \<Rightarrow> None
           | Some (ys, seen2) \<Rightarrow> Some (xs @ ys, seen2)))"

text \<open>
  Relating the two traversals: node \<open>i\<close> is stored at position \<open>i\<close> and its dependents
  are positions of the list; the visited flags denote the visited set. The traversal of
  the specification has no result (\<open>None\<close>) at a depth where the code raises
  \<^verbatim>\<open>RecursionError\<close>.
\<close>

definition wf_nodes :: "NODE list \<Rightarrow> bool" where
  "wf_nodes ns = (\<forall>i < length ns. node_id (ns ! i) = i
      \<and> (\<forall>c \<in> set (lefts (ns ! i)). c < length ns)
      \<and> (\<forall>c \<in> set (rights (ns ! i)). c < length ns))"

definition seen_of :: "bool list \<Rightarrow> nat set" where
  "seen_of vis = {j. j < length vis \<and> vis ! j}"

definition refines :: "(py_error + nat list \<times> bool list) option \<Rightarrow> nat \<Rightarrow> (nat list \<times> nat set) option \<Rightarrow> bool" where
  "refines r n s =
     (case r of
        None \<Rightarrow> False
      | Some (Inl e) \<Rightarrow> e = RecursionError \<and> s = None
      | Some (Inr (xs, vis')) \<Rightarrow> length vis' = n \<and> s = Some (xs, seen_of vis'))"

definition children_below :: "nat \<Rightarrow> (nat \<Rightarrow> nat list) \<Rightarrow> (nat \<Rightarrow> nat list) \<Rightarrow> bool" where
  "children_below n lf rt = (\<forall>i < n. (\<forall>c \<in> set (lf i). c < n) \<and> (\<forall>c \<in> set (rt i). c < n))"

definition parent_closed :: "(nat \<Rightarrow> nat list) \<Rightarrow> (nat \<Rightarrow> nat list) \<Rightarrow> nat set \<Rightarrow> bool" where
  "parent_closed lf rt S = (\<forall>p c. c \<in> set (lf p) \<union> set (rt p) \<longrightarrow> c \<in> S \<longrightarrow> p \<in> S)"

definition spec_traversal :: "nat \<Rightarrow> int list \<Rightarrow> nat list option" where
  "spec_traversal fuel hs =
     map_option fst (spec_inorder fuel (spec_lefts hs) (spec_rights hs) {} 0)"

text \<open>
  A cycle of the head array: a non-empty list of tokens, each the dependent of the next and
  the last the dependent of the first.
\<close>

definition is_cycle :: "int list \<Rightarrow> nat list \<Rightarrow> bool" where
  "is_cycle hs cyc =
     (cyc \<noteq> [] \<and>
      (\<forall>j \<in> set [0..<length cyc].
         1 \<le> cyc ! j \<and> cyc ! j < length hs \<and>
         is_dep hs (cyc ! ((j + 1) mod length cyc)) (cyc ! j)))"

subsection \<open>The caller's sequence in a store\<close>

text \<open>
  \<^verbatim>\<open>istree\<close> receives a reference to a list object of the caller. A store is the list
  of the allocated integer lists, a reference a position in it. \<^verbatim>\<open>copy.deepcopy\<close>
  allocates a new list with the same elements, and \<^verbatim>\<open>sentence[0] = -1\<close> writes to the
  object its reference denotes. \<open>DepTree_init_st\<close> is \<^verbatim>\<open>DepTree.__init__\<close> on the
  store, and \<open>istree_st\<close> is \<^verbatim>\<open>istree\<close> on the store.
\<close>

type_synonym ref = nat
type_synonym store = "int list list"

definition deepcopy :: "store \<Rightarrow> ref \<Rightarrow> ref \<times> store" where
  "deepcopy st r = (length st, st @ [st ! r])"

definition store_setitem :: "store \<Rightarrow> ref \<Rightarrow> nat \<Rightarrow> int \<Rightarrow> py_error + store" where
  "store_setitem st r i v =
     (if i < length (st ! r) then Inr (st[r := (st ! r)[i := v]]) else Inl IndexError)"

definition DepTree_init_st :: "store \<Rightarrow> ref \<Rightarrow> (py_error + DepTree) \<times> store" where
  "DepTree_init_st st r =
     (let (r', st1) = deepcopy st r in
      (case store_setitem st1 r' 0 (-1) of
         Inl e \<Rightarrow> (Inl e, st1)
       | Inr st2 \<Rightarrow>
           (case build_tree (st2 ! r') of
              Inl e \<Rightarrow> (Inl e, st2)
            | Inr ns \<Rightarrow>
                (Inr \<lparr>sentence = st2 ! r', nodes = ns, root = ns ! 0,
                      visit = replicate (length (st2 ! r')) False\<rparr>, st2))))"

definition istree_st :: "nat \<Rightarrow> store \<Rightarrow> ref \<Rightarrow> (py_error + bool) option \<times> store" where
  "istree_st fuel st r =
     (case DepTree_init_st st r of
        (Inl e, st') \<Rightarrow> (Some (Inl e), st')
      | (Inr t, st') \<Rightarrow> (judge_legal fuel t, st'))"

section \<open>The length bucketer\<close>

subsection \<open>Floating-point values and the numpy reductions\<close>

text \<open>
  \<^verbatim>\<open>kmeans\<close> computes on numpy floating-point arrays. A value is \<open>NaN\<close> or a rational:
  the rounding of the centroid update is not modelled, and lengths are taken as exactly
  representable. \<open>NaN\<close> is what numpy yields for the division \<open>0 / 0\<close> of an empty
  cluster; it is unequal to itself, and \<^verbatim>\<open>min\<close>, \<^verbatim>\<open>argmin\<close> and \<^verbatim>\<open>argmax\<close> select
  the first \<open>NaN\<close> of an array that has one.
\<close>

datatype f32 = NaN | Val rat

fun f_absdiff :: "rat \<Rightarrow> f32 \<Rightarrow> f32" where
  "f_absdiff v NaN = NaN"
| "f_absdiff v (Val c) = Val \<bar>v - c\<bar>"

definition f_div :: "rat \<Rightarrow> nat \<Rightarrow> f32" where
  "f_div s m = (if m = 0 then NaN else Val (s / of_nat m))"

fun f_equal :: "f32 \<Rightarrow> f32 \<Rightarrow> bool" where
  "f_equal (Val a) (Val b) = (a = b)"
| "f_equal _ _ = False"

fun min_better :: "f32 \<Rightarrow> f32 \<Rightarrow> bool" where
  "min_better NaN (Val a) = True"
| "min_better (Val b) (Val a) = (b < a)"
| "min_better _ NaN = False"

fun max_better :: "f32 \<Rightarrow> f32 \<Rightarrow> bool" where
  "max_better NaN (Val a) = True"
| "max_better (Val b) (Val a) = (a < b)"
| "max_better _ NaN = False"

text \<open>
  The position of the first best element: position 0 unless a later element is strictly
  better than the first. The numpy reductions raise \<^verbatim>\<open>ValueError\<close> on an empty array.
\<close>

fun argbest :: "('a \<Rightarrow> 'a \<Rightarrow> bool) \<Rightarrow> 'a list \<Rightarrow> nat" where
  "argbest better [] = 0"
| "argbest better (a # as) =
     (if \<exists>b \<in> set as. better b a then Suc (argbest better as) else 0)"

definition np_argmin :: "f32 list \<Rightarrow> py_error + nat" where
  "np_argmin xs = (if xs = [] then Inl ValueError else Inr (argbest min_better xs))"

definition np_min :: "f32 list \<Rightarrow> py_error + f32" where
  "np_min xs = (if xs = [] then Inl ValueError else Inr (xs ! argbest min_better xs))"

definition np_argmax :: "f32 list \<Rightarrow> py_error + nat" where
  "np_argmax xs = (if xs = [] then Inl ValueError else Inr (argbest max_better xs))"

definition argmax_nat :: "nat list \<Rightarrow> py_error + nat" where
  "argmax_nat xs = (if xs = [] then Inl ValueError else Inr (argbest (\<lambda>b a. a < b) xs))"

subsection \<open>kmeans\<close>

fun index_of :: "'a list \<Rightarrow> 'a \<Rightarrow> nat" where
  "index_of [] v = 0"
| "index_of (a # as) v = (if a = v then 0 else Suc (index_of as v))"

text \<open>
  \<^verbatim>\<open>np.unique(x, return_inverse=True, return_counts=True)\<close>: the sorted distinct values,
  for each element of \<open>x\<close> the position of its value among them, and for each distinct
  value the number of its occurrences.
\<close>

definition np_unique :: "rat list \<Rightarrow> rat list \<times> nat list \<times> nat list" where
  "np_unique x =
     (let d = sort (remdups x)
      in (d, map (index_of d) x, map (count_list x) d))"

text \<open>
  \<^verbatim>\<open>dists_abs = np.absolute(d[..., np.newaxis] - c)\<close> followed by
  \<^verbatim>\<open>dists, y = dists_abs.min(axis=-1), dists_abs.argmin(axis=-1)\<close>. The reduction runs
  over the centroids and raises when there are none.
\<close>

definition assign_labels :: "rat list \<Rightarrow> f32 list \<Rightarrow> py_error + f32 list \<times> nat list" where
  "assign_labels d c =
     (if c = [] then Inl ValueError
      else
        let dists_abs = map (\<lambda>v. map (f_absdiff v) c) d
        in Inr (map (\<lambda>row. row ! argbest min_better row) dists_abs,
                map (argbest min_better) dists_abs))"

text \<open>
  One round of the repair loop, for cluster \<open>i\<close>: when no value carries the label \<open>i\<close>,
  the first farthest value of the first biggest cluster receives it.
\<close>

definition repair_one :: "nat \<Rightarrow> f32 list \<Rightarrow> nat \<Rightarrow> nat list \<Rightarrow> py_error + nat list" where
  "repair_one k dists i y =
     (if i \<in> set y then Inr y
      else
        (case argmax_nat (map (count_list y) [0..<k]) of
           Inl e \<Rightarrow> Inl e
         | Inr big \<Rightarrow>
             let biggest = filter (\<lambda>j. y ! j = big) [0..<length y]
             in (case np_argmax (map (\<lambda>j. dists ! j) biggest) of
                   Inl e \<Rightarrow> Inl e
                 | Inr farthest \<Rightarrow> Inr (y[biggest ! farthest := i]))))"

fun repair :: "nat \<Rightarrow> f32 list \<Rightarrow> nat list \<Rightarrow> nat list \<Rightarrow> py_error + nat list" where
  "repair k dists [] y = Inr y"
| "repair k dists (i # is) y =
     (case repair_one k dists i y of
        Inl e \<Rightarrow> Inl e
      | Inr y' \<Rightarrow> repair k dists is y')"

text \<open>\<^verbatim>\<open>(total * mask).sum(-1) / (f * mask).sum(-1)\<close> with \<^verbatim>\<open>mask[a][j] = (y[j] == a)\<close>.\<close>

definition update_centroids :: "nat \<Rightarrow> rat list \<Rightarrow> nat list \<Rightarrow> nat list \<Rightarrow> f32 list" where
  "update_centroids k total' f y =
     map (\<lambda>a. f_div (\<Sum>j \<leftarrow> [0..<length y]. if y ! j = a then total' ! j else 0)
                    (\<Sum>j \<leftarrow> [0..<length y]. if y ! j = a then f ! j else 0))
       [0..<k]"

text \<open>\<^verbatim>\<open>old is None or not np.equal(c, old).all()\<close> is the negation of \<open>converged\<close>.\<close>

definition converged :: "f32 list \<Rightarrow> f32 list option \<Rightarrow> bool" where
  "converged c old = (case old of None \<Rightarrow> False | Some old' \<Rightarrow> list_all2 f_equal c old')"

text \<open>
  The \<^verbatim>\<open>while\<close> loop. The fuel counts its rounds, and \<open>None\<close> says that the
  centroids were still changing when it ran out; the theorems name a number of rounds that
  is enough.
\<close>

fun kmeans_loop ::
    "nat \<Rightarrow> nat \<Rightarrow> rat list \<Rightarrow> rat list \<Rightarrow> nat list \<Rightarrow> f32 list \<Rightarrow> f32 list option \<Rightarrow>
     f32 list \<Rightarrow> nat list \<Rightarrow> (py_error + f32 list \<times> nat list) option" where
  "kmeans_loop 0 k d total' f c old dists y =
     (if converged c old then Some (Inr (c, y)) else None)"
| "kmeans_loop (Suc fuel) k d total' f c old dists y =
     (if converged c old then Some (Inr (c, y))
      else
        (case repair k dists [0..<k] y of
           Inl e \<Rightarrow> Some (Inl e)
         | Inr y1 \<Rightarrow>
             let c' = update_centroids k total' f y1
             in (case assign_labels d c' of
                   Inl e \<Rightarrow> Some (Inl e)
                 | Inr (dists', y') \<Rightarrow> kmeans_loop fuel k d total' f c' (Some c) dists' y')))"

text \<open>
  \<^verbatim>\<open>kmeans(x, k)\<close>. The result of \<^verbatim>\<open>np.random.permutation(len(d))\<close> is the argument
  \<open>perm\<close>. The last lines read the labels \<open>y\<close> of the loop: \<open>assigned\<close> are the labels in
  use, and each of them gives the cluster of the positions of \<open>x\<close> that carry it.
\<close>

definition kmeans ::
    "nat \<Rightarrow> nat list \<Rightarrow> int list \<Rightarrow> nat \<Rightarrow> (py_error + f32 list \<times> nat list list) option" where
  "kmeans fuel perm x k =
     (case np_unique (map of_int x) of
        (d, indices, f) \<Rightarrow>
          let total' = map (\<lambda>j. d ! j * of_nat (f ! j)) [0..<length d];
              c = map (\<lambda>p. Val (d ! p)) (take k perm)
          in (case assign_labels d c of
                Inl e \<Rightarrow> Some (Inl e)
              | Inr (dists, y) \<Rightarrow>
                  (case kmeans_loop fuel (min (length d) k) d total' f c None dists y of
                     None \<Rightarrow> None
                   | Some (Inl e) \<Rightarrow> Some (Inl e)
                   | Some (Inr (c', y')) \<Rightarrow>
                       let assigned = sort (remdups y');
                           yi = map (\<lambda>i. y' ! i) indices;
                           centroids = map (\<lambda>a. c' ! a) assigned;
                           clusters = map (\<lambda>a. filter (\<lambda>i. yi ! i = a) [0..<length yi]) assigned
                       in Some (Inr (centroids, clusters)))))"

text \<open>\<open>perm\<close> is a permutation of \<open>0, \<dots>, n - 1\<close>.\<close>

definition is_permutation :: "nat \<Rightarrow> nat list \<Rightarrow> bool" where
  "is_permutation n perm = (sort perm = [0..<n])"

text \<open>
  The invariant of the loop on the labels (one label per distinct value, each below the
  number of centroids), and the clusters that the last lines of \<^verbatim>\<open>kmeans\<close> build from
  the labels.
\<close>

definition labels_ok :: "nat \<Rightarrow> nat \<Rightarrow> nat list \<Rightarrow> bool" where
  "labels_ok k n y = (length y = n \<and> (\<forall>v \<in> set y. v < k))"

definition clusters_of :: "nat list \<Rightarrow> nat list \<Rightarrow> nat list list" where
  "clusters_of y indices =
     map (\<lambda>a. filter (\<lambda>i. map (\<lambda>i. y ! i) indices ! i = a) [0..<length (map (\<lambda>i. y ! i) indices)])
       (sort (remdups y))"

section \<open>The Eisner decoder\<close>

subsection \<open>Scores and tables\<close>

text \<open>
  A score is a floating-point value of the arrays of \<^verbatim>\<open>eisner\<close>: a finite number, one
  of the two infinities (negative infinity fills the tables before the dynamic program
  writes them) or NaN. \<open>score_add\<close> is the addition of IEEE 754: NaN is absorbing, the
  sum of the two infinities is NaN, an infinity absorbs every finite number, and a sum of
  finite numbers beyond the largest finite value \<open>float_max\<close> overflows to the infinity
  of its sign. \<open>float_max\<close> is that of \<^verbatim>\<open>float64\<close>, the type numpy gives an array of
  Python floats. Finite values are exact rationals: the rounding of a finite sum is outside
  the model. \<open>score_less\<close> is the order that \<^verbatim>\<open>max\<close> and \<^verbatim>\<open>argmax\<close> of numpy use:
  NaN counts as larger than everything else, and \<^verbatim>\<open>argmax\<close> returns the first
  maximum, so the first NaN when there is one.
\<close>

datatype score = NegInf | Fin rat | PosInf | Nan

definition float_max :: rat where
  "float_max = 2 ^ 1024 - 2 ^ 971"

fun score_add :: "score \<Rightarrow> score \<Rightarrow> score" where
  "score_add Nan y = Nan"
| "score_add x Nan = Nan"
| "score_add PosInf NegInf = Nan"
| "score_add NegInf PosInf = Nan"
| "score_add PosInf y = PosInf"
| "score_add x PosInf = PosInf"
| "score_add NegInf y = NegInf"
| "score_add x NegInf = NegInf"
| "score_add (Fin a) (Fin b) =
     (if float_max < a + b then PosInf else if a + b < - float_max then NegInf else Fin (a + b))"

fun score_less :: "score \<Rightarrow> score \<Rightarrow> bool" where
  "score_less Nan y = False"
| "score_less x Nan = True"
| "score_less x NegInf = False"
| "score_less NegInf y = True"
| "score_less PosInf y = False"
| "score_less x PosInf = True"
| "score_less (Fin a) (Fin b) = (a < b)"

definition score_argmax :: "score list \<Rightarrow> nat" where
  "score_argmax xs = argbest (\<lambda>b a. score_less a b) xs"

definition score_max :: "score list \<Rightarrow> score" where
  "score_max xs = xs ! score_argmax xs"

text \<open>
  A table is an array of shape \<open>(seq_len, seq_len, batch_size)\<close>, read at a row, a column
  and a sentence of the batch. The four tables of the dynamic program are the state of
  its loop.
\<close>

type_synonym 'a table = "nat \<Rightarrow> nat \<Rightarrow> nat \<Rightarrow> 'a"

record eisner_state =
  s_i :: "score table"
  s_c :: "score table"
  p_i :: "nat table"
  p_c :: "nat table"

subsection \<open>The helpers of the module \<^verbatim>\<open>nn\<close>\<close>

text \<open>
  Modelled from the spec: \<^verbatim>\<open>nn.stripe\<close>, which is not among the sources. The comments of
  \<^verbatim>\<open>eisner\<close> and the formulas of the specification fix what it reads: entry \<open>(i, k)\<close>
  of \<^verbatim>\<open>stripe(x, n, w, (a, b), dim)\<close> is \<open>x[a + i][b + i + k]\<close> for \<open>dim = 1\<close> and
  \<open>x[a + i + k][b + i]\<close> for \<open>dim = 0\<close>, for \<open>i < n\<close> and \<open>k < w\<close>.
\<close>

definition stripe :: "'a table \<Rightarrow> nat \<Rightarrow> nat \<Rightarrow> nat \<times> nat \<Rightarrow> nat \<Rightarrow> 'a table" where
  "stripe x n w offset dim' =
     (\<lambda>i k b. if dim' = 1 then x (fst offset + i) (snd offset + i + k) b
              else x (fst offset + i + k) (snd offset + i) b)"

text \<open>
  Modelled from the spec: \<^verbatim>\<open>nn.fill_diagonal\<close>, which is not among the sources. It
  writes \<open>value[b][i]\<close> to the entry \<open>i\<close> of the diagonal \<open>offset\<close> of every sentence
  \<open>b\<close>: \<open>x[i][i + offset]\<close> for \<open>offset \<ge> 0\<close> and \<open>x[i - offset][i]\<close> for \<open>offset < 0\<close>,
  inside the \<open>seq_len\<close> rows and columns of \<open>x\<close>.
\<close>

definition fill_diagonal :: "nat \<Rightarrow> 'a table \<Rightarrow> (nat \<Rightarrow> nat \<Rightarrow> 'a) \<Rightarrow> int \<Rightarrow> 'a table" where
  "fill_diagonal seq_len x val offset =
     (if 0 \<le> offset
      then (\<lambda>i j b. if j = i + nat offset \<and> j < seq_len then val b i else x i j b)
      else (\<lambda>i j b. if i = j + nat (- offset) \<and> i < seq_len then val b j else x i j b))"

text \<open>
  Modelled from the spec: \<^verbatim>\<open>nn.backtrack\<close>, which is not among the sources. It starts
  from a span and expands the stored split points, alternating between the two pointer
  tables, and writes the head of each dependent it finds. A complete span \<open>(i, j)\<close> with
  split \<open>r\<close> is the incomplete span \<open>(i, r)\<close> followed by the complete span \<open>(r, j)\<close>; an
  incomplete span \<open>(i, j)\<close> with split \<open>r\<close> makes \<open>i\<close> the head of \<open>j\<close> and is the two
  complete spans from the lower end to \<open>r\<close> and from the upper end to \<open>r + 1\<close>. The pointer
  tables have \<open>seq_len\<close> rows and columns for the sentence, and reading them or writing
  \<open>heads\<close> out of range raises \<^verbatim>\<open>IndexError\<close>. The fuel bounds the depth of the
  recursion.
\<close>

fun backtrack ::
    "nat \<Rightarrow> nat \<Rightarrow> (nat \<Rightarrow> nat \<Rightarrow> nat) \<Rightarrow> (nat \<Rightarrow> nat \<Rightarrow> nat) \<Rightarrow> int list \<Rightarrow> nat \<Rightarrow> nat \<Rightarrow> bool \<Rightarrow>
     (py_error + int list) option" where
  "backtrack 0 seq_len p_i' p_c' heads i j complete' = None"
| "backtrack (Suc fuel) seq_len p_i' p_c' heads i j complete' =
     (if i = j then Some (Inr heads)
      else if seq_len \<le> i \<or> seq_len \<le> j then Some (Inl IndexError)
      else if complete' then
        (let r = p_c' i j in
         (case backtrack fuel seq_len p_i' p_c' heads i r False of
            None \<Rightarrow> None
          | Some (Inl e) \<Rightarrow> Some (Inl e)
          | Some (Inr heads1) \<Rightarrow> backtrack fuel seq_len p_i' p_c' heads1 r j True))
      else
        (let r = p_i' i j in
         if length heads \<le> j then Some (Inl IndexError)
         else
           (case backtrack fuel seq_len p_i' p_c' (heads[j := int i]) (min i j) r True of
              None \<Rightarrow> None
            | Some (Inl e) \<Rightarrow> Some (Inl e)
            | Some (Inr heads1) \<Rightarrow> backtrack fuel seq_len p_i' p_c' heads1 (max i j) (r + 1) True)))"

text \<open>
  Modelled from the spec: \<^verbatim>\<open>nn.pad_sequence\<close>, which is not among the sources. Every
  sequence is padded on the right to the length \<open>fix_len\<close> with the value 1; a sequence
  longer than \<open>fix_len\<close> is an error.
\<close>

definition pad_sequence :: "int list list \<Rightarrow> nat \<Rightarrow> py_error + int list list" where
  "pad_sequence sequences fix_len =
     (if \<exists>s \<in> set sequences. fix_len < length s then Inl AssertionError
      else Inr (map (\<lambda>s. s @ replicate (fix_len - length s) 1) sequences))"

subsection \<open>eisner\<close>

text \<open>
  The tables before the loop: both score tables hold negative infinity, the complete
  table holds 0 on its diagonal, the pointer tables hold 0.
\<close>

definition initial_state :: "nat \<Rightarrow> eisner_state" where
  "initial_state seq_len =
     \<lparr>s_i = (\<lambda>i j b. NegInf),
      s_c = fill_diagonal seq_len (\<lambda>i j b. NegInf) (\<lambda>b i. Fin 0) 0,
      p_i = (\<lambda>i j b. 0),
      p_c = (\<lambda>i j b. 0)\<rparr>"

text \<open>
  The body of \<^verbatim>\<open>for w in range(1, seq_len)\<close>. \<open>scores b i j\<close> is the entry
  \<open>(b, i, j)\<close> of the argument of \<^verbatim>\<open>eisner\<close>, so that the diagonal \<open>-w\<close> of the
  transposed array is \<open>scores b i (i + w)\<close> and its diagonal \<open>w\<close> is
  \<open>scores b (i + w) i\<close>. The lists over \<open>k\<close> are the last axis, over which
  \<^verbatim>\<open>max\<close> and \<^verbatim>\<open>argmax\<close> run.
\<close>

definition eisner_width ::
    "nat \<Rightarrow> (nat \<Rightarrow> nat \<Rightarrow> nat \<Rightarrow> score) \<Rightarrow> nat list \<Rightarrow> eisner_state \<Rightarrow> nat \<Rightarrow> eisner_state" where
  "eisner_width seq_len scores lens st w =
     (let n = seq_len - w;
          ilr = (\<lambda>i k b. score_add (stripe (s_c st) n w (0, 0) 1 i k b)
                                   (stripe (s_c st) n w (w, 1) 1 i k b));
          il = (\<lambda>b i. map (\<lambda>k. score_add (ilr i k b) (scores b i (i + w))) [0..<w]);
          s_i1 = fill_diagonal seq_len (s_i st) (\<lambda>b i. score_max (il b i)) (- int w);
          p_i1 = fill_diagonal seq_len (p_i st) (\<lambda>b i. score_argmax (il b i) + i) (- int w);
          ir = (\<lambda>b i. map (\<lambda>k. score_add (ilr i k b) (scores b (i + w) i)) [0..<w]);
          s_i2 = fill_diagonal seq_len s_i1 (\<lambda>b i. score_max (ir b i)) (int w);
          p_i2 = fill_diagonal seq_len p_i1 (\<lambda>b i. score_argmax (ir b i) + i) (int w);
          cl = (\<lambda>b i. map (\<lambda>k. score_add (stripe (s_c st) n w (0, 0) 0 i k b)
                                          (stripe s_i2 n w (w, 0) 1 i k b)) [0..<w]);
          s_c1 = fill_diagonal seq_len (s_c st) (\<lambda>b i. score_max (cl b i)) (- int w);
          p_c1 = fill_diagonal seq_len (p_c st) (\<lambda>b i. score_argmax (cl b i) + i) (- int w);
          cr = (\<lambda>b i. map (\<lambda>k. score_add (stripe s_i2 n w (0, 1) 1 i k b)
                                          (stripe s_c1 n w (1, w) 0 i k b)) [0..<w]);
          s_c2 = fill_diagonal seq_len s_c1 (\<lambda>b i. score_max (cr b i)) (int w);
          s_c3 = (\<lambda>i j b. if i = 0 \<and> j = w \<and> b < length lens \<and> lens ! b \<noteq> w
                           then NegInf else s_c2 i j b);
          p_c2 = fill_diagonal seq_len p_c1 (\<lambda>b i. score_argmax (cr b i) + i + 1) (int w)
      in \<lparr>s_i = s_i2, s_c = s_c3, p_i = p_i2, p_c = p_c2\<rparr>)"

text \<open>
  The loop \<^verbatim>\<open>for i, length in enumerate(lens.tolist())\<close>: the heads of sentence \<open>i\<close>
  start as \<open>length + 1\<close> ones and are written by \<^verbatim>\<open>backtrack\<close> from the complete span
  \<open>(0, length)\<close>.
\<close>

fun backtrack_all ::
    "nat \<Rightarrow> nat \<Rightarrow> eisner_state \<Rightarrow> (nat \<times> nat) list \<Rightarrow> (py_error + int list list) option" where
  "backtrack_all fuel seq_len st [] = Some (Inr [])"
| "backtrack_all fuel seq_len st ((i, len) # rest) =
     (case backtrack fuel seq_len (\<lambda>a b. p_i st a b i) (\<lambda>a b. p_c st a b i)
             (replicate (len + 1) 1) 0 len True of
        None \<Rightarrow> None
      | Some (Inl e) \<Rightarrow> Some (Inl e)
      | Some (Inr heads) \<Rightarrow>
          (case backtrack_all fuel seq_len st rest of
             None \<Rightarrow> None
           | Some (Inl e) \<Rightarrow> Some (Inl e)
           | Some (Inr predicts) \<Rightarrow> Some (Inr (heads # predicts))))"

definition eisner_tables ::
    "nat \<Rightarrow> (nat \<Rightarrow> nat \<Rightarrow> nat \<Rightarrow> score) \<Rightarrow> nat list \<Rightarrow> eisner_state" where
  "eisner_tables seq_len scores lens =
     foldl (eisner_width seq_len scores lens) (initial_state seq_len) [1..<seq_len]"

text \<open>
  \<^verbatim>\<open>eisner(scores, mask)\<close>. \<open>seq_len\<close> is the second component of the shape of
  \<open>scores\<close>; the batch size is the number of rows of \<open>mask\<close>; \<open>lens\<close> is
  \<^verbatim>\<open>mask.sum(1)\<close>.
\<close>

definition eisner ::
    "nat \<Rightarrow> nat \<Rightarrow> (nat \<Rightarrow> nat \<Rightarrow> nat \<Rightarrow> score) \<Rightarrow> bool list list \<Rightarrow>
     (py_error + int list list) option" where
  "eisner fuel seq_len scores mask' =
     (let lens = map (\<lambda>row. length (filter (\<lambda>m. m) row)) mask';
          st = eisner_tables seq_len scores lens
      in (case backtrack_all fuel seq_len st (enumerate 0 lens) of
            None \<Rightarrow> None
          | Some (Inl e) \<Rightarrow> Some (Inl e)
          | Some (Inr predicts) \<Rightarrow>
              (case pad_sequence predicts seq_len of
                 Inl e \<Rightarrow> Some (Inl e)
               | Inr out \<Rightarrow> Some (Inr out))))"

subsection \<open>Notions for the proofs about the decoder\<close>

text \<open>
  The candidate lists of a cell (the last axis that \<^verbatim>\<open>max\<close> and \<^verbatim>\<open>argmax\<close> reduce),
  the tables after the widths \<open>1, \<dots>, m\<close>, the ranges of the stored split points, and
  the spans that \<^verbatim>\<open>backtrack\<close> derives: \<open>RC hs h e\<close> is a complete span with head \<open>h\<close>
  reaching right to \<open>e\<close>, \<open>LC hs h e\<close> one reaching left to \<open>e\<close>, both read off the
  head array \<open>hs\<close>.
\<close>

definition il_list :: "(nat \<Rightarrow> nat \<Rightarrow> nat \<Rightarrow> score) \<Rightarrow> score table \<Rightarrow> nat \<Rightarrow> nat \<Rightarrow> nat \<Rightarrow> score list" where
  "il_list sc S b i w =
     map (\<lambda>k. score_add (score_add (S i (i + k) b) (S (w + i) (1 + i + k) b)) (sc b i (i + w))) [0..<w]"

definition ir_list :: "(nat \<Rightarrow> nat \<Rightarrow> nat \<Rightarrow> score) \<Rightarrow> score table \<Rightarrow> nat \<Rightarrow> nat \<Rightarrow> nat \<Rightarrow> score list" where
  "ir_list sc S b i w =
     map (\<lambda>k. score_add (score_add (S i (i + k) b) (S (w + i) (1 + i + k) b)) (sc b (i + w) i)) [0..<w]"

definition cl_list :: "score table \<Rightarrow> score table \<Rightarrow> nat \<Rightarrow> nat \<Rightarrow> nat \<Rightarrow> score list" where
  "cl_list S I b i w = map (\<lambda>k. score_add (S (i + k) i b) (I (w + i) (i + k) b)) [0..<w]"

definition cr_list :: "score table \<Rightarrow> score table \<Rightarrow> nat \<Rightarrow> nat \<Rightarrow> nat \<Rightarrow> score list" where
  "cr_list S I b i w = map (\<lambda>k. score_add (I i (1 + i + k) b) (S (1 + i + k) (w + i) b)) [0..<w]"

definition tables_upto :: "nat \<Rightarrow> (nat \<Rightarrow> nat \<Rightarrow> nat \<Rightarrow> score) \<Rightarrow> nat list \<Rightarrow> nat \<Rightarrow> eisner_state" where
  "tables_upto n sc lens m = foldl (eisner_width n sc lens) (initial_state n) [1..<Suc m]"

definition dist_nat :: "nat \<Rightarrow> nat \<Rightarrow> nat" where
  "dist_nat i j = (if i \<le> j then j - i else i - j)"

definition ptr_ok :: "nat \<Rightarrow> (nat \<Rightarrow> nat \<Rightarrow> nat) \<Rightarrow> (nat \<Rightarrow> nat \<Rightarrow> nat) \<Rightarrow> bool" where
  "ptr_ok L p_i' p_c' =
     (\<forall>i j. i < j \<and> j \<le> L \<longrightarrow>
        (i \<le> p_i' i j \<and> p_i' i j < j) \<and> (i \<le> p_i' j i \<and> p_i' j i < j) \<and>
        (i < p_c' i j \<and> p_c' i j \<le> j) \<and> (i \<le> p_c' j i \<and> p_c' j i < j))"

inductive RC :: "int list \<Rightarrow> nat \<Rightarrow> nat \<Rightarrow> bool" and LC :: "int list \<Rightarrow> nat \<Rightarrow> nat \<Rightarrow> bool" where
  RC_refl: "RC hs h h"
| RC_step: "h \<le> m \<Longrightarrow> m < r \<Longrightarrow> r \<le> e \<Longrightarrow> hs ! r = int h \<Longrightarrow>
            RC hs h m \<Longrightarrow> LC hs r (Suc m) \<Longrightarrow> RC hs r e \<Longrightarrow> RC hs h e"
| LC_refl: "LC hs h h"
| LC_step: "e \<le> r \<Longrightarrow> r \<le> m \<Longrightarrow> m < h \<Longrightarrow> hs ! r = int h \<Longrightarrow>
            LC hs r e \<Longrightarrow> RC hs r m \<Longrightarrow> LC hs h (Suc m) \<Longrightarrow> LC hs h e"

definition bt_frame :: "int list \<Rightarrow> int list \<Rightarrow> nat \<Rightarrow> nat \<Rightarrow> bool" where
  "bt_frame hs hs' i j =
     (length hs' = length hs \<and>
      (if i \<le> j then (\<forall>p. \<not> (i < p \<and> p \<le> j) \<longrightarrow> hs' ! p = hs ! p)
       else (\<forall>p. \<not> (j \<le> p \<and> p < i) \<longrightarrow> hs' ! p = hs ! p)))"

definition bt_post :: "(nat \<Rightarrow> nat \<Rightarrow> nat) \<Rightarrow> int list \<Rightarrow> nat \<Rightarrow> nat \<Rightarrow> bool \<Rightarrow> bool" where
  "bt_post p_i' hs' i j c =
     (if c then (if i \<le> j then RC hs' i j else LC hs' i j)
      else hs' ! j = int i \<and> RC hs' (min i j) (p_i' i j) \<and> LC hs' (max i j) (Suc (p_i' i j)))"

definition nonneg_heads :: "int list \<Rightarrow> bool" where
  "nonneg_heads hs = (\<forall>c < length hs. 0 \<le> hs ! c)"

definition outR :: "int list \<Rightarrow> nat \<Rightarrow> nat \<Rightarrow> bool" where
  "outR hs h e =
     (\<forall>c. 1 \<le> c \<and> c < length hs \<and> \<not> (h < c \<and> c \<le> e) \<longrightarrow> \<not> (int h < hs ! c \<and> hs ! c \<le> int e))"

definition outL :: "int list \<Rightarrow> nat \<Rightarrow> nat \<Rightarrow> bool" where
  "outL hs h e =
     (\<forall>c. 1 \<le> c \<and> c < length hs \<and> \<not> (e \<le> c \<and> c < h) \<longrightarrow> \<not> (int e \<le> hs ! c \<and> hs ! c < int h))"

text \<open>
  \<^verbatim>\<open>mask.sum(1)\<close>, the head array that the backtracking builds for sentence \<open>b\<close> (one
  round of the loop over \<^verbatim>\<open>enumerate(lens)\<close>), and the precondition of the decoder on the
  mask: every row has the sequence length and a row sum between 1 and \<open>seq_len\<close>.
\<close>

definition lens_of :: "bool list list \<Rightarrow> nat list" where
  "lens_of mask' = map (\<lambda>row. length (filter (\<lambda>m. m) row)) mask'"

definition sentence_heads ::
    "nat \<Rightarrow> nat \<Rightarrow> eisner_state \<Rightarrow> nat \<Rightarrow> nat \<Rightarrow> (py_error + int list) option" where
  "sentence_heads fuel seq_len st b len =
     backtrack fuel seq_len (\<lambda>a c. p_i st a c b) (\<lambda>a c. p_c st a c b) (replicate (len + 1) 1) 0 len True"

definition valid_batch :: "nat \<Rightarrow> bool list list \<Rightarrow> bool" where
  "valid_batch seq_len mask' =
     (\<forall>row \<in> set mask'. length row = seq_len \<and>
        1 \<le> length (filter (\<lambda>m. m) row) \<and> length (filter (\<lambda>m. m) row) \<le> seq_len)"

text \<open>
  A score that is negative infinity or a finite number of absolute value at most \<open>B\<close>.
\<close>

definition score_within :: "rat \<Rightarrow> score \<Rightarrow> bool" where
  "score_within B x = (case x of NegInf \<Rightarrow> True | Fin v \<Rightarrow> \<bar>v\<bar> \<le> B | PosInf \<Rightarrow> False | Nan \<Rightarrow> False)"

text \<open>
  Score tensors for the examples: all scores equal; one entry of the root position
  raised, at the index pair \<open>(1, 0)\<close> or \<open>(2, 0)\<close>; the latter with other scores at
  position 3; and every score equal to \<open>10\<^sup>3\<^sup>0\<^sup>8\<close>, a finite value of \<^verbatim>\<open>float64\<close>.
\<close>

definition scores_flat :: "nat \<Rightarrow> nat \<Rightarrow> nat \<Rightarrow> score" where
  "scores_flat b i j = Fin 0"

definition scores_first :: "nat \<Rightarrow> nat \<Rightarrow> nat \<Rightarrow> score" where
  "scores_first b i j = (if i = 1 \<and> j = 0 then Fin 10 else Fin 0)"

definition scores_second :: "nat \<Rightarrow> nat \<Rightarrow> nat \<Rightarrow> score" where
  "scores_second b i j = (if i = 2 \<and> j = 0 then Fin 10 else Fin 0)"

definition scores_second_pad :: "nat \<Rightarrow> nat \<Rightarrow> nat \<Rightarrow> score" where
  "scores_second_pad b i j =
     (if i = 2 \<and> j = 0 then Fin 10 else if i = 3 \<or> j = 3 then Fin 7 else Fin 0)"

definition huge_score :: rat where
  "huge_score = 10 ^ 308"

definition scores_huge :: "nat \<Rightarrow> nat \<Rightarrow> nat \<Rightarrow> score" where
  "scores_huge b i j = Fin huge_score"

subsection \<open>Notions for the termination of the loop\<close>

text \<open>
  The loop of \<^verbatim>\<open>kmeans\<close> works on the distinct lengths \<open>d\<close> with their counts \<open>f\<close>, the
  centroids and one label per distinct length. \<open>cost d f cs y\<close> is the sum of the squared
  distances of the lengths to the centroids of their labels, weighted by the counts;
  \<open>means\<close> are the centroids that the update computes from the labels, \<open>nearest\<close> the
  labels that the assignment computes from the centroids, and \<open>wcss\<close> the cost of labels
  with their own means. \<open>labelings k m\<close> are the lists of \<open>m\<close> labels below \<open>k\<close>, and
  \<open>rank_of\<close> counts the labelings of smaller cost: it decreases in every round that does
  not end the loop. \<open>big_of\<close> and \<open>far_of\<close> name the cluster and the value that the repair
  step picks, and \<open>dists_of\<close> the distances that the assignment returns.
\<close>

definition cost :: "rat list \<Rightarrow> nat list \<Rightarrow> rat list \<Rightarrow> nat list \<Rightarrow> rat" where
  "cost d f cs y = (\<Sum>j<length d. of_nat (f ! j) * (d ! j - cs ! (y ! j)) ^ 2)"

definition cl_weight :: "nat list \<Rightarrow> nat list \<Rightarrow> nat \<Rightarrow> nat" where
  "cl_weight f y a = (\<Sum>j<length y. if y ! j = a then f ! j else 0)"

definition cl_total :: "rat list \<Rightarrow> nat list \<Rightarrow> nat list \<Rightarrow> nat \<Rightarrow> rat" where
  "cl_total d f y a = (\<Sum>j<length y. if y ! j = a then d ! j * of_nat (f ! j) else 0)"

definition means :: "nat \<Rightarrow> rat list \<Rightarrow> nat list \<Rightarrow> nat list \<Rightarrow> rat list" where
  "means k d f y = map (\<lambda>a. cl_total d f y a / of_nat (cl_weight f y a)) [0..<k]"

definition nearest :: "rat list \<Rightarrow> rat list \<Rightarrow> nat list" where
  "nearest d cs = map (\<lambda>v. argbest min_better (map (f_absdiff v) (map Val cs))) d"

definition wcss :: "nat \<Rightarrow> rat list \<Rightarrow> nat list \<Rightarrow> nat list \<Rightarrow> rat" where
  "wcss k d f y = cost d f (means k d f y) y"

definition labelings :: "nat \<Rightarrow> nat \<Rightarrow> nat list set" where
  "labelings k m = {y. set y \<subseteq> {..<k} \<and> length y = m}"

definition rank_of :: "nat \<Rightarrow> rat list \<Rightarrow> nat list \<Rightarrow> nat list \<Rightarrow> nat" where
  "rank_of k d f y = card {z \<in> labelings k (length d). wcss k d f z < wcss k d f y}"

definition big_of :: "nat \<Rightarrow> nat list \<Rightarrow> nat" where
  "big_of k y = argbest (\<lambda>b a. a < b) (map (count_list y) [0..<k])"

definition far_of :: "nat \<Rightarrow> f32 list \<Rightarrow> nat list \<Rightarrow> nat" where
  "far_of k dists y =
     (let biggest = filter (\<lambda>j. y ! j = big_of k y) [0..<length y]
      in biggest ! argbest max_better (map (\<lambda>j. dists ! j) biggest))"

definition dists_of :: "rat list \<Rightarrow> rat list \<Rightarrow> nat list \<Rightarrow> f32 list" where
  "dists_of d cs y = map (\<lambda>j. Val \<bar>d ! j - cs ! (y ! j)\<bar>) [0..<length d]"

section \<open>Properties of the validator\<close>

lemma sort_snoc_filter:
  "sort (filter P [j..<k] @ [k]) = filter P [j..<k] @ [k]"
  by (rule sorted_sort_id) (auto simp: sorted_append sorted_wrt_filter)

lemma part_nodes_step:
  assumes "k < length hs" "1 \<le> k" "py_index (length hs) (hs ! k) = Some p"
  shows "(part_nodes hs k)[p := add (part_nodes hs k ! p) (part_nodes hs k ! k)] = part_nodes hs (Suc k)"
proof -
  have p: "p < length hs" using assms(3) by (auto simp: py_index_def split: if_splits)
  show ?thesis
  proof (rule nth_equalityI)
    show "length ((part_nodes hs k)[p := add (part_nodes hs k ! p) (part_nodes hs k ! k)]) = length (part_nodes hs (Suc k))"
      by (simp add: part_nodes_def)
  next
    fix i assume "i < length ((part_nodes hs k)[p := add (part_nodes hs k ! p) (part_nodes hs k ! k)])"
    then have i: "i < length hs" by (simp add: part_nodes_def)
    show "(part_nodes hs k)[p := add (part_nodes hs k ! p) (part_nodes hs k ! k)] ! i = part_nodes hs (Suc k) ! i"
    proof (cases "i = p")
      case True
      then show ?thesis using p assms
        by (simp add: part_nodes_def add_def is_dep_def sort_snoc_filter)
    next
      case False
      then show ?thesis using i p assms
        by (auto simp add: part_nodes_def is_dep_def)
    qed
  qed
qed

lemma build_loop_part:
  assumes "valid_heads hs" "1 \<le> k" "k \<le> length hs"
  shows "build_loop [k..<length hs] (part_nodes hs k) = Inr (part_nodes hs (length hs))"
  using assms
proof (induction "length hs - k" arbitrary: k)
  case 0
  then show ?case by simp
next
  case (Suc d)
  then have k: "k < length hs" by simp
  then obtain p where p: "py_index (length hs) (hs ! k) = Some p"
    using Suc.prems by (fastforce simp: valid_heads_def)
  have par: "parent (part_nodes hs k ! k) = Some (hs ! k)" using k by (simp add: part_nodes_def)
  have len: "length (part_nodes hs k) = length hs" by (simp add: part_nodes_def)
  have "build_loop [k..<length hs] (part_nodes hs k) = build_loop [Suc k..<length hs] (part_nodes hs (Suc k))"
    using k p par len part_nodes_step[OF k Suc.prems(2) p] by (simp add: upt_conv_Cons)
  also have "\<dots> = Inr (part_nodes hs (length hs))"
    using Suc.hyps(1)[of "Suc k"] Suc.hyps(2) Suc.prems k by simp
  finally show ?case .
qed

lemma wf_nodes_id: "wf_nodes ns \<Longrightarrow> i < length ns \<Longrightarrow> node_id (ns ! i) = i"
  unfolding wf_nodes_def by blast

lemma wf_nodes_lefts: "wf_nodes ns \<Longrightarrow> i < length ns \<Longrightarrow> c \<in> set (lefts (ns ! i)) \<Longrightarrow> c < length ns"
  unfolding wf_nodes_def by blast

lemma wf_nodes_rights: "wf_nodes ns \<Longrightarrow> i < length ns \<Longrightarrow> c \<in> set (rights (ns ! i)) \<Longrightarrow> c < length ns"
  unfolding wf_nodes_def by blast

lemma seen_of_update: "i < length vis \<Longrightarrow> seen_of (vis[i := True]) = insert i (seen_of vis)"
  by (auto simp: seen_of_def nth_list_update)

lemma refines_SomeD:
  "refines r n s \<Longrightarrow> (r = Some (Inl RecursionError) \<and> s = None) \<or> (\<exists>xs vis'. r = Some (Inr (xs, vis')) \<and> length vis' = n \<and> s = Some (xs, seen_of vis'))"
  by (auto simp: refines_def split: option.splits sum.splits)

lemma traversal_refines:
  "wf_nodes ns \<Longrightarrow> length vis = length ns \<Longrightarrow> node_id node < length ns \<Longrightarrow> node = ns ! node_id node \<Longrightarrow>
     refines (inorder_traversal fuel ns vis node) (length ns)
       (spec_inorder fuel (\<lambda>i. lefts (ns ! i)) (\<lambda>i. rights (ns ! i)) (seen_of vis) (node_id node))"
  "wf_nodes ns \<Longrightarrow> length vis = length ns \<Longrightarrow> \<forall>c \<in> set cs. c < length ns \<Longrightarrow>
     refines (traverse_list fuel ns vis cs) (length ns)
       (spec_inorder_list fuel (\<lambda>i. lefts (ns ! i)) (\<lambda>i. rights (ns ! i)) (seen_of vis) cs)"
proof (induction fuel ns vis node and fuel ns vis cs rule: inorder_traversal_traverse_list.induct)
  case (1 ns vis node)
  then show ?case by (simp add: refines_def)
next
  case (2 fuel ns vis node)
  let ?i = "node_id node"
  let ?lf = "\<lambda>i. lefts (ns ! i)"
  let ?rt = "\<lambda>i. rights (ns ! i)"
  have wf: "wf_nodes ns" and lv: "length vis = length ns" and i: "?i < length ns"
    using "2.prems"(1,2,3) by blast+
  have nd: "ns ! ?i = node" using "2.prems"(4) by (rule sym)
  have lf: "?lf ?i = lefts node" and rt: "?rt ?i = rights node"
    by (simp_all only: nd)
  have len: "\<not> length vis \<le> ?i" using lv i by simp
  show ?case
  proof (cases "vis ! ?i")
    case True
    have "?i \<in> seen_of vis" using True lv i by (simp add: seen_of_def)
    then show ?thesis using True len lv by (simp add: refines_def)
  next
    case False
    have notin: "?i \<notin> seen_of vis" using False by (simp add: seen_of_def)
    have chl: "\<forall>c \<in> set (lefts node). c < length ns"
      using wf_nodes_lefts[OF wf i] nd by simp
    have chr: "\<forall>c \<in> set (rights node). c < length ns"
      using wf_nodes_rights[OF wf i] nd by simp
    have su: "seen_of (vis[?i := True]) = insert ?i (seen_of vis)"
      using seen_of_update[of ?i vis] len by simp
    have lv1: "length (vis[?i := True]) = length ns" using lv by simp
    have r1: "refines (traverse_list fuel ns (vis[?i := True]) (lefts node)) (length ns)
       (spec_inorder_list fuel ?lf ?rt (insert ?i (seen_of vis)) (lefts node))"
      using "2.IH"(1)[OF len False wf lv1 chl] su by simp
    have unf1: "inorder_traversal (Suc fuel) ns vis node =
        (case traverse_list fuel ns (vis[?i := True]) (lefts node) of
           None \<Rightarrow> None
         | Some (Inl e) \<Rightarrow> Some (Inl e)
         | Some (Inr (lf_list, vis1)) \<Rightarrow>
             (case traverse_list fuel ns vis1 (rights node) of
                None \<Rightarrow> None
              | Some (Inl e) \<Rightarrow> Some (Inl e)
              | Some (Inr (rf_list, vis2)) \<Rightarrow>
                  Some (Inr (lf_list @ [?i] @ rf_list, vis2))))"
      using len False by simp
    have unf2: "spec_inorder (Suc fuel) ?lf ?rt (seen_of vis) ?i =
        (case spec_inorder_list fuel ?lf ?rt (insert ?i (seen_of vis)) (lefts node) of
           None \<Rightarrow> None
         | Some (ls, seen1) \<Rightarrow>
             (case spec_inorder_list fuel ?lf ?rt seen1 (rights node) of
                None \<Rightarrow> None
              | Some (rs, seen2) \<Rightarrow> Some (ls @ [?i] @ rs, seen2)))"
      using notin by (simp add: nd cong: option.case_cong)
    from refines_SomeD[OF r1] show ?thesis
    proof
      assume "traverse_list fuel ns (vis[?i := True]) (lefts node) = Some (Inl RecursionError) \<and>
        spec_inorder_list fuel ?lf ?rt (insert ?i (seen_of vis)) (lefts node) = None"
      then show ?thesis unfolding unf1 unf2 by (simp add: refines_def)
    next
      assume "\<exists>xs vis'. traverse_list fuel ns (vis[?i := True]) (lefts node) = Some (Inr (xs, vis')) \<and>
        length vis' = length ns \<and>
        spec_inorder_list fuel ?lf ?rt (insert ?i (seen_of vis)) (lefts node) = Some (xs, seen_of vis')"
      then obtain xs vis1 where a: "traverse_list fuel ns (vis[?i := True]) (lefts node) = Some (Inr (xs, vis1))"
        "length vis1 = length ns"
        "spec_inorder_list fuel ?lf ?rt (insert ?i (seen_of vis)) (lefts node) = Some (xs, seen_of vis1)"
        by blast
      have r2: "refines (traverse_list fuel ns vis1 (rights node)) (length ns)
         (spec_inorder_list fuel ?lf ?rt (seen_of vis1) (rights node))"
        using "2.IH"(2)[OF len False a(1) refl refl wf a(2) chr] .
      from refines_SomeD[OF r2] show ?thesis
        unfolding unf1 unf2 using a by (auto simp: refines_def)
    qed
  qed
next
  case (3 fuel ns vis)
  then show ?case by (simp add: refines_def)
next
  case (4 fuel ns vis c cs)
  have c: "\<not> length ns \<le> c" using "4.prems" by simp
  have wfc: "node_id (ns ! c) = c" using "4.prems"(1) c wf_nodes_id[of ns c] by simp
  have r1: "refines (inorder_traversal fuel ns vis (ns ! c)) (length ns)
       (spec_inorder fuel (\<lambda>i. lefts (ns ! i)) (\<lambda>i. rights (ns ! i)) (seen_of vis) c)"
    using "4.IH"(1)[OF c] "4.prems"(1,2) c wfc by simp
  from refines_SomeD[OF r1] show ?case
  proof
    assume "inorder_traversal fuel ns vis (ns ! c) = Some (Inl RecursionError) \<and>
      spec_inorder fuel (\<lambda>i. lefts (ns ! i)) (\<lambda>i. rights (ns ! i)) (seen_of vis) c = None"
    then show ?thesis using c by (simp add: refines_def)
  next
    assume "\<exists>xs vis'. inorder_traversal fuel ns vis (ns ! c) = Some (Inr (xs, vis')) \<and>
      length vis' = length ns \<and>
      spec_inorder fuel (\<lambda>i. lefts (ns ! i)) (\<lambda>i. rights (ns ! i)) (seen_of vis) c = Some (xs, seen_of vis')"
    then obtain xs vis1 where a: "inorder_traversal fuel ns vis (ns ! c) = Some (Inr (xs, vis1))"
      "length vis1 = length ns"
      "spec_inorder fuel (\<lambda>i. lefts (ns ! i)) (\<lambda>i. rights (ns ! i)) (seen_of vis) c = Some (xs, seen_of vis1)"
      by blast
    have r2: "refines (traverse_list fuel ns vis1 cs) (length ns)
         (spec_inorder_list fuel (\<lambda>i. lefts (ns ! i)) (\<lambda>i. rights (ns ! i)) (seen_of vis1) cs)"
      using "4.IH"(2)[OF c a(1) refl refl] "4.prems" a(2) by simp
    from refines_SomeD[OF r2] show ?thesis
      using c a by (auto simp: refines_def)
  qed
qed

lemma children_belowD:
  "children_below n lf rt \<Longrightarrow> i < n \<Longrightarrow> \<forall>c \<in> set (lf i). c < n"
  "children_below n lf rt \<Longrightarrow> i < n \<Longrightarrow> \<forall>c \<in> set (rt i). c < n"
  unfolding children_below_def by blast+

lemma card_unseen_insert:
  assumes "i < (n::nat)" "i \<notin> seen" "card ({..<n} - seen) < Suc fuel"
  shows "card ({..<n} - insert i seen) < fuel"
proof -
  have fin: "finite ({..<n} - seen)" by simp
  have "i \<in> {..<n} - seen" using assms by simp
  then have "card ({..<n} - seen - {i}) = card ({..<n} - seen) - 1" "card ({..<n} - seen) > 0"
    using fin by (auto simp: card_gt_0_iff)
  moreover have "{..<n} - insert i seen = {..<n} - seen - {i}" by auto
  ultimately show ?thesis using assms(3) by simp
qed

lemma card_unseen_mono:
  "seen \<subseteq> seen' \<Longrightarrow> card ({..<n} - seen') \<le> card ({..<(n::nat)} - seen)"
  by (rule card_mono) (auto intro: finite_subset[of _ "{..<n}"])

lemma spec_inorder_total:
  "children_below n lf rt \<Longrightarrow> i < n \<Longrightarrow> card ({..<n} - seen) < fuel \<Longrightarrow>
     \<exists>xs seen'. spec_inorder fuel lf rt seen i = Some (xs, seen') \<and> seen \<subseteq> seen'"
  "children_below n lf rt \<Longrightarrow> \<forall>c \<in> set cs. c < n \<Longrightarrow> card ({..<n} - seen) < fuel \<Longrightarrow>
     \<exists>ys seen'. spec_inorder_list fuel lf rt seen cs = Some (ys, seen') \<and> seen \<subseteq> seen'"
proof (induction fuel lf rt seen i and fuel lf rt seen cs rule: spec_inorder_spec_inorder_list.induct)
  case (1 lf rt seen i)
  then show ?case by simp
next
  case (2 fuel lf rt seen i)
  note cb = "2.prems"(1) and i = "2.prems"(2) and fu = "2.prems"(3)
  show ?case
  proof (cases "i \<in> seen")
    case True
    then show ?thesis by simp
  next
    case False
    have c1: "card ({..<n} - insert i seen) < fuel" by (rule card_unseen_insert[OF i False fu])
    obtain ls seen1 where a: "spec_inorder_list fuel lf rt (insert i seen) (lf i) = Some (ls, seen1)"
      "insert i seen \<subseteq> seen1"
      using "2.IH"(1)[OF False cb children_belowD(1)[OF cb i] c1] by blast
    have c2: "card ({..<n} - seen1) < fuel"
      using card_unseen_mono[OF a(2), of n] c1 by simp
    obtain rs seen2 where b: "spec_inorder_list fuel lf rt seen1 (rt i) = Some (rs, seen2)"
      "seen1 \<subseteq> seen2"
      using "2.IH"(2)[OF False a(1) refl cb children_belowD(2)[OF cb i] c2] by blast
    show ?thesis using False a b by auto
  qed
next
  case (3 fuel lf rt seen)
  then show ?case by simp
next
  case (4 fuel lf rt seen c cs)
  note cb = "4.prems"(1) and fu = "4.prems"(3)
  have c: "c < n" and cs: "\<forall>c \<in> set cs. c < n" using "4.prems"(2) by simp_all
  obtain xs seen1 where a: "spec_inorder fuel lf rt seen c = Some (xs, seen1)" "seen \<subseteq> seen1"
    using "4.IH"(1)[OF cb c fu] by blast
  have c2: "card ({..<n} - seen1) < fuel"
    using card_unseen_mono[OF a(2), of n] fu by simp
  obtain ys seen2 where b: "spec_inorder_list fuel lf rt seen1 cs = Some (ys, seen2)" "seen1 \<subseteq> seen2"
    using "4.IH"(2)[OF a(1) refl cb cs c2] by blast
  show ?case using a b by auto
qed

lemma parent_closedD:
  "parent_closed lf rt S \<Longrightarrow> p \<notin> S \<Longrightarrow> \<forall>c \<in> set (lf p). c \<notin> S"
  "parent_closed lf rt S \<Longrightarrow> p \<notin> S \<Longrightarrow> \<forall>c \<in> set (rt p). c \<notin> S"
  unfolding parent_closed_def by blast+

lemma spec_inorder_avoids:
  "parent_closed lf rt S \<Longrightarrow> i \<notin> S \<Longrightarrow> spec_inorder fuel lf rt seen i = Some (xs, seen') \<Longrightarrow>
     set xs \<inter> S = {}"
  "parent_closed lf rt S \<Longrightarrow> \<forall>c \<in> set cs. c \<notin> S \<Longrightarrow>
     spec_inorder_list fuel lf rt seen cs = Some (ys, seen') \<Longrightarrow> set ys \<inter> S = {}"
proof (induction fuel lf rt seen i and fuel lf rt seen cs arbitrary: xs seen' and ys seen'
    rule: spec_inorder_spec_inorder_list.induct)
  case (1 lf rt seen i)
  then show ?case by simp
next
  case (2 fuel lf rt seen i)
  note pc = "2.prems"(1) and i = "2.prems"(2)
  show ?case
  proof (cases "i \<in> seen")
    case True
    then show ?thesis using "2.prems"(3) by simp
  next
    case False
    obtain ls seen1 rs where a: "spec_inorder_list fuel lf rt (insert i seen) (lf i) = Some (ls, seen1)"
      and b: "spec_inorder_list fuel lf rt seen1 (rt i) = Some (rs, seen')"
      and xs: "xs = ls @ [i] @ rs"
      using "2.prems"(3) False by (auto split: option.splits)
    have "set ls \<inter> S = {}" using "2.IH"(1)[OF False pc parent_closedD(1)[OF pc i] a] .
    moreover have "set rs \<inter> S = {}" using "2.IH"(2)[OF False a refl pc parent_closedD(2)[OF pc i] b] .
    ultimately show ?thesis using xs i by auto
  qed
next
  case (3 fuel lf rt seen)
  then show ?case by simp
next
  case (4 fuel lf rt seen c cs)
  note pc = "4.prems"(1)
  have c: "c \<notin> S" and cs: "\<forall>c \<in> set cs. c \<notin> S" using "4.prems"(2) by simp_all
  obtain xs seen1 zs where a: "spec_inorder fuel lf rt seen c = Some (xs, seen1)"
    and b: "spec_inorder_list fuel lf rt seen1 cs = Some (zs, seen')"
    and ys: "ys = xs @ zs"
    using "4.prems"(3) by (auto split: option.splits)
  have "set xs \<inter> S = {}" using "4.IH"(1)[OF pc c a] .
  moreover have "set zs \<inter> S = {}" using "4.IH"(2)[OF a refl pc cs b] .
  ultimately show ?case using ys by auto
qed

lemma spec_inorder_cong:
  "\<forall>j < n. lf j = lf' j \<and> rt j = rt' j \<Longrightarrow> children_below n lf rt \<Longrightarrow> i < n \<Longrightarrow>
     spec_inorder fuel lf rt seen i = spec_inorder fuel lf' rt' seen i"
  "\<forall>j < n. lf j = lf' j \<and> rt j = rt' j \<Longrightarrow> children_below n lf rt \<Longrightarrow> \<forall>c \<in> set cs. c < n \<Longrightarrow>
     spec_inorder_list fuel lf rt seen cs = spec_inorder_list fuel lf' rt' seen cs"
proof (induction fuel lf rt seen i and fuel lf rt seen cs rule: spec_inorder_spec_inorder_list.induct)
  case (1 lf rt seen i)
  then show ?case by simp
next
  case (2 fuel lf rt seen i)
  note eq = "2.prems"(1) and cb = "2.prems"(2) and i = "2.prems"(3)
  have l: "lf' i = lf i" and r: "rt' i = rt i" using eq i by simp_all
  show ?case
  proof (cases "i \<in> seen")
    case True
    then show ?thesis by simp
  next
    case False
    have a: "spec_inorder_list fuel lf rt (insert i seen) (lf i) = spec_inorder_list fuel lf' rt' (insert i seen) (lf i)"
      using "2.IH"(1)[OF False eq cb children_belowD(1)[OF cb i]] .
    have b: "\<And>ls seen1. spec_inorder_list fuel lf rt (insert i seen) (lf i) = Some (ls, seen1) \<Longrightarrow>
       spec_inorder_list fuel lf rt seen1 (rt i) = spec_inorder_list fuel lf' rt' seen1 (rt i)"
      using "2.IH"(2)[OF False _ refl eq cb children_belowD(2)[OF cb i]] by blast
    show ?thesis
    proof (cases "spec_inorder_list fuel lf rt (insert i seen) (lf i)")
      case None
      then have "spec_inorder_list fuel lf' rt' (insert i seen) (lf' i) = None"
        using a l by simp
      then show ?thesis using None by (simp add: False)
    next
      case (Some p)
      obtain ls seen1 where p: "p = (ls, seen1)" by (cases p)
      have e1: "spec_inorder_list fuel lf rt (insert i seen) (lf i) = Some (ls, seen1)"
        using Some p by simp
      have e2: "spec_inorder_list fuel lf' rt' (insert i seen) (lf' i) = Some (ls, seen1)"
        using e1 a l by simp
      have e3: "spec_inorder_list fuel lf rt seen1 (rt i) = spec_inorder_list fuel lf' rt' seen1 (rt' i)"
        using b[OF e1] r by simp
      show ?thesis by (simp add: False e1 e2 e3)
    qed
  qed
next
  case (3 fuel lf rt seen)
  then show ?case by simp
next
  case (4 fuel lf rt seen c cs)
  note eq = "4.prems"(1) and cb = "4.prems"(2)
  have c: "c < n" and cs: "\<forall>c \<in> set cs. c < n" using "4.prems"(3) by simp_all
  have a: "spec_inorder fuel lf rt seen c = spec_inorder fuel lf' rt' seen c"
    using "4.IH"(1)[OF eq cb c] .
  have b: "\<And>xs seen1. spec_inorder fuel lf rt seen c = Some (xs, seen1) \<Longrightarrow>
       spec_inorder_list fuel lf rt seen1 cs = spec_inorder_list fuel lf' rt' seen1 cs"
    using "4.IH"(2)[OF _ refl eq cb cs] by blast
  show ?case
  proof (cases "spec_inorder fuel lf rt seen c")
    case None
    then have "spec_inorder fuel lf' rt' seen c = None" using a by simp
    then show ?thesis using None by simp
  next
    case (Some p)
    obtain xs seen1 where p: "p = (xs, seen1)" by (cases p)
    have e1: "spec_inorder fuel lf rt seen c = Some (xs, seen1)" using Some p by simp
    have e2: "spec_inorder fuel lf' rt' seen c = Some (xs, seen1)" using e1 a by simp
    show ?thesis by (simp add: e1 e2 b[OF e1])
  qed
qed

lemma py_index_less: "py_index n h = Some p \<Longrightarrow> p < n"
  by (auto simp: py_index_def split: if_splits)

lemma length_part_nodes: "length (part_nodes hs k) = length hs"
  by (simp add: part_nodes_def)

lemma nth_part_nodes:
  "p < length hs \<Longrightarrow> part_nodes hs k ! p =
     \<lparr>lefts = filter (\<lambda>c. is_dep hs p c \<and> c \<le> p) [1..<k],
      rights = filter (\<lambda>c. is_dep hs p c \<and> p < c) [1..<k],
      node_id = p, parent = Some (hs ! p)\<rparr>"
  by (simp add: part_nodes_def)

lemma wf_part_nodes: "wf_nodes (part_nodes hs (length hs))"
  unfolding wf_nodes_def by (auto simp: length_part_nodes nth_part_nodes)

lemma initial_nodes:
  "map (\<lambda>(index, p_index). NODE_init index (Some p_index)) (enumerate 0 sent) = part_nodes sent 1"
  by (rule nth_equalityI) (simp_all add: part_nodes_def nth_enumerate_eq NODE_init_def)

lemma build_tree_valid:
  "valid_heads hs \<Longrightarrow> build_tree hs = Inr (part_nodes hs (length hs))"
  unfolding build_tree_def initial_nodes
  using build_loop_part[of hs 1] by (simp add: valid_heads_def Suc_leI)

lemma is_dep_root_update: "1 \<le> c \<Longrightarrow> is_dep (hs[0 := v]) p c = is_dep hs p c"
  by (simp add: is_dep_def)

lemma spec_lefts_root_update: "spec_lefts (hs[0 := v]) p = spec_lefts hs p"
  unfolding spec_lefts_def by (rule filter_cong) (auto simp: is_dep_def)

lemma spec_rights_root_update: "spec_rights (hs[0 := v]) p = spec_rights hs p"
  unfolding spec_rights_def by (rule filter_cong) (auto simp: is_dep_def)

lemma valid_heads_root_update: "valid_heads hs \<Longrightarrow> valid_heads (hs[0 := v])"
  by (auto simp: valid_heads_def)

lemma part_nodes_spec:
  "p < length hs \<Longrightarrow> lefts (part_nodes hs (length hs) ! p) = spec_lefts hs p"
  "p < length hs \<Longrightarrow> rights (part_nodes hs (length hs) ! p) = spec_rights hs p"
  by (simp_all add: nth_part_nodes spec_lefts_def spec_rights_def)

lemma part_nodes_spec_root:
  "p < length hs \<Longrightarrow> lefts (part_nodes (hs[0 := v]) (length hs) ! p) = spec_lefts hs p"
  "p < length hs \<Longrightarrow> rights (part_nodes (hs[0 := v]) (length hs) ! p) = spec_rights hs p"
  using part_nodes_spec[of p "hs[0 := v]"]
  by (simp_all add: spec_lefts_root_update spec_rights_root_update)

lemma children_below_spec: "children_below (length hs) (spec_lefts hs) (spec_rights hs)"
  by (auto simp: children_below_def spec_lefts_def spec_rights_def)

lemma seen_of_replicate: "seen_of (replicate n False) = {}"
  by (auto simp: seen_of_def)

lemma DepTree_init_valid:
  assumes "valid_heads hs"
  shows "DepTree_init hs =
     Inr \<lparr>sentence = hs[0 := -1], nodes = part_nodes (hs[0 := -1]) (length hs),
          root = part_nodes (hs[0 := -1]) (length hs) ! 0,
          visit = replicate (length hs) False\<rparr>"
proof -
  have ne: "hs \<noteq> []" using assms by (simp add: valid_heads_def)
  have "build_tree (hs[0 := -1]) = Inr (part_nodes (hs[0 := -1]) (length hs))"
    using build_tree_valid[OF valid_heads_root_update[OF assms, of "-1"]] by simp
  then show ?thesis using ne by (simp add: DepTree_init_def Let_def)
qed

lemma istree_spec:
  assumes v: "valid_heads hs"
  shows "istree fuel hs =
     (if length (spec_lefts hs 0 @ spec_rights hs 0) \<noteq> 1 then Some (Inr False)
      else (case spec_inorder fuel (spec_lefts hs) (spec_rights hs) {} 0 of
              None \<Rightarrow> Some (Inl RecursionError)
            | Some (xs, seen) \<Rightarrow> Some (Inr (xs = [0..<length hs]))))"
proof -
  let ?hs = "hs[0 := -1]"
  let ?ns = "part_nodes ?hs (length hs)"
  let ?lf = "\<lambda>i. lefts (?ns ! i)" and ?rt = "\<lambda>i. rights (?ns ! i)"
  have n0: "0 < length hs" using v by (simp add: valid_heads_def)
  have len: "length ?ns = length hs" by (simp add: length_part_nodes)
  have wf: "wf_nodes ?ns" using wf_part_nodes[of ?hs] by simp
  have id0: "node_id (?ns ! 0) = 0" using n0 by (simp add: nth_part_nodes)
  have l0: "lefts (?ns ! 0) = spec_lefts hs 0" and r0: "rights (?ns ! 0) = spec_rights hs 0"
    using n0 by (simp_all add: part_nodes_spec_root)
  have agree: "\<forall>j < length hs. ?lf j = spec_lefts hs j \<and> ?rt j = spec_rights hs j"
    by (simp add: part_nodes_spec_root)
  have cb: "children_below (length hs) ?lf ?rt"
    unfolding children_below_def
  proof (intro allI impI conjI ballI)
    fix i c assume i: "i < length hs"
    { assume "c \<in> set (?lf i)"
      then show "c < length hs" using wf_nodes_lefts[OF wf, of i c] i len by simp }
    { assume "c \<in> set (?rt i)"
      then show "c < length hs" using wf_nodes_rights[OF wf, of i c] i len by simp }
  qed
  have cong: "spec_inorder fuel ?lf ?rt {} 0 = spec_inorder fuel (spec_lefts hs) (spec_rights hs) {} 0"
    by (rule spec_inorder_cong(1)[OF agree cb n0])
  have "refines (inorder_traversal fuel ?ns (replicate (length hs) False) (?ns ! 0)) (length ?ns)
     (spec_inorder fuel ?lf ?rt (seen_of (replicate (length hs) False)) (node_id (?ns ! 0)))"
    by (rule traversal_refines(1)[OF wf]) (use n0 in \<open>simp_all add: len id0\<close>)
  then have ref: "refines (inorder_traversal fuel ?ns (replicate (length hs) False) (?ns ! 0)) (length hs)
     (spec_inorder fuel (spec_lefts hs) (spec_rights hs) {} 0)"
    by (simp only: len id0 seen_of_replicate cong)
  have jl: "istree fuel hs = judge_legal fuel
     \<lparr>sentence = ?hs, nodes = ?ns, root = ?ns ! 0, visit = replicate (length hs) False\<rparr>"
    by (simp add: istree_def DepTree_init_valid[OF v])
  from refines_SomeD[OF ref] show ?thesis
  proof
    assume "inorder_traversal fuel ?ns (replicate (length hs) False) (?ns ! 0) = Some (Inl RecursionError) \<and>
      spec_inorder fuel (spec_lefts hs) (spec_rights hs) {} 0 = None"
    then show ?thesis by (simp add: jl judge_legal_def l0 r0 len)
  next
    assume "\<exists>xs vis'. inorder_traversal fuel ?ns (replicate (length hs) False) (?ns ! 0) = Some (Inr (xs, vis')) \<and>
      length vis' = length hs \<and> spec_inorder fuel (spec_lefts hs) (spec_rights hs) {} 0 = Some (xs, seen_of vis')"
    then obtain xs vis' where
      "inorder_traversal fuel ?ns (replicate (length hs) False) (?ns ! 0) = Some (Inr (xs, vis'))"
      "spec_inorder fuel (spec_lefts hs) (spec_rights hs) {} 0 = Some (xs, seen_of vis')"
      by blast
    then show ?thesis by (auto simp add: jl judge_legal_def l0 r0 len)
  qed
qed

lemma build_loop_invalid:
  assumes "1 \<le> k" "k \<le> j" "j < length hs" "py_index (length hs) (hs ! j) = None"
  shows "build_loop [k..<length hs] (part_nodes hs k) = Inl IndexError"
  using assms
proof (induction "j - k" arbitrary: k)
  case 0
  then have "k = j" by simp
  then show ?case using 0 by (simp add: upt_conv_Cons nth_part_nodes length_part_nodes)
next
  case (Suc d)
  then have k: "k < length hs" "k < j" by simp_all
  have par: "parent (part_nodes hs k ! k) = Some (hs ! k)" using k by (simp add: nth_part_nodes)
  show ?case
  proof (cases "py_index (length hs) (hs ! k)")
    case None
    then show ?thesis using k par by (simp add: upt_conv_Cons length_part_nodes)
  next
    case (Some p)
    have "build_loop [k..<length hs] (part_nodes hs k) = build_loop [Suc k..<length hs] (part_nodes hs (Suc k))"
      using k Some par part_nodes_step[OF k(1) Suc.prems(1) Some] by (simp add: upt_conv_Cons length_part_nodes)
    also have "\<dots> = Inl IndexError"
      using Suc.hyps(1)[of "Suc k"] Suc.hyps(2) Suc.prems k by simp
    finally show ?thesis .
  qed
qed

lemma istree_invalid:
  assumes "1 \<le> j" "j < length hs" "py_index (length hs) (hs ! j) = None"
  shows "istree fuel hs = Some (Inl IndexError)"
proof -
  have ne: "hs \<noteq> []" using assms by auto
  have "build_loop [1..<length (hs[0 := -1])] (part_nodes (hs[0 := -1]) 1) = Inl IndexError"
    by (rule build_loop_invalid[of 1 j]) (use assms in simp_all)
  then have "build_tree (hs[0 := -1]) = Inl IndexError"
    unfolding build_tree_def initial_nodes .
  then show ?thesis using ne by (simp add: istree_def DepTree_init_def)
qed

lemma spec_inorder_root_total:
  assumes "valid_heads hs" "length hs < fuel"
  shows "\<exists>xs seen. spec_inorder fuel (spec_lefts hs) (spec_rights hs) {} 0 = Some (xs, seen)"
proof -
  have n0: "0 < length hs" using assms(1) by (simp add: valid_heads_def)
  have "card ({..<length hs} - {}) < fuel" using assms(2) by simp
  from spec_inorder_total(1)[OF children_below_spec n0 this] show ?thesis by blast
qed

lemma istree_returns_bool:
  assumes "valid_heads hs" "length hs < fuel"
  shows "istree fuel hs =
     Some (Inr (length (spec_lefts hs 0 @ spec_rights hs 0) = 1 \<and>
                spec_traversal fuel hs = Some [0..<length hs]))"
proof -
  obtain xs seen where
    t: "spec_inorder fuel (spec_lefts hs) (spec_rights hs) {} 0 = Some (xs, seen)"
    using spec_inorder_root_total[OF assms] by blast
  show ?thesis unfolding istree_spec[OF assms(1)] spec_traversal_def t by auto
qed

lemma two_root_children:
  assumes "1 \<le> c1" "c1 < c2" "c2 < length hs" "hs ! c1 = 0" "hs ! c2 = 0"
  shows "length (spec_lefts hs 0 @ spec_rights hs 0) \<noteq> 1"
proof -
  have "0 < length hs" using assms(3) by auto
  then have d: "is_dep hs 0 c1" "is_dep hs 0 c2" using assms by (simp_all add: is_dep_def py_index_def)
  have "{c1, c2} \<subseteq> set (spec_rights hs 0)"
    using assms d by (auto simp: spec_rights_def)
  then have "card {c1, c2} \<le> card (set (spec_rights hs 0))" by (intro card_mono) auto
  also have "\<dots> \<le> length (spec_rights hs 0)" by (rule card_length)
  finally show ?thesis using assms(2) by simp
qed

lemma cycle_not_traversed:
  assumes v: "valid_heads hs" and fu: "length hs < fuel" and cy: "is_cycle hs cyc"
  shows "istree fuel hs = Some (Inr False)"
proof -
  let ?S = "set cyc"
  have memb: "\<And>c. c \<in> ?S \<Longrightarrow> 1 \<le> c \<and> c < length hs \<and> (\<exists>p \<in> ?S. is_dep hs p c)"
  proof -
    fix c assume "c \<in> ?S"
    then obtain j where j: "j < length cyc" "c = cyc ! j" by (auto simp: in_set_conv_nth)
    then have "0 < length cyc" by auto
    then have "(j + 1) mod length cyc < length cyc" by (rule mod_less_divisor)
    then have "cyc ! ((j + 1) mod length cyc) \<in> ?S" by (rule nth_mem)
    moreover have "1 \<le> cyc ! j \<and> cyc ! j < length hs \<and> is_dep hs (cyc ! ((j + 1) mod length cyc)) (cyc ! j)"
      using cy j(1) unfolding is_cycle_def by simp
    ultimately show "1 \<le> c \<and> c < length hs \<and> (\<exists>p \<in> ?S. is_dep hs p c)" using j(2) by blast
  qed
  have pc: "parent_closed (spec_lefts hs) (spec_rights hs) ?S"
    unfolding parent_closed_def
  proof (intro allI impI)
    fix p c assume c: "c \<in> set (spec_lefts hs p) \<union> set (spec_rights hs p)" and cS: "c \<in> ?S"
    from c have "is_dep hs p c" by (auto simp: spec_lefts_def spec_rights_def)
    moreover obtain q where "q \<in> ?S" "is_dep hs q c" using memb[OF cS] by blast
    ultimately show "p \<in> ?S" by (simp add: is_dep_def)
  qed
  have r0: "0 \<notin> ?S" using memb[of 0] by auto
  obtain xs seen where
    t: "spec_inorder fuel (spec_lefts hs) (spec_rights hs) {} 0 = Some (xs, seen)"
    using spec_inorder_root_total[OF v fu] by blast
  have av: "set xs \<inter> ?S = {}" by (rule spec_inorder_avoids(1)[OF pc r0 t])
  have "cyc ! 0 \<in> ?S" using cy by (simp add: is_cycle_def)
  then have "cyc ! 0 \<in> set [0..<length hs]" "cyc ! 0 \<notin> set xs" using memb[of "cyc ! 0"] av by auto
  then have "xs \<noteq> [0..<length hs]" by metis
  then show ?thesis unfolding istree_spec[OF v] t by simp
qed

lemma DepTree_init_st_value:
  assumes "r < length st"
  shows "fst (DepTree_init_st st r) = DepTree_init (st ! r)"
  using assms
  by (auto simp: DepTree_init_st_def deepcopy_def store_setitem_def DepTree_init_def Let_def
      nth_append split: sum.splits)

lemma DepTree_init_st_frame:
  assumes "r < length st"
  shows "take (length st) (snd (DepTree_init_st st r)) = st"
  using assms
  by (auto simp: DepTree_init_st_def deepcopy_def store_setitem_def Let_def split: sum.splits)

subsection \<open>The claims about the validator\<close>

lemma istree_st_split:
  "fst (istree_st fuel st r) =
     (case fst (DepTree_init_st st r) of Inl e \<Rightarrow> Some (Inl e) | Inr t \<Rightarrow> judge_legal fuel t)"
  "snd (istree_st fuel st r) = snd (DepTree_init_st st r)"
  by (auto simp: istree_st_def split: prod.splits sum.splits)



text \<open>
  Claim C6, amended. For a head array whose entries from position 1 on are valid indices
  and whose length is below the number of nested calls that the recursion limit allows,
  \<^verbatim>\<open>istree\<close> returns a boolean and raises nothing; when the array has a cycle the
  boolean is false; and a call on a node already visited returns the empty list and leaves
  the flags unchanged.
\<close>

theorem istree_cyclic_false:
  assumes "valid_heads hs" and "length hs < limit"
  shows "(\<exists>b. istree limit hs = Some (Inr b)) \<and>
         (is_cycle hs cyc \<longrightarrow> istree limit hs = Some (Inr False)) \<and>
         (node_id node < length vis \<and> vis ! node_id node
            \<longrightarrow> inorder_traversal (Suc k) ns vis node = Some (Inr ([], vis)))"
proof (intro conjI impI)
  show "\<exists>b. istree limit hs = Some (Inr b)"
    using istree_returns_bool[OF assms] by blast
  show "istree limit hs = Some (Inr False)" if "is_cycle hs cyc"
    by (rule cycle_not_traversed[OF assms that])
  show "inorder_traversal (Suc k) ns vis node = Some (Inr ([], vis))"
    if "node_id node < length vis \<and> vis ! node_id node"
    using that by simp
qed

text \<open>
  The theorem at \<open>[0, 0, 3, 2]\<close>: token 1 is the one dependent of the root, so the
  traversal decides; it returns \<open>[0, 1]\<close> and never reaches the tokens 2 and 3, which are
  each other's head. The last conjunct is a call on a visited node.
\<close>

theorem istree_cyclic_false_witness:
  "valid_heads [0, 0, 3, 2] \<and> is_cycle [0, 0, 3, 2] [2, 3] \<and>
   length (spec_lefts [0, 0, 3, 2] 0 @ spec_rights [0, 0, 3, 2] 0) = 1 \<and>
   spec_traversal 5 [0, 0, 3, 2] = Some [0, 1] \<and>
   istree 5 [0, 0, 3, 2] = Some (Inr False) \<and>
   inorder_traversal 1 [] [False, True] (NODE_init 1 (Some 0)) = Some (Inr ([], [False, True]))"
proof -
  have v: "valid_heads [0, 0, 3, 2]" by code_simp
  have l: "length [0, 0, 3, 2 :: int] < 5" by simp
  have c: "is_cycle [0, 0, 3, 2] [2, 3]" by code_simp
  have r: "length (spec_lefts [0, 0, 3, 2] 0 @ spec_rights [0, 0, 3, 2] 0) = 1" by code_simp
  have t: "spec_traversal 5 [0, 0, 3, 2] = Some [0, 1]" by code_simp
  have n: "node_id (NODE_init 1 (Some 0)) < length [False, True] \<and>
      [False, True] ! node_id (NODE_init 1 (Some 0))"
    by (simp add: NODE_init_def)
  have "inorder_traversal (Suc 0) [] [False, True] (NODE_init 1 (Some 0)) =
      Some (Inr ([], [False, True]))"
    using istree_cyclic_false[OF v l, of "[2, 3]" "NODE_init 1 (Some 0)" "[False, True]" 0 "[]"] n
    by blast
  then have g: "inorder_traversal 1 [] [False, True] (NODE_init 1 (Some 0)) =
      Some (Inr ([], [False, True]))"
    by simp
  show ?thesis using istree_cyclic_false[OF v l, of "[2, 3]"] v c r t g by blast
qed

text \<open>
  Claim C6 as stated fails: the recursion takes one frame of the interpreter for every
  level of the tree and has no guard of its own. In \<open>[0, 0, 1, 2, 5, 4]\<close> every entry is
  a valid index and the tokens 4 and 5 are each other's head; the chain under the root
  is three tokens deep, and with three nested calls left \<^verbatim>\<open>istree\<close> raises
  \<^verbatim>\<open>RecursionError\<close>.
\<close>

theorem istree_deep_cyclic_counterexample:
  "valid_heads [0, 0, 1, 2, 5, 4] \<and> is_cycle [0, 0, 1, 2, 5, 4] [4, 5] \<and>
   istree 3 [0, 0, 1, 2, 5, 4] = Some (Inl RecursionError)"
  by code_simp

text \<open>
  Claim C5, amended. A head \<open>h\<close> at a position \<open>i \<ge> 1\<close> with \<open>h \<ge> n\<close> or \<open>h < -n\<close>
  makes \<^verbatim>\<open>istree\<close> raise \<^verbatim>\<open>IndexError\<close>. Heads with \<open>-n \<le> h < 0\<close> are not
  rejected: Python reads them as \<open>n + h\<close>, and validation returns a boolean.
\<close>

theorem istree_out_of_range_raises:
  "((\<exists>j. 1 \<le> j \<and> j < length hs \<and>
         (hs ! j < - int (length hs) \<or> int (length hs) \<le> hs ! j))
      \<longrightarrow> istree fuel hs = Some (Inl IndexError)) \<and>
   (hs \<noteq> [] \<and> length hs < fuel \<and>
    (\<forall>j. 1 \<le> j \<and> j < length hs \<longrightarrow> - int (length hs) \<le> hs ! j \<and> hs ! j < int (length hs))
      \<longrightarrow> (\<exists>b. istree fuel hs = Some (Inr b)))"
proof (intro conjI impI)
  assume "\<exists>j. 1 \<le> j \<and> j < length hs \<and> (hs ! j < - int (length hs) \<or> int (length hs) \<le> hs ! j)"
  then obtain j where j: "1 \<le> j" "j < length hs"
    "hs ! j < - int (length hs) \<or> int (length hs) \<le> hs ! j" by blast
  have "py_index (length hs) (hs ! j) = None" using j(3) by (auto simp: py_index_def)
  then show "istree fuel hs = Some (Inl IndexError)" by (rule istree_invalid[OF j(1,2)])
next
  assume a: "hs \<noteq> [] \<and> length hs < fuel \<and>
    (\<forall>j. 1 \<le> j \<and> j < length hs \<longrightarrow> - int (length hs) \<le> hs ! j \<and> hs ! j < int (length hs))"
  have "valid_heads hs" unfolding valid_heads_def
  proof (intro conjI ballI)
    show "hs \<noteq> []" using a by blast
    fix c assume "c \<in> set [1..<length hs]"
    then have "- int (length hs) \<le> hs ! c \<and> hs ! c < int (length hs)" using a by simp
    then show "py_index (length hs) (hs ! c) \<noteq> None" by (auto simp: py_index_def)
  qed
  then show "\<exists>b. istree fuel hs = Some (Inr b)" using istree_returns_bool[of hs fuel] a by blast
qed

text \<open>
  The theorem at \<open>[0, 2]\<close>, \<open>[0, -3]\<close> and \<open>[0, -1]\<close>.
\<close>

theorem istree_out_of_range_raises_witness:
  "istree 3 [0, 2] = Some (Inl IndexError) \<and> istree 3 [0, -3] = Some (Inl IndexError) \<and>
   (\<exists>b. istree 3 [0, -1] = Some (Inr b))"
proof -
  have "\<exists>j. 1 \<le> j \<and> j < length [0, 2 :: int] \<and>
      ([0, 2 :: int] ! j < - int (length [0, 2 :: int]) \<or> int (length [0, 2 :: int]) \<le> [0, 2] ! j)"
    by (rule exI[of _ 1]) simp
  then have a: "istree 3 [0, 2] = Some (Inl IndexError)"
    using istree_out_of_range_raises[of "[0, 2]" 3] by blast
  have "\<exists>j. 1 \<le> j \<and> j < length [0, -3 :: int] \<and>
      ([0, -3 :: int] ! j < - int (length [0, -3 :: int]) \<or> int (length [0, -3 :: int]) \<le> [0, -3] ! j)"
    by (rule exI[of _ 1]) simp
  then have b: "istree 3 [0, -3] = Some (Inl IndexError)"
    using istree_out_of_range_raises[of "[0, -3]" 3] by blast
  have "[0, -1 :: int] \<noteq> [] \<and> length [0, -1 :: int] < 3 \<and>
    (\<forall>j. 1 \<le> j \<and> j < length [0, -1 :: int] \<longrightarrow>
       - int (length [0, -1 :: int]) \<le> [0, -1] ! j \<and> [0, -1] ! j < int (length [0, -1 :: int]))"
    by (auto simp: less_Suc_eq)
  then have c: "\<exists>b. istree 3 [0, -1] = Some (Inr b)"
    using istree_out_of_range_raises[of "[0, -1]" 3] by blast
  show ?thesis using a b c by blast
qed

text \<open>
  Claim C5 as stated fails: in \<open>[0, -2]\<close> the head of token 1 is negative and is not
  \<open>-1\<close>; \<^verbatim>\<open>istree\<close> reads it as position 0 and returns true.
\<close>

theorem istree_negative_head_counterexample:
  "[0, -2 :: int] ! 1 < 0 \<and> [0, -2 :: int] ! 1 \<noteq> -1 \<and> istree 3 [0, -2] = Some (Inr True)"
  by code_simp

text \<open>
  Claim C10. \<^verbatim>\<open>istree\<close> on the store returns what \<^verbatim>\<open>istree\<close> returns on the
  value of the caller's sequence, and leaves every object allocated before the call, the
  caller's sequence among them, as it was: the write to position 0 goes to the copy.
\<close>

theorem istree_keeps_caller_sequence:
  assumes "r < length st"
  shows "fst (istree_st fuel st r) = istree fuel (st ! r) \<and>
         take (length st) (snd (istree_st fuel st r)) = st \<and>
         snd (istree_st fuel st r) ! r = st ! r"
proof -
  have a: "fst (istree_st fuel st r) = istree fuel (st ! r)"
    unfolding istree_st_split DepTree_init_st_value[OF assms] istree_def ..
  have b: "take (length st) (snd (istree_st fuel st r)) = st"
    unfolding istree_st_split by (rule DepTree_init_st_frame[OF assms])
  have "take (length st) (snd (istree_st fuel st r)) ! r = snd (istree_st fuel st r) ! r"
    using assms by simp
  then have c: "snd (istree_st fuel st r) ! r = st ! r" unfolding b by simp
  show ?thesis using a b c by blast
qed

text \<open>
  The theorem at a store holding the single list \<open>[7, 2, 0]\<close>: the copy is allocated at
  reference 1 and receives the \<open>-1\<close>.
\<close>

theorem istree_keeps_caller_sequence_witness:
  "istree_st 4 [[7, 2, 0]] 0 = (Some (Inr True), [[7, 2, 0], [-1, 2, 0]])"
proof -
  have r: "0 < length [[7, 2, 0 :: int]]" by simp
  have e: "istree_st 4 [[7, 2, 0]] 0 = (Some (Inr True), [[7, 2, 0], [-1, 2, 0]])" by code_simp
  show ?thesis using istree_keeps_caller_sequence[OF r, of 4] e by simp
qed

section \<open>Properties of the bucketer\<close>

lemma argbest_less: "xs \<noteq> [] \<Longrightarrow> argbest better xs < length xs"
proof (induction xs)
  case Nil
  then show ?case by simp
next
  case (Cons a as)
  show ?case
  proof (cases "\<exists>b \<in> set as. better b a")
    case True
    then have "as \<noteq> []" by auto
    then show ?thesis using Cons.IH True by simp
  next
    case False
    then show ?thesis by simp
  qed
qed

lemma argbest_nat_max:
  "xs \<noteq> [] \<Longrightarrow> v \<in> set xs \<Longrightarrow> v \<le> xs ! argbest (\<lambda>b a. a < b) (xs :: nat list)"
proof (induction xs arbitrary: v)
  case Nil
  then show ?case by simp
next
  case (Cons a as)
  show ?case
  proof (cases "\<exists>b \<in> set as. a < b")
    case True
    then obtain b where b: "b \<in> set as" "a < b" by blast
    then have ne: "as \<noteq> []" by auto
    have "b \<le> as ! argbest (\<lambda>b a. a < b) as" by (rule Cons.IH[OF ne b(1)])
    moreover have "v \<in> set as \<Longrightarrow> v \<le> as ! argbest (\<lambda>b a. a < b) as" by (rule Cons.IH[OF ne])
    ultimately show ?thesis using True b Cons.prems(2) by auto
  next
    case False
    then show ?thesis using Cons.prems(2) by (auto simp: not_less)
  qed
qed

lemma count_nonzero_mem: "count_list xs v \<noteq> 0 \<Longrightarrow> v \<in> set xs"
  by (simp add: count_list_0_iff)

lemma mem_count_nonzero: "v \<in> set xs \<Longrightarrow> count_list xs v \<noteq> 0"
  by (simp add: count_list_0_iff)

lemma length_update_centroids: "length (update_centroids k t f y) = k"
  by (simp add: update_centroids_def)

lemma index_of_mem: "v \<in> set d \<Longrightarrow> index_of d v < length d \<and> d ! index_of d v = v"
  by (induction d) auto

lemma index_of_nth: "distinct d \<Longrightarrow> j < length d \<Longrightarrow> index_of d (d ! j) = j"
proof (induction d arbitrary: j)
  case Nil
  then show ?case by simp
next
  case (Cons a d)
  then show ?case by (cases j) auto
qed

lemma np_unique_facts:
  assumes "np_unique x = (d, indices, f)"
  shows "distinct d" "set d = set x" "length d = length (remdups x)"
    "length indices = length x" "\<forall>i < length x. indices ! i < length d"
    "\<forall>j < length d. \<exists>i < length x. indices ! i = j"
proof -
  have d: "d = sort (remdups x)" and ix: "indices = map (index_of d) x"
    using assms by (auto simp: np_unique_def Let_def)
  show dd: "distinct d" and sd: "set d = set x" and "length d = length (remdups x)"
    unfolding d by simp_all
  show "length indices = length x" unfolding ix by simp
  show "\<forall>i < length x. indices ! i < length d"
    unfolding ix using index_of_mem[of _ d] sd by simp
  show "\<forall>j < length d. \<exists>i < length x. indices ! i = j"
  proof (intro allI impI)
    fix j assume j: "j < length d"
    then have "d ! j \<in> set x" using sd nth_mem[OF j] by simp
    then obtain i where i: "i < length x" "x ! i = d ! j" by (auto simp: in_set_conv_nth)
    then have "indices ! i = j" unfolding ix using index_of_nth[OF dd j] by simp
    then show "\<exists>i < length x. indices ! i = j" using i(1) by blast
  qed
qed

lemma length_remdups_of_int: "length (remdups (map rat_of_int x)) = length (remdups x)"
proof -
  have "card (rat_of_int ` set x) = card (set x)" by (rule card_image) (simp add: inj_on_def)
  then show ?thesis by (simp add: length_remdups_card_conv)
qed

lemma distinct_concat_groups:
  "distinct L \<Longrightarrow> distinct xs \<Longrightarrow> distinct (concat (map (\<lambda>a. filter (\<lambda>i. lab i = a) xs) L))"
  by (induction L) auto

lemma clusters_of_props:
  assumes len: "length y = nd" and ix: "\<forall>i < length indices. indices ! i < nd"
    and onto: "\<forall>j < nd. \<exists>i < length indices. indices ! i = j"
  shows "distinct (concat (clusters_of y indices))"
    "set (concat (clusters_of y indices)) = {..<length indices}"
    "\<forall>cl \<in> set (clusters_of y indices). cl \<noteq> []"
    "length (clusters_of y indices) = card (set y)"
    "\<forall>i < length indices. \<exists>!j. j < length (clusters_of y indices) \<and> i \<in> set (clusters_of y indices ! j)"
proof -
  let ?yi = "map (\<lambda>i. y ! i) indices"
  let ?as = "sort (remdups y)"
  have das: "distinct ?as" and sas: "set ?as = set y" by simp_all
  show "distinct (concat (clusters_of y indices))"
    unfolding clusters_of_def by (rule distinct_concat_groups) simp_all
  have lab: "\<And>i. i < length indices \<Longrightarrow> ?yi ! i \<in> set y"
    using ix len by simp
  show "set (concat (clusters_of y indices)) = {..<length indices}"
    unfolding clusters_of_def using lab by (auto simp del: nth_map)
  show "\<forall>cl \<in> set (clusters_of y indices). cl \<noteq> []"
  proof
    fix cl assume "cl \<in> set (clusters_of y indices)"
    then obtain a where a: "a \<in> set y" "cl = filter (\<lambda>i. ?yi ! i = a) [0..<length ?yi]"
      unfolding clusters_of_def by auto
    then obtain j where j: "j < nd" "y ! j = a" using len by (auto simp: in_set_conv_nth)
    then obtain i where i: "i < length indices" "indices ! i = j" using onto by blast
    then have "i \<in> set cl" unfolding a(2) using j(2) by simp
    then show "cl \<noteq> []" by auto
  qed
  show "length (clusters_of y indices) = card (set y)"
    unfolding clusters_of_def by (simp add: length_remdups_card_conv)
  show "\<forall>i < length indices. \<exists>!j. j < length (clusters_of y indices) \<and> i \<in> set (clusters_of y indices ! j)"
  proof (intro allI impI)
    fix i assume i: "i < length indices"
    have mem: "\<And>j. j < length ?as \<Longrightarrow> (i \<in> set (clusters_of y indices ! j)) = (?yi ! i = ?as ! j)"
      unfolding clusters_of_def using i by simp
    have lc: "length (clusters_of y indices) = length ?as" unfolding clusters_of_def by simp
    from lab[OF i] have "?yi ! i \<in> set ?as" using sas by simp
    then obtain j where j: "j < length ?as" "?as ! j = ?yi ! i" by (metis in_set_conv_nth)
    show "\<exists>!j. j < length (clusters_of y indices) \<and> i \<in> set (clusters_of y indices ! j)"
    proof (rule ex1I[of _ j])
      show "j < length (clusters_of y indices) \<and> i \<in> set (clusters_of y indices ! j)"
        using j mem[OF j(1)] lc by simp
    next
      fix j' assume "j' < length (clusters_of y indices) \<and> i \<in> set (clusters_of y indices ! j')"
      then have j': "j' < length ?as" "?as ! j' = ?yi ! i" using mem[of j'] lc by auto
      show "j' = j" using das j j' nth_eq_iff_index_eq[of ?as j' j] by metis
    qed
  qed
qed

lemma is_permutation_length: "is_permutation n perm \<Longrightarrow> length perm = n"
  unfolding is_permutation_def by (metis length_sort length_upt diff_zero)

section \<open>Properties of the decoder\<close>

lemma width_s_i:
  assumes "0 < w"
  shows "s_i (eisner_width n sc lens st w) i j b =
     (if j = i + w \<and> j < n then score_max (ir_list sc (s_c st) b i w)
      else if i = j + w \<and> i < n then score_max (il_list sc (s_c st) b j w)
      else s_i st i j b)"
  using assms
  by (simp add: eisner_width_def Let_def fill_diagonal_def stripe_def il_list_def ir_list_def)

lemma width_p_i:
  assumes "0 < w"
  shows "p_i (eisner_width n sc lens st w) i j b =
     (if j = i + w \<and> j < n then score_argmax (ir_list sc (s_c st) b i w) + i
      else if i = j + w \<and> i < n then score_argmax (il_list sc (s_c st) b j w) + j
      else p_i st i j b)"
  using assms
  by (simp add: eisner_width_def Let_def fill_diagonal_def stripe_def il_list_def ir_list_def)

lemma cr_list_cong:
  "(\<And>k. k < w \<Longrightarrow> S (1 + i + k) (w + i) b = S' (1 + i + k) (w + i) b) \<Longrightarrow>
   (\<And>k. k < w \<Longrightarrow> I i (1 + i + k) b = I' i (1 + i + k) b) \<Longrightarrow>
   cr_list S I b i w = cr_list S' I' b i w"
  by (simp add: cr_list_def)

lemma cl_list_cong:
  "(\<And>k. k < w \<Longrightarrow> S (i + k) i b = S' (i + k) i b) \<Longrightarrow>
   (\<And>k. k < w \<Longrightarrow> I (w + i) (i + k) b = I' (w + i) (i + k) b) \<Longrightarrow>
   cl_list S I b i w = cl_list S' I' b i w"
  by (simp add: cl_list_def)

lemma il_list_cong:
  "(\<And>k. k < w \<Longrightarrow> S i (i + k) b = S' i (i + k) b) \<Longrightarrow>
   (\<And>k. k < w \<Longrightarrow> S (w + i) (1 + i + k) b = S' (w + i) (1 + i + k) b) \<Longrightarrow>
   sc b i (i + w) = sc' b i (i + w) \<Longrightarrow>
   il_list sc S b i w = il_list sc' S' b i w"
  by (simp add: il_list_def)

lemma ir_list_cong:
  "(\<And>k. k < w \<Longrightarrow> S i (i + k) b = S' i (i + k) b) \<Longrightarrow>
   (\<And>k. k < w \<Longrightarrow> S (w + i) (1 + i + k) b = S' (w + i) (1 + i + k) b) \<Longrightarrow>
   sc b (i + w) i = sc' b (i + w) i \<Longrightarrow>
   ir_list sc S b i w = ir_list sc' S' b i w"
  by (simp add: ir_list_def)

lemma width_s_c:
  assumes "0 < w"
  shows "s_c (eisner_width n sc lens st w) i j b =
     (if i = 0 \<and> j = w \<and> b < length lens \<and> lens ! b \<noteq> w then NegInf
      else if j = i + w \<and> j < n
        then score_max (cr_list (s_c st) (s_i (eisner_width n sc lens st w)) b i w)
      else if i = j + w \<and> i < n
        then score_max (cl_list (s_c st) (s_i (eisner_width n sc lens st w)) b j w)
      else s_c st i j b)"
proof -
  let ?I = "s_i (eisner_width n sc lens st w)"
  let ?S1 = "fill_diagonal n (s_c st) (\<lambda>b i. score_max (cl_list (s_c st) ?I b i w)) (- int w)"
  have raw: "s_c (eisner_width n sc lens st w) i j b =
      (if i = 0 \<and> j = w \<and> b < length lens \<and> lens ! b \<noteq> w then NegInf
        else fill_diagonal n ?S1 (\<lambda>b i. score_max (cr_list ?S1 ?I b i w)) (int w) i j b)"
    by (simp add: eisner_width_def Let_def stripe_def cl_list_def cr_list_def)
  have cr: "cr_list ?S1 ?I b i w = cr_list (s_c st) ?I b i w" for i b
    by (rule cr_list_cong) (use assms in \<open>simp_all add: fill_diagonal_def\<close>)
  show ?thesis unfolding raw cr using assms by (auto simp add: fill_diagonal_def)
qed

lemma width_p_c:
  assumes "0 < w"
  shows "p_c (eisner_width n sc lens st w) i j b =
     (if j = i + w \<and> j < n
        then score_argmax (cr_list (s_c st) (s_i (eisner_width n sc lens st w)) b i w) + i + 1
      else if i = j + w \<and> i < n
        then score_argmax (cl_list (s_c st) (s_i (eisner_width n sc lens st w)) b j w) + j
      else p_c st i j b)"
proof -
  let ?I = "s_i (eisner_width n sc lens st w)"
  let ?S1 = "fill_diagonal n (s_c st) (\<lambda>b i. score_max (cl_list (s_c st) ?I b i w)) (- int w)"
  have raw: "p_c (eisner_width n sc lens st w) i j b =
      fill_diagonal n
        (fill_diagonal n (p_c st) (\<lambda>b i. score_argmax (cl_list (s_c st) ?I b i w) + i) (- int w))
        (\<lambda>b i. score_argmax (cr_list ?S1 ?I b i w) + i + 1) (int w) i j b"
    by (simp add: eisner_width_def Let_def stripe_def cl_list_def cr_list_def)
  have cr: "cr_list ?S1 ?I b i w = cr_list (s_c st) ?I b i w" for i b
    by (rule cr_list_cong) (use assms in \<open>simp_all add: fill_diagonal_def\<close>)
  show ?thesis unfolding raw cr using assms by (auto simp add: fill_diagonal_def)
qed

lemma tables_upto_0: "tables_upto n sc lens 0 = initial_state n"
  by (simp add: tables_upto_def)

lemma tables_upto_Suc:
  "tables_upto n sc lens (Suc m) = eisner_width n sc lens (tables_upto n sc lens m) (Suc m)"
  by (simp add: tables_upto_def)

lemma eisner_tables_upto: "eisner_tables n sc lens = tables_upto n sc lens (n - 1)"
  by (cases n) (simp_all add: eisner_tables_def tables_upto_def)

lemma step_frame:
  assumes "dist_nat i j \<noteq> Suc m"
  shows "s_i (tables_upto n sc lens (Suc m)) i j b = s_i (tables_upto n sc lens m) i j b"
    "p_i (tables_upto n sc lens (Suc m)) i j b = p_i (tables_upto n sc lens m) i j b"
    "s_c (tables_upto n sc lens (Suc m)) i j b = s_c (tables_upto n sc lens m) i j b"
    "p_c (tables_upto n sc lens (Suc m)) i j b = p_c (tables_upto n sc lens m) i j b"
proof -
  have ne: "j \<noteq> i + Suc m" "i \<noteq> j + Suc m" using assms by (auto simp: dist_nat_def)
  show "s_i (tables_upto n sc lens (Suc m)) i j b = s_i (tables_upto n sc lens m) i j b"
    unfolding tables_upto_Suc using ne by (simp add: width_s_i)
  show "p_i (tables_upto n sc lens (Suc m)) i j b = p_i (tables_upto n sc lens m) i j b"
    unfolding tables_upto_Suc using ne by (simp add: width_p_i)
  show "s_c (tables_upto n sc lens (Suc m)) i j b = s_c (tables_upto n sc lens m) i j b"
    unfolding tables_upto_Suc using ne by (auto simp add: width_s_c)
  show "p_c (tables_upto n sc lens (Suc m)) i j b = p_c (tables_upto n sc lens m) i j b"
    unfolding tables_upto_Suc using ne by (simp add: width_p_c)
qed

lemma cells_stable:
  assumes "dist_nat i j \<le> m"
  shows "s_i (tables_upto n sc lens (m + e)) i j b = s_i (tables_upto n sc lens m) i j b"
    "p_i (tables_upto n sc lens (m + e)) i j b = p_i (tables_upto n sc lens m) i j b"
    "s_c (tables_upto n sc lens (m + e)) i j b = s_c (tables_upto n sc lens m) i j b"
    "p_c (tables_upto n sc lens (m + e)) i j b = p_c (tables_upto n sc lens m) i j b"
proof (induction e)
  case 0
  { case 1 show ?case by simp }
  { case 2 show ?case by simp }
  { case 3 show ?case by simp }
  { case 4 show ?case by simp }
next
  case (Suc e)
  have d: "dist_nat i j \<noteq> Suc (m + e)" using assms by simp
  { case 1 show ?case using step_frame(1)[OF d] Suc(1) by simp }
  { case 2 show ?case using step_frame(2)[OF d] Suc(2) by simp }
  { case 3 show ?case using step_frame(3)[OF d] Suc(3) by simp }
  { case 4 show ?case using step_frame(4)[OF d] Suc(4) by simp }
qed

lemma cells_final:
  assumes "dist_nat i j \<le> m" "m \<le> M"
  shows "s_i (tables_upto n sc lens m) i j b = s_i (tables_upto n sc lens M) i j b"
    "p_i (tables_upto n sc lens m) i j b = p_i (tables_upto n sc lens M) i j b"
    "s_c (tables_upto n sc lens m) i j b = s_c (tables_upto n sc lens M) i j b"
    "p_c (tables_upto n sc lens m) i j b = p_c (tables_upto n sc lens M) i j b"
  using cells_stable[OF assms(1), of n sc lens "M - m" b] assms(2) by simp_all

lemma dist_nat_simps [simp]:
  "dist_nat i (i + k) = k" "dist_nat (i + k) i = k" "dist_nat (k + i) i = k" "dist_nat i (k + i) = k"
  "dist_nat i i = 0"
  by (simp_all add: dist_nat_def)

lemma dist_nat_inner:
  "k < Suc m \<Longrightarrow> dist_nat (Suc m + i) (1 + i + k) \<le> m"
  "k < Suc m \<Longrightarrow> dist_nat (1 + i + k) (Suc m + i) \<le> m"
  "k < Suc m \<Longrightarrow> dist_nat (Suc m + i) (i + k) \<le> Suc m"
  "k < Suc m \<Longrightarrow> dist_nat i (1 + i + k) \<le> Suc m"
  "k < Suc m \<Longrightarrow> dist_nat i (i + k) \<le> m"
  "k < Suc m \<Longrightarrow> dist_nat (i + k) i \<le> m"
  by (auto simp add: dist_nat_def)

lemma final_lists:
  assumes w: "Suc m \<le> M"
  shows "ir_list sc (s_c (tables_upto n sc lens m)) b i (Suc m) =
           ir_list sc (s_c (tables_upto n sc lens M)) b i (Suc m)"
    "il_list sc (s_c (tables_upto n sc lens m)) b i (Suc m) =
           il_list sc (s_c (tables_upto n sc lens M)) b i (Suc m)"
    "cr_list (s_c (tables_upto n sc lens m)) (s_i (tables_upto n sc lens (Suc m))) b i (Suc m) =
       cr_list (s_c (tables_upto n sc lens M)) (s_i (tables_upto n sc lens M)) b i (Suc m)"
    "cl_list (s_c (tables_upto n sc lens m)) (s_i (tables_upto n sc lens (Suc m))) b i (Suc m) =
       cl_list (s_c (tables_upto n sc lens M)) (s_i (tables_upto n sc lens M)) b i (Suc m)"
proof -
  have m: "m \<le> M" using w by simp
  show "ir_list sc (s_c (tables_upto n sc lens m)) b i (Suc m) =
           ir_list sc (s_c (tables_upto n sc lens M)) b i (Suc m)"
  proof (rule ir_list_cong)
    fix k assume k: "k < Suc m"
    show "s_c (tables_upto n sc lens m) i (i + k) b = s_c (tables_upto n sc lens M) i (i + k) b"
      by (rule cells_final(3)[OF dist_nat_inner(5)[OF k] m])
    show "s_c (tables_upto n sc lens m) (Suc m + i) (1 + i + k) b =
          s_c (tables_upto n sc lens M) (Suc m + i) (1 + i + k) b"
      by (rule cells_final(3)[OF dist_nat_inner(1)[OF k] m])
  qed simp
  show "il_list sc (s_c (tables_upto n sc lens m)) b i (Suc m) =
           il_list sc (s_c (tables_upto n sc lens M)) b i (Suc m)"
  proof (rule il_list_cong)
    fix k assume k: "k < Suc m"
    show "s_c (tables_upto n sc lens m) i (i + k) b = s_c (tables_upto n sc lens M) i (i + k) b"
      by (rule cells_final(3)[OF dist_nat_inner(5)[OF k] m])
    show "s_c (tables_upto n sc lens m) (Suc m + i) (1 + i + k) b =
          s_c (tables_upto n sc lens M) (Suc m + i) (1 + i + k) b"
      by (rule cells_final(3)[OF dist_nat_inner(1)[OF k] m])
  qed simp
  show "cr_list (s_c (tables_upto n sc lens m)) (s_i (tables_upto n sc lens (Suc m))) b i (Suc m) =
       cr_list (s_c (tables_upto n sc lens M)) (s_i (tables_upto n sc lens M)) b i (Suc m)"
  proof (rule cr_list_cong)
    fix k assume k: "k < Suc m"
    show "s_c (tables_upto n sc lens m) (1 + i + k) (Suc m + i) b =
          s_c (tables_upto n sc lens M) (1 + i + k) (Suc m + i) b"
      by (rule cells_final(3)[OF dist_nat_inner(2)[OF k] m])
    show "s_i (tables_upto n sc lens (Suc m)) i (1 + i + k) b =
          s_i (tables_upto n sc lens M) i (1 + i + k) b"
      by (rule cells_final(1)[OF dist_nat_inner(4)[OF k] w])
  qed
  show "cl_list (s_c (tables_upto n sc lens m)) (s_i (tables_upto n sc lens (Suc m))) b i (Suc m) =
       cl_list (s_c (tables_upto n sc lens M)) (s_i (tables_upto n sc lens M)) b i (Suc m)"
  proof (rule cl_list_cong)
    fix k assume k: "k < Suc m"
    show "s_c (tables_upto n sc lens m) (i + k) i b = s_c (tables_upto n sc lens M) (i + k) i b"
      by (rule cells_final(3)[OF dist_nat_inner(6)[OF k] m])
    show "s_i (tables_upto n sc lens (Suc m)) (Suc m + i) (i + k) b =
          s_i (tables_upto n sc lens M) (Suc m + i) (i + k) b"
      by (rule cells_final(1)[OF dist_nat_inner(3)[OF k] w])
  qed
qed

lemma final_cells_Suc:
  fixes n :: nat and sc :: "nat \<Rightarrow> nat \<Rightarrow> nat \<Rightarrow> score" and lens :: "nat list" and M :: nat
  assumes w: "Suc m \<le> M" and i: "i + Suc m < n"
  defines "F \<equiv> tables_upto n sc lens M"
  shows "s_i F i (i + Suc m) b = score_max (ir_list sc (s_c F) b i (Suc m))"
    "s_i F (i + Suc m) i b = score_max (il_list sc (s_c F) b i (Suc m))"
    "p_i F i (i + Suc m) b = score_argmax (ir_list sc (s_c F) b i (Suc m)) + i"
    "p_i F (i + Suc m) i b = score_argmax (il_list sc (s_c F) b i (Suc m)) + i"
    "s_c F i (i + Suc m) b =
       (if i = 0 \<and> b < length lens \<and> lens ! b \<noteq> Suc m then NegInf
        else score_max (cr_list (s_c F) (s_i F) b i (Suc m)))"
    "s_c F (i + Suc m) i b = score_max (cl_list (s_c F) (s_i F) b i (Suc m))"
    "p_c F i (i + Suc m) b = score_argmax (cr_list (s_c F) (s_i F) b i (Suc m)) + i + 1"
    "p_c F (i + Suc m) i b = score_argmax (cl_list (s_c F) (s_i F) b i (Suc m)) + i"
proof -
  let ?W = "tables_upto n sc lens (Suc m)"
  let ?P = "tables_upto n sc lens m"
  have d: "dist_nat i (i + Suc m) \<le> Suc m" "dist_nat (i + Suc m) i \<le> Suc m"
    by (simp_all add: dist_nat_def)
  have W: "?W = eisner_width n sc lens ?P (Suc m)" by (rule tables_upto_Suc)
  have sW: "s_i (eisner_width n sc lens ?P (Suc m)) = s_i ?W" using W by simp
  have pos: "0 < Suc m" by simp
  have a1: "s_i ?W i (i + Suc m) b = score_max (ir_list sc (s_c ?P) b i (Suc m))"
    unfolding W width_s_i[OF pos] using i by simp
  have a2: "s_i ?W (i + Suc m) i b = score_max (il_list sc (s_c ?P) b i (Suc m))"
    unfolding W width_s_i[OF pos] using i by simp
  have a3: "p_i ?W i (i + Suc m) b = score_argmax (ir_list sc (s_c ?P) b i (Suc m)) + i"
    unfolding W width_p_i[OF pos] using i by simp
  have a4: "p_i ?W (i + Suc m) i b = score_argmax (il_list sc (s_c ?P) b i (Suc m)) + i"
    unfolding W width_p_i[OF pos] using i by simp
  have a5: "s_c ?W i (i + Suc m) b =
       (if i = 0 \<and> b < length lens \<and> lens ! b \<noteq> Suc m then NegInf
        else score_max (cr_list (s_c ?P) (s_i ?W) b i (Suc m)))"
    unfolding W width_s_c[OF pos] using i by simp
  have a6: "s_c ?W (i + Suc m) i b = score_max (cl_list (s_c ?P) (s_i ?W) b i (Suc m))"
    unfolding W width_s_c[OF pos] using i by simp
  have a7: "p_c ?W i (i + Suc m) b = score_argmax (cr_list (s_c ?P) (s_i ?W) b i (Suc m)) + i + 1"
    unfolding W width_p_c[OF pos] using i by simp
  have a8: "p_c ?W (i + Suc m) i b = score_argmax (cl_list (s_c ?P) (s_i ?W) b i (Suc m)) + i"
    unfolding W width_p_c[OF pos] using i by simp
  show "s_i F i (i + Suc m) b = score_max (ir_list sc (s_c F) b i (Suc m))"
    unfolding F_def cells_final(1)[OF d(1) w, symmetric] a1 final_lists(1)[OF w] ..
  show "s_i F (i + Suc m) i b = score_max (il_list sc (s_c F) b i (Suc m))"
    unfolding F_def cells_final(1)[OF d(2) w, symmetric] a2 final_lists(2)[OF w] ..
  show "p_i F i (i + Suc m) b = score_argmax (ir_list sc (s_c F) b i (Suc m)) + i"
    unfolding F_def cells_final(2)[OF d(1) w, symmetric] a3 final_lists(1)[OF w] ..
  show "p_i F (i + Suc m) i b = score_argmax (il_list sc (s_c F) b i (Suc m)) + i"
    unfolding F_def cells_final(2)[OF d(2) w, symmetric] a4 final_lists(2)[OF w] ..
  show "s_c F i (i + Suc m) b =
       (if i = 0 \<and> b < length lens \<and> lens ! b \<noteq> Suc m then NegInf
        else score_max (cr_list (s_c F) (s_i F) b i (Suc m)))"
    unfolding F_def cells_final(3)[OF d(1) w, symmetric] a5 final_lists(3)[OF w] ..
  show "s_c F (i + Suc m) i b = score_max (cl_list (s_c F) (s_i F) b i (Suc m))"
    unfolding F_def cells_final(3)[OF d(2) w, symmetric] a6 final_lists(4)[OF w] ..
  show "p_c F i (i + Suc m) b = score_argmax (cr_list (s_c F) (s_i F) b i (Suc m)) + i + 1"
    unfolding F_def cells_final(4)[OF d(1) w, symmetric] a7 final_lists(3)[OF w] ..
  show "p_c F (i + Suc m) i b = score_argmax (cl_list (s_c F) (s_i F) b i (Suc m)) + i"
    unfolding F_def cells_final(4)[OF d(2) w, symmetric] a8 final_lists(4)[OF w] ..
qed

lemma final_diag:
  "i < n \<Longrightarrow> s_c (tables_upto n sc lens M) i i b = Fin 0"
  using cells_final(3)[of i i 0 M n sc lens b]
  by (simp add: tables_upto_0 initial_state_def fill_diagonal_def)

lemma score_argmax_less: "xs \<noteq> [] \<Longrightarrow> score_argmax xs < length xs"
  unfolding score_argmax_def by (rule argbest_less)

lemma length_lists [simp]:
  "length (ir_list sc S b i w) = w" "length (il_list sc S b i w) = w"
  "length (cr_list S I b i w) = w" "length (cl_list S I b i w) = w"
  by (simp_all add: ir_list_def il_list_def cr_list_def cl_list_def)

lemma lists_nonempty:
  "ir_list sc S b i (Suc m) \<noteq> []" "il_list sc S b i (Suc m) \<noteq> []"
  "cr_list S I b i (Suc m) \<noteq> []" "cl_list S I b i (Suc m) \<noteq> []"
  by (simp_all add: ir_list_def il_list_def cr_list_def cl_list_def)

lemma eisner_ptr_ok:
  assumes L: "L < n"
  shows "ptr_ok L (\<lambda>a c. p_i (eisner_tables n sc lens) a c b) (\<lambda>a c. p_c (eisner_tables n sc lens) a c b)"
  unfolding ptr_ok_def
proof (intro allI impI)
  fix i j assume ij: "i < j \<and> j \<le> L"
  then obtain m where m: "j = i + Suc m" using less_imp_Suc_add by auto
  have w: "Suc m \<le> n - 1" and i: "i + Suc m < n" using ij m L by simp_all
  note fc = final_cells_Suc[OF w i, of sc lens b, folded eisner_tables_upto]
  have a: "score_argmax (ir_list sc (s_c (eisner_tables n sc lens)) b i (Suc m)) < Suc m"
    using score_argmax_less[OF lists_nonempty(1)] by simp
  have b: "score_argmax (il_list sc (s_c (eisner_tables n sc lens)) b i (Suc m)) < Suc m"
    using score_argmax_less[OF lists_nonempty(2)] by simp
  have c: "score_argmax (cr_list (s_c (eisner_tables n sc lens)) (s_i (eisner_tables n sc lens)) b i (Suc m)) < Suc m"
    using score_argmax_less[OF lists_nonempty(3)] by simp
  have d: "score_argmax (cl_list (s_c (eisner_tables n sc lens)) (s_i (eisner_tables n sc lens)) b i (Suc m)) < Suc m"
    using score_argmax_less[OF lists_nonempty(4)] by simp
  show "(i \<le> p_i (eisner_tables n sc lens) i j b \<and> p_i (eisner_tables n sc lens) i j b < j) \<and>
        (i \<le> p_i (eisner_tables n sc lens) j i b \<and> p_i (eisner_tables n sc lens) j i b < j) \<and>
        (i < p_c (eisner_tables n sc lens) i j b \<and> p_c (eisner_tables n sc lens) i j b \<le> j) \<and>
        (i \<le> p_c (eisner_tables n sc lens) j i b \<and> p_c (eisner_tables n sc lens) j i b < j)"
    unfolding m fc(3,4,7,8) using a b c d by simp
qed

lemma argbest_first:
  "\<forall>b \<in> set xs. \<not> better b a \<Longrightarrow> argbest better (a # xs) = 0"
  by simp

lemma score_less_NegInf: "\<not> score_less a NegInf"
  by (cases a) simp_all

lemma score_add_NegInf:
  "score_within X x \<Longrightarrow> score_add NegInf x = NegInf"
  "score_within X x \<Longrightarrow> score_add x NegInf = NegInf"
  by (cases x; simp add: score_within_def)+

lemma score_within_mono: "X \<le> Y \<Longrightarrow> score_within X x \<Longrightarrow> score_within Y x"
  by (cases x) (simp_all add: score_within_def)

lemma score_add_within:
  assumes "score_within X x" "score_within Y y" "X + Y \<le> float_max"
  shows "score_within (X + Y) (score_add x y)"
proof (cases x)
  case NegInf
  then show ?thesis using assms(2) by (cases y) (simp_all add: score_within_def)
next
  case (Fin a)
  show ?thesis
  proof (cases y)
    case NegInf
    then show ?thesis using Fin by (simp add: score_within_def)
  next
    case (Fin c)
    have a: "\<bar>a\<bar> \<le> X" using assms(1) \<open>x = Fin a\<close> by (simp add: score_within_def)
    have c: "\<bar>c\<bar> \<le> Y" using assms(2) Fin by (simp add: score_within_def)
    have s: "\<bar>a + c\<bar> \<le> X + Y" using a c by linarith
    then have "\<not> float_max < a + c" "\<not> a + c < - float_max" using assms(3) by linarith+
    then show ?thesis using s Fin \<open>x = Fin a\<close> by (simp add: score_within_def)
  next
    case PosInf
    then show ?thesis using assms(2) by (simp add: score_within_def)
  next
    case Nan
    then show ?thesis using assms(2) by (simp add: score_within_def)
  qed
next
  case PosInf
  then show ?thesis using assms(1) by (simp add: score_within_def)
next
  case Nan
  then show ?thesis using assms(1) by (simp add: score_within_def)
qed

lemma score_add_within_nat:
  assumes x: "score_within (of_nat p * B) x" and y: "score_within (of_nat q * B) y"
    and pq: "p + q \<le> L" and B0: "0 \<le> B" and fm: "of_nat L * B \<le> float_max"
  shows "score_within (of_nat (p + q) * B) (score_add x y)"
proof -
  have "(of_nat (p + q) :: rat) \<le> of_nat L" using pq by simp
  then have "of_nat (p + q) * B \<le> of_nat L * B" using B0 by (rule mult_right_mono)
  then have le: "of_nat p * B + of_nat q * B \<le> float_max" using fm by (simp add: algebra_simps)
  have "of_nat (p + q) * B = of_nat p * B + of_nat q * B" by (simp add: algebra_simps)
  then show ?thesis using score_add_within[OF x y le] by simp
qed

lemma score_max_within:
  assumes "xs \<noteq> []" "\<forall>x \<in> set xs. score_within X x"
  shows "score_within X (score_max xs)"
  unfolding score_max_def using assms score_argmax_less[OF assms(1)] by simp

lemma eisner_masked:
  assumes "Suc m \<le> M" "Suc m < n" "b < length lens" "lens ! b \<noteq> Suc m"
  shows "s_c (tables_upto n sc lens M) 0 (Suc m) b = NegInf"
  using final_cells_Suc(5)[OF assms(1), of 0 n sc lens b] assms by simp

text \<open>
  Scores of bounded size stay finite in the tables of their sentence: a cell of a span
  of width \<open>d\<close> is negative infinity or at most \<open>d * B\<close> in absolute value.
\<close>

lemma cells_within:
  fixes n L M :: nat and sc :: "nat \<Rightarrow> nat \<Rightarrow> nat \<Rightarrow> score" and lens :: "nat list" and b :: nat
    and B :: rat
  assumes Ln: "L < n" and LM: "L \<le> M" and B0: "0 \<le> B" and fm: "of_nat L * B \<le> float_max"
    and bd: "\<And>i j. i \<le> L \<Longrightarrow> j \<le> L \<Longrightarrow> score_within B (sc b i j)"
  defines "F \<equiv> tables_upto n sc lens M"
  shows "dist_nat i j \<le> d \<Longrightarrow> i \<le> L \<Longrightarrow> j \<le> L \<Longrightarrow>
         score_within (of_nat (dist_nat i j) * B) (s_i F i j b) \<and>
         score_within (of_nat (dist_nat i j) * B) (s_c F i j b)"
proof (induction d arbitrary: i j)
  case 0
  then have ij: "j = i" by (simp add: dist_nat_def split: if_splits)
  have d0: "dist_nat i i \<le> 0" by simp
  have z: "0 \<le> M" by simp
  have "i < n" using "0.prems"(2) Ln by simp
  then have c: "s_c F i i b = Fin 0" unfolding F_def by (rule final_diag)
  have "s_i F i i b = NegInf"
    unfolding F_def cells_final(1)[OF d0 z, of n sc lens b, symmetric] tables_upto_0
    by (simp add: initial_state_def)
  then show ?case unfolding ij using c by (simp add: score_within_def)
next
  case (Suc d)
  have sc_lt: "score_within (of_nat (dist_nat x y) * B) (s_c F x y b)"
    if "dist_nat x y \<le> d" "x \<le> L" "y \<le> L" for x y
    using Suc.IH[OF that] by simp
  have si_lt: "score_within (of_nat (dist_nat x y) * B) (s_i F x y b)"
    if "dist_nat x y \<le> d" "x \<le> L" "y \<le> L" for x y
    using Suc.IH[OF that] by simp
  have one: "score_within (of_nat 1 * B) (sc b x y)" if "x \<le> L" "y \<le> L" for x y
    using bd[OF that] by simp
  have step: "score_within (of_nat (Suc d) * B) (s_i F a (a + Suc d) b) \<and>
              score_within (of_nat (Suc d) * B) (s_c F a (a + Suc d) b) \<and>
              score_within (of_nat (Suc d) * B) (s_i F (a + Suc d) a b) \<and>
              score_within (of_nat (Suc d) * B) (s_c F (a + Suc d) a b)" if a: "a + Suc d \<le> L" for a
  proof -
    have w: "Suc d \<le> M" using a LM by simp
    have i: "a + Suc d < n" using a Ln by simp
    have dL: "Suc d \<le> L" using a by simp
    note f = final_cells_Suc[OF w i, of sc lens b, folded F_def]
    have ilr: "score_within (of_nat d * B)
        (score_add (s_c F a (a + k) b) (s_c F (Suc d + a) (1 + a + k) b))" if k: "k < Suc d" for k
    proof -
      have e1: "dist_nat a (a + k) = k" by simp
      have e2: "dist_nat (Suc d + a) (1 + a + k) = d - k" using k by (auto simp add: dist_nat_def)
      have x: "score_within (of_nat k * B) (s_c F a (a + k) b)"
        using sc_lt[of a "a + k"] k a unfolding e1 by simp
      have y: "score_within (of_nat (d - k) * B) (s_c F (Suc d + a) (1 + a + k) b)"
        using sc_lt[of "Suc d + a" "1 + a + k"] k a unfolding e2 by simp
      have pq: "k + (d - k) \<le> L" using k dL by simp
      have "k + (d - k) = d" using k by simp
      then show ?thesis using score_add_within_nat[OF x y pq B0 fm] by simp
    qed
    have ir: "\<forall>x \<in> set (ir_list sc (s_c F) b a (Suc d)). score_within (of_nat (Suc d) * B) x"
    proof -
      have "score_within (of_nat (Suc d) * B)
          (score_add (score_add (s_c F a (a + k) b) (s_c F (Suc d + a) (1 + a + k) b))
             (sc b (a + Suc d) a))" if k: "k < Suc d" for k
      proof -
        have o: "score_within (of_nat 1 * B) (sc b (a + Suc d) a)" by (rule one) (use a in simp_all)
        have pq: "d + 1 \<le> L" using dL by simp
        show ?thesis using score_add_within_nat[OF ilr[OF k] o pq B0 fm] by simp
      qed
      then show ?thesis unfolding ir_list_def by auto
    qed
    have il: "\<forall>x \<in> set (il_list sc (s_c F) b a (Suc d)). score_within (of_nat (Suc d) * B) x"
    proof -
      have "score_within (of_nat (Suc d) * B)
          (score_add (score_add (s_c F a (a + k) b) (s_c F (Suc d + a) (1 + a + k) b))
             (sc b a (a + Suc d)))" if k: "k < Suc d" for k
      proof -
        have o: "score_within (of_nat 1 * B) (sc b a (a + Suc d))" by (rule one) (use a in simp_all)
        have pq: "d + 1 \<le> L" using dL by simp
        show ?thesis using score_add_within_nat[OF ilr[OF k] o pq B0 fm] by simp
      qed
      then show ?thesis unfolding il_list_def by auto
    qed
    have si1: "score_within (of_nat (Suc d) * B) (s_i F a (a + Suc d) b)"
      unfolding f(1) by (rule score_max_within[OF lists_nonempty(1) ir])
    have si2: "score_within (of_nat (Suc d) * B) (s_i F (a + Suc d) a b)"
      unfolding f(2) by (rule score_max_within[OF lists_nonempty(2) il])
    have cr: "\<forall>x \<in> set (cr_list (s_c F) (s_i F) b a (Suc d)). score_within (of_nat (Suc d) * B) x"
    proof -
      have "score_within (of_nat (Suc d) * B)
          (score_add (s_i F a (1 + a + k) b) (s_c F (1 + a + k) (Suc d + a) b))" if k: "k < Suc d" for k
      proof -
        have e2: "dist_nat (1 + a + k) (Suc d + a) = d - k" using k by (auto simp add: dist_nat_def)
        have y: "score_within (of_nat (d - k) * B) (s_c F (1 + a + k) (Suc d + a) b)"
          using sc_lt[of "1 + a + k" "Suc d + a"] k a unfolding e2 by simp
        have x: "score_within (of_nat (Suc k) * B) (s_i F a (1 + a + k) b)"
        proof (cases "k = d")
          case True
          then have "1 + a + k = a + Suc d" by simp
          then show ?thesis using si1 True by simp
        next
          case False
          have e1: "dist_nat a (1 + a + k) = Suc k" by (auto simp add: dist_nat_def)
          show ?thesis using si_lt[of a "1 + a + k"] k a False unfolding e1 by simp
        qed
        have pq: "Suc k + (d - k) \<le> L" using k dL by simp
        have "Suc k + (d - k) = Suc d" using k by simp
        then show ?thesis using score_add_within_nat[OF x y pq B0 fm] by simp
      qed
      then show ?thesis unfolding cr_list_def by auto
    qed
    have cl: "\<forall>x \<in> set (cl_list (s_c F) (s_i F) b a (Suc d)). score_within (of_nat (Suc d) * B) x"
    proof -
      have "score_within (of_nat (Suc d) * B)
          (score_add (s_c F (a + k) a b) (s_i F (Suc d + a) (a + k) b))" if k: "k < Suc d" for k
      proof -
        have e1: "dist_nat (a + k) a = k" by simp
        have x: "score_within (of_nat k * B) (s_c F (a + k) a b)"
          using sc_lt[of "a + k" a] k a unfolding e1 by simp
        have y: "score_within (of_nat (Suc d - k) * B) (s_i F (Suc d + a) (a + k) b)"
        proof (cases "k = 0")
          case True
          then have "Suc d + a = a + Suc d" "a + k = a" "Suc d - k = Suc d" by simp_all
          then show ?thesis using si2 by (simp only:)
        next
          case False
          have e2: "dist_nat (Suc d + a) (a + k) = Suc d - k" using k by (auto simp add: dist_nat_def)
          show ?thesis using si_lt[of "Suc d + a" "a + k"] k a False unfolding e2 by simp
        qed
        have pq: "k + (Suc d - k) \<le> L" using k dL by simp
        have "k + (Suc d - k) = Suc d" using k by simp
        then show ?thesis using score_add_within_nat[OF x y pq B0 fm] by simp
      qed
      then show ?thesis unfolding cl_list_def by auto
    qed
    have sc1: "score_within (of_nat (Suc d) * B) (s_c F a (a + Suc d) b)"
      unfolding f(5) using score_max_within[OF lists_nonempty(3) cr]
      by (simp add: score_within_def)
    have sc2: "score_within (of_nat (Suc d) * B) (s_c F (a + Suc d) a b)"
      unfolding f(6) by (rule score_max_within[OF lists_nonempty(4) cl])
    show ?thesis using si1 si2 sc1 sc2 by blast
  qed
  have "dist_nat i j \<le> d \<or> j = i + Suc d \<or> i = j + Suc d"
    using Suc.prems(1) unfolding dist_nat_def by (cases "i \<le> j") (simp_all, linarith+)
  then consider "dist_nat i j \<le> d" | "j = i + Suc d" | "i = j + Suc d" by blast
  then show ?case
  proof cases
    case 1
    then show ?thesis by (rule Suc.IH[OF _ Suc.prems(2,3)])
  next
    case 2
    have "i + Suc d \<le> L" using 2 Suc.prems(3) by simp
    from step[OF this] show ?thesis unfolding 2 dist_nat_simps by blast
  next
    case 3
    have "j + Suc d \<le> L" using 3 Suc.prems(2) by simp
    from step[OF this] show ?thesis unfolding 3 dist_nat_simps by blast
  qed
qed

lemma eisner_cells_within:
  assumes Ln: "L < n" and B0: "0 \<le> B" and fm: "of_nat L * B \<le> float_max"
    and bd: "\<And>i j. i \<le> L \<Longrightarrow> j \<le> L \<Longrightarrow> score_within B (sc b i j)"
    and i: "i \<le> L" and j: "j \<le> L"
  shows "score_within (of_nat L * B) (s_c (eisner_tables n sc lens) i j b)"
proof -
  have LM: "L \<le> n - 1" using Ln by simp
  have d: "dist_nat i j \<le> L" using i j by (auto simp add: dist_nat_def)
  have w: "score_within (of_nat (dist_nat i j) * B) (s_c (eisner_tables n sc lens) i j b)"
    using cells_within[of L n "n - 1" B sc b i j L lens, OF Ln LM B0 fm bd d i j]
    unfolding eisner_tables_upto by blast
  have "(of_nat (dist_nat i j) :: rat) \<le> of_nat L" using d by simp
  then have "of_nat (dist_nat i j) * B \<le> of_nat L * B" using B0 by (rule mult_right_mono)
  then show ?thesis using w by (rule score_within_mono)
qed

lemma eisner_root_split:
  assumes L: "lens ! b < n" and b: "b < length lens" and r: "0 < r" "r \<le> lens ! b"
    and B0: "0 \<le> B" and fm: "of_nat (lens ! b) * B \<le> float_max"
    and bd: "\<And>i j. i \<le> lens ! b \<Longrightarrow> j \<le> lens ! b \<Longrightarrow> score_within B (sc b i j)"
  shows "p_i (eisner_tables n sc lens) 0 r b = 0"
proof -
  let ?F = "eisner_tables n sc lens"
  obtain m where m: "r = Suc m" using r(1) by (cases r) auto
  have w: "Suc m \<le> n - 1" and i: "0 + Suc m < n" using m r L by simp_all
  have tail: "\<forall>x \<in> set (map (\<lambda>k. score_add (score_add (s_c ?F 0 (0 + k) b) (s_c ?F (Suc m + 0) (1 + 0 + k) b))
            (sc b (0 + Suc m) 0)) [1..<Suc m]). x = NegInf"
  proof
    fix x assume "x \<in> set (map (\<lambda>k. score_add (score_add (s_c ?F 0 (0 + k) b) (s_c ?F (Suc m + 0) (1 + 0 + k) b))
            (sc b (0 + Suc m) 0)) [1..<Suc m])"
    then obtain k where k: "1 \<le> k" "k < Suc m"
      and x: "x = score_add (score_add (s_c ?F 0 (0 + k) b) (s_c ?F (Suc m + 0) (1 + 0 + k) b)) (sc b (0 + Suc m) 0)"
      by auto
    obtain k' where k': "k = Suc k'" using k(1) by (cases k) auto
    have "lens ! b \<noteq> Suc k'" using k k' m r(2) by simp
    then have neg: "s_c ?F 0 (Suc k') b = NegInf"
      unfolding eisner_tables_upto using eisner_masked[of k' "n - 1" n b lens sc] k k' w i b by simp
    have y: "score_within (of_nat (lens ! b) * B) (s_c ?F (Suc m + 0) (1 + 0 + k) b)"
      by (rule eisner_cells_within[of "lens ! b" n B sc b "Suc m + 0" "1 + 0 + k" lens,
            OF L B0 fm bd]) (use k m r in simp_all)
    have z: "score_within B (sc b (0 + Suc m) 0)" by (rule bd) (use m r in simp_all)
    show "x = NegInf" unfolding x k' using neg score_add_NegInf(1)[OF y] score_add_NegInf(1)[OF z] k'
      by simp
  qed
  have "ir_list sc (s_c ?F) b 0 (Suc m) =
      score_add (score_add (s_c ?F 0 (0 + 0) b) (s_c ?F (Suc m + 0) (1 + 0 + 0) b)) (sc b (0 + Suc m) 0) #
      map (\<lambda>k. score_add (score_add (s_c ?F 0 (0 + k) b) (s_c ?F (Suc m + 0) (1 + 0 + k) b))
            (sc b (0 + Suc m) 0)) [1..<Suc m]"
    unfolding ir_list_def by (subst upt_conv_Cons) simp_all
  then have "score_argmax (ir_list sc (s_c ?F) b 0 (Suc m)) = 0"
    unfolding score_argmax_def using tail by (simp add: score_less_NegInf del: upt_Suc)
  then show ?thesis
    unfolding m using final_cells_Suc(3)[OF w i, of sc lens b, folded eisner_tables_upto] by simp
qed

lemma RC_LC_cong:
  "RC hs h e \<Longrightarrow> (\<forall>p. h < p \<and> p \<le> e \<longrightarrow> hs' ! p = hs ! p) \<Longrightarrow> RC hs' h e"
  "LC hs h e \<Longrightarrow> (\<forall>p. e \<le> p \<and> p < h \<longrightarrow> hs' ! p = hs ! p) \<Longrightarrow> LC hs' h e"
proof (induction arbitrary: hs' and hs' rule: RC_LC.inducts)
  case (RC_refl hs h)
  show ?case by (rule RC_LC.RC_refl)
next
  case (RC_step h m r e hs)
  have a: "RC hs' h m" using RC_step.IH(1)[of hs'] RC_step.prems RC_step.hyps(1,2,3) by simp
  have b: "LC hs' r (Suc m)" using RC_step.IH(2)[of hs'] RC_step.prems RC_step.hyps(1,2,3) by simp
  have c: "RC hs' r e" using RC_step.IH(3)[of hs'] RC_step.prems RC_step.hyps(1,2,3) by simp
  have d: "hs' ! r = int h" using RC_step.prems RC_step.hyps by simp
  show ?case by (rule RC_LC.RC_step[OF RC_step.hyps(1,2,3) d a b c])
next
  case (LC_refl hs h)
  show ?case by (rule RC_LC.LC_refl)
next
  case (LC_step e r m h hs)
  have a: "LC hs' r e" using LC_step.IH(1)[of hs'] LC_step.prems LC_step.hyps(1,2,3) by simp
  have b: "RC hs' r m" using LC_step.IH(2)[of hs'] LC_step.prems LC_step.hyps(1,2,3) by simp
  have c: "LC hs' h (Suc m)" using LC_step.IH(3)[of hs'] LC_step.prems LC_step.hyps(1,2,3) by simp
  have d: "hs' ! r = int h" using LC_step.prems LC_step.hyps by simp
  show ?case by (rule RC_LC.LC_step[OF LC_step.hyps(1,2,3) d a b c])
qed

lemma ptr_okD:
  assumes "ptr_ok L p_i' p_c'" "i < j" "j \<le> L"
  shows "i \<le> p_i' i j" "p_i' i j < j" "i \<le> p_i' j i" "p_i' j i < j"
    "i < p_c' i j" "p_c' i j \<le> j" "i \<le> p_c' j i" "p_c' j i < j"
  using assms unfolding ptr_ok_def by blast+

lemma bt_frameI_right:
  "length hs' = length hs \<Longrightarrow> i \<le> j \<Longrightarrow> (\<And>p. \<not> (i < p \<and> p \<le> j) \<Longrightarrow> hs' ! p = hs ! p) \<Longrightarrow>
   bt_frame hs hs' i j"
  by (simp add: bt_frame_def)

lemma bt_frameI_left:
  "length hs' = length hs \<Longrightarrow> j < i \<Longrightarrow> (\<And>p. \<not> (j \<le> p \<and> p < i) \<Longrightarrow> hs' ! p = hs ! p) \<Longrightarrow>
   bt_frame hs hs' i j"
  by (simp add: bt_frame_def)

lemma bt_frameD_right:
  "bt_frame hs hs' i j \<Longrightarrow> i \<le> j \<Longrightarrow> length hs' = length hs \<and> (\<forall>p. \<not> (i < p \<and> p \<le> j) \<longrightarrow> hs' ! p = hs ! p)"
  by (simp add: bt_frame_def)

lemma bt_frameD_left:
  "bt_frame hs hs' i j \<Longrightarrow> j < i \<Longrightarrow> length hs' = length hs \<and> (\<forall>p. \<not> (j \<le> p \<and> p < i) \<longrightarrow> hs' ! p = hs ! p)"
  by (simp add: bt_frame_def)

lemma backtrack_spec:
  assumes ok: "ptr_ok L p_i' p_c'" and Ln: "L < n"
  shows "length heads = Suc L \<Longrightarrow> i \<le> L \<Longrightarrow> j \<le> L \<Longrightarrow> c \<or> i \<noteq> j \<Longrightarrow>
         2 * dist_nat i j + (if c then 1 else 0) \<le> fuel \<Longrightarrow>
         \<exists>hs'. backtrack fuel n p_i' p_c' heads i j c = Some (Inr hs') \<and>
               bt_frame heads hs' i j \<and> bt_post p_i' hs' i j c"
proof (induction fuel arbitrary: heads i j c)
  case 0
  then show ?case by (auto simp: dist_nat_def split: if_splits)
next
  case (Suc fuel)
  note len = Suc.prems(1) and iL = Suc.prems(2) and jL = Suc.prems(3) and fu = Suc.prems(5)
  have inr: "\<not> (n \<le> i \<or> n \<le> j)" using iL jL Ln by simp
  show ?case
  proof (cases "i = j")
    case True
    then have c: "c" using Suc.prems(4) by simp
    have "backtrack (Suc fuel) n p_i' p_c' heads i j c = Some (Inr heads)" using True by simp
    moreover have "bt_frame heads heads i j" by (simp add: bt_frame_def)
    moreover have "bt_post p_i' heads i j c" using True c by (simp add: bt_post_def RC_refl)
    ultimately show ?thesis by blast
  next
    case ne: False
    show ?thesis
    proof (cases c)
      case c: True
      have fu': "2 * dist_nat i j \<le> fuel" using fu c by simp
      show ?thesis
      proof (cases "i < j")
        case lt: True
        let ?r = "p_c' i j"
        have r: "i < ?r" "?r \<le> j" using ptr_okD(5,6)[OF ok lt jL] by simp_all
        have rL: "?r \<le> L" using r jL by simp
        have f1: "2 * dist_nat i ?r + (if False then 1 else 0) \<le> fuel"
          using fu' r lt by (auto simp add: dist_nat_def)
        obtain hs1 where b1: "backtrack fuel n p_i' p_c' heads i ?r False = Some (Inr hs1)"
          and fr1: "bt_frame heads hs1 i ?r" and po1: "bt_post p_i' hs1 i ?r False"
          using Suc.IH[OF len iL rL _ f1] r by auto
        have fr1': "length hs1 = length heads" "\<And>p. \<not> (i < p \<and> p \<le> ?r) \<Longrightarrow> hs1 ! p = heads ! p"
          using bt_frameD_right[OF fr1] r by simp_all
        let ?m = "p_i' i ?r"
        have m: "i \<le> ?m" "?m < ?r" using ptr_okD(1,2)[OF ok r(1) rL] by simp_all
        have p1: "hs1 ! ?r = int i" "RC hs1 i ?m" "LC hs1 ?r (Suc ?m)"
          using po1 r by (simp_all add: bt_post_def min_def max_def)
        have f2: "2 * dist_nat ?r j + (if True then 1 else 0) \<le> fuel"
          using fu' r lt by (auto simp add: dist_nat_def)
        obtain hs2 where b2: "backtrack fuel n p_i' p_c' hs1 ?r j True = Some (Inr hs2)"
          and fr2: "bt_frame hs1 hs2 ?r j" and po2: "bt_post p_i' hs2 ?r j True"
          using Suc.IH[OF _ rL jL _ f2, of hs1] fr1'(1) len by auto
        have fr2': "length hs2 = length hs1" "\<And>p. \<not> (?r < p \<and> p \<le> j) \<Longrightarrow> hs2 ! p = hs1 ! p"
          using bt_frameD_right[OF fr2 r(2)] by simp_all
        have p2: "RC hs2 ?r j" using po2 r by (simp add: bt_post_def)
        have res: "backtrack (Suc fuel) n p_i' p_c' heads i j c = Some (Inr hs2)"
          using ne inr c b1 b2 by (simp add: Let_def)
        have frame: "bt_frame heads hs2 i j"
        proof (rule bt_frameI_right)
          show "length hs2 = length heads" using fr1'(1) fr2'(1) by simp
          show "i \<le> j" using lt by simp
          fix p assume "\<not> (i < p \<and> p \<le> j)"
          then have "\<not> (?r < p \<and> p \<le> j)" "\<not> (i < p \<and> p \<le> ?r)" using r by auto
          then show "hs2 ! p = heads ! p" using fr1'(2) fr2'(2) by simp
        qed
        have d: "hs2 ! ?r = int i" using fr2'(2)[of ?r] p1(1) by simp
        have a: "RC hs2 i ?m" by (rule RC_LC_cong(1)[OF p1(2)]) (use fr2'(2) m in auto)
        have b: "LC hs2 ?r (Suc ?m)" by (rule RC_LC_cong(2)[OF p1(3)]) (use fr2'(2) m in auto)
        have "RC hs2 i j" by (rule RC_step[OF m(1) m(2) r(2) d a b p2])
        then have "bt_post p_i' hs2 i j c" using c lt by (simp add: bt_post_def)
        then show ?thesis using res frame by blast
      next
        case nlt: False
        then have gt: "j < i" using ne by simp
        let ?r = "p_c' i j"
        have r: "j \<le> ?r" "?r < i" using ptr_okD(7,8)[OF ok gt iL] by simp_all
        have rL: "?r \<le> L" using r iL by simp
        have f1: "2 * dist_nat i ?r + (if False then 1 else 0) \<le> fuel"
          using fu' r gt by (auto simp add: dist_nat_def)
        obtain hs1 where b1: "backtrack fuel n p_i' p_c' heads i ?r False = Some (Inr hs1)"
          and fr1: "bt_frame heads hs1 i ?r" and po1: "bt_post p_i' hs1 i ?r False"
          using Suc.IH[OF len iL rL _ f1] r by auto
        have fr1': "length hs1 = length heads" "\<And>p. \<not> (?r \<le> p \<and> p < i) \<Longrightarrow> hs1 ! p = heads ! p"
          using bt_frameD_left[OF fr1 r(2)] by simp_all
        let ?m = "p_i' i ?r"
        have m: "?r \<le> ?m" "?m < i" using ptr_okD(3,4)[OF ok r(2) iL] by simp_all
        have p1: "hs1 ! ?r = int i" "RC hs1 ?r ?m" "LC hs1 i (Suc ?m)"
          using po1 r by (simp_all add: bt_post_def min_def max_def)
        have f2: "2 * dist_nat ?r j + (if True then 1 else 0) \<le> fuel"
          using fu' r gt by (auto simp add: dist_nat_def)
        obtain hs2 where b2: "backtrack fuel n p_i' p_c' hs1 ?r j True = Some (Inr hs2)"
          and fr2: "bt_frame hs1 hs2 ?r j" and po2: "bt_post p_i' hs2 ?r j True"
          using Suc.IH[OF _ rL jL _ f2, of hs1] fr1'(1) len by auto
        have fr2': "length hs2 = length hs1" "\<And>p. \<not> (j \<le> p \<and> p < ?r) \<Longrightarrow> hs2 ! p = hs1 ! p"
          using fr2 r(1) by (auto simp: bt_frame_def split: if_splits)
        have p2: "LC hs2 ?r j" using po2 r(1) by (cases "?r = j") (simp_all add: bt_post_def LC_refl)
        have res: "backtrack (Suc fuel) n p_i' p_c' heads i j c = Some (Inr hs2)"
          using ne inr c b1 b2 by (simp add: Let_def)
        have frame: "bt_frame heads hs2 i j"
        proof (rule bt_frameI_left)
          show "length hs2 = length heads" using fr1'(1) fr2'(1) by simp
          show "j < i" by (rule gt)
          fix p assume "\<not> (j \<le> p \<and> p < i)"
          then have "\<not> (j \<le> p \<and> p < ?r)" "\<not> (?r \<le> p \<and> p < i)" using r by auto
          then show "hs2 ! p = heads ! p" using fr1'(2) fr2'(2) by simp
        qed
        have d: "hs2 ! ?r = int i" using fr2'(2)[of ?r] p1(1) by simp
        have a: "RC hs2 ?r ?m" by (rule RC_LC_cong(1)[OF p1(2)]) (use fr2'(2) m in auto)
        have b: "LC hs2 i (Suc ?m)" by (rule RC_LC_cong(2)[OF p1(3)]) (use fr2'(2) m in auto)
        have "LC hs2 i j" by (rule LC_step[OF r(1) m(1) m(2) d p2 a b])
        then have "bt_post p_i' hs2 i j c" using c gt by (simp add: bt_post_def)
        then show ?thesis using res frame by blast
      qed
    next
      case nc: False
      have fu': "2 * dist_nat i j \<le> Suc fuel" using fu nc by simp
      have jlen: "\<not> length heads \<le> j" using len jL by simp
      let ?r = "p_i' i j"
      let ?h1 = "heads[j := int i]"
      have len1: "length ?h1 = Suc L" using len by simp
      show ?thesis
      proof (cases "i < j")
        case lt: True
        have r: "i \<le> ?r" "?r < j" using ptr_okD(1,2)[OF ok lt jL] by simp_all
        have rL: "?r \<le> L" "Suc ?r \<le> L" using r jL by simp_all
        have f1: "2 * dist_nat i ?r + (if True then 1 else 0) \<le> fuel"
          using fu' r lt by (auto simp add: dist_nat_def)
        obtain hs1 where b1: "backtrack fuel n p_i' p_c' ?h1 i ?r True = Some (Inr hs1)"
          and fr1: "bt_frame ?h1 hs1 i ?r" and po1: "bt_post p_i' hs1 i ?r True"
          using Suc.IH[OF len1 iL rL(1) _ f1] by auto
        have fr1': "length hs1 = length ?h1" "\<And>p. \<not> (i < p \<and> p \<le> ?r) \<Longrightarrow> hs1 ! p = ?h1 ! p"
          using bt_frameD_right[OF fr1 r(1)] by simp_all
        have p1: "RC hs1 i ?r" using po1 r by (simp add: bt_post_def)
        have f2: "2 * dist_nat j (Suc ?r) + (if True then 1 else 0) \<le> fuel"
          using fu' r lt by (auto simp add: dist_nat_def)
        obtain hs2 where b2: "backtrack fuel n p_i' p_c' hs1 j (Suc ?r) True = Some (Inr hs2)"
          and fr2: "bt_frame hs1 hs2 j (Suc ?r)" and po2: "bt_post p_i' hs2 j (Suc ?r) True"
          using Suc.IH[OF _ jL rL(2) _ f2, of hs1] fr1'(1) len1 by auto
        have fr2': "length hs2 = length hs1" "\<And>p. \<not> (Suc ?r \<le> p \<and> p < j) \<Longrightarrow> hs2 ! p = hs1 ! p"
          using fr2 r(2) by (auto simp: bt_frame_def split: if_splits)
        have p2: "LC hs2 j (Suc ?r)"
          using po2 r(2) by (cases "j = Suc ?r") (simp_all add: bt_post_def LC_refl)
        have res: "backtrack (Suc fuel) n p_i' p_c' heads i j c = Some (Inr hs2)"
          using ne inr nc jlen lt b1 b2 by (simp add: Let_def min_def max_def)
        have frame: "bt_frame heads hs2 i j"
        proof (rule bt_frameI_right)
          show "length hs2 = length heads" using fr1'(1) fr2'(1) by simp
          show "i \<le> j" using lt by simp
          fix p assume a: "\<not> (i < p \<and> p \<le> j)"
          then have "\<not> (Suc ?r \<le> p \<and> p < j)" "\<not> (i < p \<and> p \<le> ?r)" "p \<noteq> j" using r lt by auto
          then show "hs2 ! p = heads ! p" using fr1'(2) fr2'(2) by simp
        qed
        have d: "hs2 ! j = int i" using fr2'(2)[of j] fr1'(2)[of j] r jlen by simp
        have a: "RC hs2 i ?r" by (rule RC_LC_cong(1)[OF p1]) (use fr2'(2) in auto)
        have "bt_post p_i' hs2 i j c" using nc lt d a p2 by (simp add: bt_post_def min_def max_def)
        then show ?thesis using res frame by blast
      next
        case nlt: False
        then have gt: "j < i" using ne by simp
        have r: "j \<le> ?r" "?r < i" using ptr_okD(3,4)[OF ok gt iL] by simp_all
        have rL: "?r \<le> L" "Suc ?r \<le> L" using r iL by simp_all
        have f1: "2 * dist_nat j ?r + (if True then 1 else 0) \<le> fuel"
          using fu' r gt by (auto simp add: dist_nat_def)
        obtain hs1 where b1: "backtrack fuel n p_i' p_c' ?h1 j ?r True = Some (Inr hs1)"
          and fr1: "bt_frame ?h1 hs1 j ?r" and po1: "bt_post p_i' hs1 j ?r True"
          using Suc.IH[OF len1 jL rL(1) _ f1] by auto
        have fr1': "length hs1 = length ?h1" "\<And>p. \<not> (j < p \<and> p \<le> ?r) \<Longrightarrow> hs1 ! p = ?h1 ! p"
          using bt_frameD_right[OF fr1 r(1)] by simp_all
        have p1: "RC hs1 j ?r" using po1 r by (simp add: bt_post_def)
        have f2: "2 * dist_nat i (Suc ?r) + (if True then 1 else 0) \<le> fuel"
          using fu' r gt by (auto simp add: dist_nat_def)
        obtain hs2 where b2: "backtrack fuel n p_i' p_c' hs1 i (Suc ?r) True = Some (Inr hs2)"
          and fr2: "bt_frame hs1 hs2 i (Suc ?r)" and po2: "bt_post p_i' hs2 i (Suc ?r) True"
          using Suc.IH[OF _ iL rL(2) _ f2, of hs1] fr1'(1) len1 by auto
        have fr2': "length hs2 = length hs1" "\<And>p. \<not> (Suc ?r \<le> p \<and> p < i) \<Longrightarrow> hs2 ! p = hs1 ! p"
          using fr2 r(2) by (auto simp: bt_frame_def split: if_splits)
        have p2: "LC hs2 i (Suc ?r)"
          using po2 r(2) by (cases "i = Suc ?r") (simp_all add: bt_post_def LC_refl)
        have res: "backtrack (Suc fuel) n p_i' p_c' heads i j c = Some (Inr hs2)"
          using ne inr nc jlen gt b1 b2 by (simp add: Let_def min_def max_def)
        have frame: "bt_frame heads hs2 i j"
        proof (rule bt_frameI_left)
          show "length hs2 = length heads" using fr1'(1) fr2'(1) by simp
          show "j < i" by (rule gt)
          fix p assume a: "\<not> (j \<le> p \<and> p < i)"
          then have "\<not> (Suc ?r \<le> p \<and> p < i)" "\<not> (j < p \<and> p \<le> ?r)" "p \<noteq> j" using r gt by auto
          then show "hs2 ! p = heads ! p" using fr1'(2) fr2'(2) by simp
        qed
        have d: "hs2 ! j = int i" using fr2'(2)[of j] fr1'(2)[of j] r jlen by simp
        have a: "RC hs2 j ?r" by (rule RC_LC_cong(1)[OF p1]) (use fr2'(2) in auto)
        have "bt_post p_i' hs2 i j c" using nc gt d a p2 by (simp add: bt_post_def min_def max_def)
        then show ?thesis using res frame by blast
      qed
    qed
  qed
qed

lemma filter_upt_snoc:
  assumes "1 \<le> r" "r < n" "\<forall>c. Q c \<longrightarrow> c < r"
  shows "filter (\<lambda>c. Q c \<or> c = r) [1..<n] = filter Q [1..<n] @ [r]"
proof -
  have sp: "[1..<n] = [1..<r] @ r # [Suc r..<n]"
  proof -
    have "[1..<r + (n - r)] = [1..<r] @ [r..<r + (n - r)]" using assms(1) by (rule upt_add_eq_append)
    moreover have "[r..<n] = r # [Suc r..<n]" using assms(2) by (rule upt_conv_Cons)
    ultimately show ?thesis using assms(2) by simp
  qed
  have a: "filter (\<lambda>c. Q c \<or> c = r) [1..<r] = filter Q [1..<r]"
    by (rule filter_cong) auto
  have b: "filter (\<lambda>c. Q c \<or> c = r) [Suc r..<n] = []" "filter Q [Suc r..<n] = []"
    using assms(3) by (auto simp: filter_empty_conv)
  have c: "\<not> Q r" using assms(3) by auto
  show ?thesis unfolding sp using a b c by simp
qed

lemma filter_upt_cons:
  assumes "1 \<le> r" "r < n" "\<forall>c. Q c \<longrightarrow> r < c"
  shows "filter (\<lambda>c. c = r \<or> Q c) [1..<n] = r # filter Q [1..<n]"
proof -
  have sp: "[1..<n] = [1..<r] @ r # [Suc r..<n]"
  proof -
    have "[1..<r + (n - r)] = [1..<r] @ [r..<r + (n - r)]" using assms(1) by (rule upt_add_eq_append)
    moreover have "[r..<n] = r # [Suc r..<n]" using assms(2) by (rule upt_conv_Cons)
    ultimately show ?thesis using assms(2) by simp
  qed
  have a: "filter (\<lambda>c. c = r \<or> Q c) [Suc r..<n] = filter Q [Suc r..<n]"
    by (rule filter_cong) auto
  have b: "filter (\<lambda>c. c = r \<or> Q c) [1..<r] = []" "filter Q [1..<r] = []"
    using assms(3) by (auto simp: filter_empty_conv)
  have c: "\<not> Q r" using assms(3) by auto
  show ?thesis unfolding sp using a b c by simp
qed

lemma spec_inorder_list_append:
  "spec_inorder_list fuel lf rt seen (as @ bs) =
     (case spec_inorder_list fuel lf rt seen as of
        None \<Rightarrow> None
      | Some (xs, seen1) \<Rightarrow>
          (case spec_inorder_list fuel lf rt seen1 bs of
             None \<Rightarrow> None
           | Some (ys, seen2) \<Rightarrow> Some (xs @ ys, seen2)))"
proof (induction as arbitrary: seen)
  case Nil
  show ?case by (auto split: option.splits)
next
  case (Cons a as)
  show ?case by (auto simp: Cons.IH split: option.splits)
qed

lemma is_dep_nonneg:
  "0 \<le> hs ! c \<Longrightarrow> p < length hs \<Longrightarrow> is_dep hs p c = (hs ! c = int p)"
  by (auto simp: is_dep_def py_index_def)

lemma RC_LC_closed:
  "RC hs h e \<Longrightarrow> h \<le> e \<and> (\<forall>c. h < c \<and> c \<le> e \<longrightarrow> int h \<le> hs ! c \<and> hs ! c \<le> int e)"
  "LC hs h e \<Longrightarrow> e \<le> h \<and> (\<forall>c. e \<le> c \<and> c < h \<longrightarrow> int e \<le> hs ! c \<and> hs ! c \<le> int h)"
proof (induction rule: RC_LC.inducts)
  case (RC_refl hs h)
  show ?case by simp
next
  case (RC_step h m r e hs)
  show ?case
  proof (intro conjI allI impI)
    show "h \<le> e" using RC_step.hyps by simp
    fix c assume c: "h < c \<and> c \<le> e"
    consider "c \<le> m" | "Suc m \<le> c \<and> c < r" | "c = r" | "r < c" by linarith
    then show "int h \<le> hs ! c" "hs ! c \<le> int e"
      using c RC_step.IH RC_step.hyps(1,2,3,4) by (cases; force)+
  qed
next
  case (LC_refl hs h)
  show ?case by simp
next
  case (LC_step e r m h hs)
  show ?case
  proof (intro conjI allI impI)
    show "e \<le> h" using LC_step.hyps by simp
    fix c assume c: "e \<le> c \<and> c < h"
    consider "c < r" | "c = r" | "r < c \<and> c \<le> m" | "Suc m \<le> c" by linarith
    then show "int e \<le> hs ! c" "hs ! c \<le> int h"
      using c LC_step.IH LC_step.hyps(1,2,3,4) by (cases; force)+
  qed
qed

subsection \<open>The traversal of a derived span\<close>

lemma spec_rights_filter:
  assumes "nonneg_heads hs" "p < length hs"
  shows "filter P (spec_rights hs p) = filter (\<lambda>c. (hs ! c = int p \<and> p < c) \<and> P c) [1..<length hs]"
proof -
  have "spec_rights hs p = filter (\<lambda>c. hs ! c = int p \<and> p < c) [1..<length hs]"
    unfolding spec_rights_def
    by (rule filter_cong) (use assms in \<open>auto simp: is_dep_nonneg nonneg_heads_def\<close>)
  then show ?thesis by simp
qed

lemma spec_lefts_filter:
  assumes "nonneg_heads hs" "p < length hs"
  shows "filter P (spec_lefts hs p) = filter (\<lambda>c. (hs ! c = int p \<and> c \<le> p) \<and> P c) [1..<length hs]"
proof -
  have "spec_lefts hs p = filter (\<lambda>c. hs ! c = int p \<and> c \<le> p) [1..<length hs]"
    unfolding spec_lefts_def
    by (rule filter_cong) (use assms in \<open>auto simp: is_dep_nonneg nonneg_heads_def\<close>)
  then show ?thesis by simp
qed

lemma filter_id_on: "(\<And>c. c \<in> set xs \<Longrightarrow> P c) \<Longrightarrow> filter P xs = xs"
  by (induction xs) auto

lemma mem_spec_rights:
  assumes "nonneg_heads hs" "p < length hs" "c \<in> set (spec_rights hs p)"
  shows "1 \<le> c" "c < length hs" "hs ! c = int p" "p < c"
  using assms(3) spec_rights_filter[OF assms(1,2), of "\<lambda>c. True"] by auto

lemma mem_spec_lefts:
  assumes "nonneg_heads hs" "p < length hs" "c \<in> set (spec_lefts hs p)"
  shows "1 \<le> c" "c < length hs" "hs ! c = int p" "c \<le> p"
  using assms(3) spec_lefts_filter[OF assms(1,2), of "\<lambda>c. True"] by auto

lemma spec_inorder_node:
  assumes "r \<notin> seen"
    and "spec_inorder_list f lf rt (insert r seen) (lf r) = Some (ls, s1)"
    and "spec_inorder_list f lf rt s1 (rt r) = Some (rs, s2)"
  shows "spec_inorder (Suc f) lf rt seen r = Some (ls @ [r] @ rs, s2)"
  using assms by simp

lemma upt_glue3: "a \<le> r \<Longrightarrow> r < b \<Longrightarrow> [a..<r] @ [r] @ [Suc r..<b] = [a..<b]"
proof -
  assume a: "a \<le> r" "r < b"
  have "[a..<r + (b - r)] = [a..<r] @ [r..<r + (b - r)]" using a(1) by (rule upt_add_eq_append)
  moreover have "[r..<b] = r # [Suc r..<b]" using a(2) by (rule upt_conv_Cons)
  ultimately show ?thesis using a(2) by simp
qed

lemma upt_glue2: "a \<le> m \<Longrightarrow> m \<le> b \<Longrightarrow> [a..<m] @ [m..<b] = [a..<b]"
  using upt_add_eq_append[of a m "b - m"] by simp

lemma span_traversal:
  "RC hs h e \<Longrightarrow> nonneg_heads hs \<Longrightarrow> e < length hs \<Longrightarrow> outR hs h e \<Longrightarrow> e - h \<le> fuel \<Longrightarrow>
     seen \<inter> {h<..e} = {} \<Longrightarrow>
     spec_inorder_list fuel (spec_lefts hs) (spec_rights hs) seen
         (filter (\<lambda>c. c \<le> e) (spec_rights hs h)) =
       Some ([Suc h..<Suc e], seen \<union> {h<..e})"
  "LC hs h e \<Longrightarrow> nonneg_heads hs \<Longrightarrow> h < length hs \<Longrightarrow> 1 \<le> e \<Longrightarrow> outL hs h e \<Longrightarrow> h - e \<le> fuel \<Longrightarrow>
     seen \<inter> {e..<h} = {} \<Longrightarrow>
     spec_inorder_list fuel (spec_lefts hs) (spec_rights hs) seen
         (filter (\<lambda>c. e \<le> c \<and> c < h) (spec_lefts hs h)) =
       Some ([e..<h], seen \<union> {e..<h})"
proof (induction arbitrary: fuel seen and fuel seen rule: RC_LC.inducts)
  case (RC_refl hs h)
  have "filter (\<lambda>c. c \<le> h) (spec_rights hs h) = []"
    unfolding spec_rights_filter[OF RC_refl(1) RC_refl(2)] by (auto simp: filter_empty_conv)
  then show ?case by simp
next
  case (LC_refl hs h)
  have "filter (\<lambda>c. h \<le> c \<and> c < h) (spec_lefts hs h) = []"
    by (auto simp: filter_empty_conv)
  then show ?case by simp
next
  case (RC_step h m r e hs)
  note hm = RC_step.hyps(1) and mr = RC_step.hyps(2) and re = RC_step.hyps(3) and hsr = RC_step.hyps(4)
  note nn = RC_step.prems(1) and en = RC_step.prems(2) and oR = RC_step.prems(3)
    and fu = RC_step.prems(4) and dj = RC_step.prems(5)
  note cl1 = RC_LC_closed(1)[OF RC_step.hyps(5)] and cl2 = RC_LC_closed(2)[OF RC_step.hyps(6)]
    and cl3 = RC_LC_closed(1)[OF RC_step.hyps(7)]
  let ?lf = "spec_lefts hs" and ?rt = "spec_rights hs"
  have hn: "h < length hs" and rn: "r < length hs" and mn: "m < length hs"
    using hm mr re en by simp_all
  obtain f where f: "fuel = Suc f" using fu hm mr re by (cases fuel) auto
  have oR1: "outR hs h m" unfolding outR_def
  proof (intro allI impI)
    fix c assume c: "1 \<le> c \<and> c < length hs \<and> \<not> (h < c \<and> c \<le> m)"
    show "\<not> (int h < hs ! c \<and> hs ! c \<le> int m)"
    proof (cases "h < c \<and> c \<le> e")
      case False
      then have "\<not> (int h < hs ! c \<and> hs ! c \<le> int e)" using oR c unfolding outR_def by blast
      then show ?thesis using mr re by linarith
    next
      case True
      then consider "Suc m \<le> c \<and> c < r" | "c = r" | "r < c \<and> c \<le> e" using c by linarith
      then show ?thesis
      proof cases
        case 1
        then have "int (Suc m) \<le> hs ! c" using cl2 by blast
        then show ?thesis by linarith
      next
        case 2
        then show ?thesis using hsr by simp
      next
        case 3
        then have "int r \<le> hs ! c" using cl3 by blast
        then show ?thesis using mr by linarith
      qed
    qed
  qed
  have oL2: "outL hs r (Suc m)" unfolding outL_def
  proof (intro allI impI)
    fix c assume c: "1 \<le> c \<and> c < length hs \<and> \<not> (Suc m \<le> c \<and> c < r)"
    show "\<not> (int (Suc m) \<le> hs ! c \<and> hs ! c < int r)"
    proof (cases "h < c \<and> c \<le> e")
      case False
      then have "\<not> (int h < hs ! c \<and> hs ! c \<le> int e)" using oR c unfolding outR_def by blast
      then show ?thesis using hm re by linarith
    next
      case True
      then consider "c \<le> m" | "c = r" | "r < c \<and> c \<le> e" using c by linarith
      then show ?thesis
      proof cases
        case 1
        then have "hs ! c \<le> int m" using cl1 True by blast
        then show ?thesis by linarith
      next
        case 2
        then show ?thesis using hsr hm by simp
      next
        case 3
        then have "int r \<le> hs ! c" using cl3 by blast
        then show ?thesis by linarith
      qed
    qed
  qed
  have oR3: "outR hs r e" unfolding outR_def
  proof (intro allI impI)
    fix c assume c: "1 \<le> c \<and> c < length hs \<and> \<not> (r < c \<and> c \<le> e)"
    show "\<not> (int r < hs ! c \<and> hs ! c \<le> int e)"
    proof (cases "h < c \<and> c \<le> e")
      case False
      then have "\<not> (int h < hs ! c \<and> hs ! c \<le> int e)" using oR c unfolding outR_def by blast
      then show ?thesis using hm mr by linarith
    next
      case True
      then consider "c \<le> m" | "Suc m \<le> c \<and> c < r" | "c = r" using c by linarith
      then show ?thesis
      proof cases
        case 1
        then have "hs ! c \<le> int m" using cl1 True by blast
        then show ?thesis using mr by linarith
      next
        case 2
        then have "hs ! c \<le> int r" using cl2 by blast
        then show ?thesis by linarith
      next
        case 3
        then show ?thesis using hsr hm mr by simp
      qed
    qed
  qed
  \<comment> \<open>the right dependents of \<open>h\<close> up to \<open>e\<close> are those up to \<open>m\<close>, then \<open>r\<close>\<close>
  have split: "filter (\<lambda>c. c \<le> e) (?rt h) = filter (\<lambda>c. c \<le> m) (?rt h) @ [r]"
  proof -
    let ?Q = "\<lambda>c. (hs ! c = int h \<and> h < c) \<and> c \<le> m"
    have "filter (\<lambda>c. (hs ! c = int h \<and> h < c) \<and> c \<le> e) [1..<length hs] =
          filter (\<lambda>c. ?Q c \<or> c = r) [1..<length hs]"
    proof (rule filter_cong[OF refl])
      fix c assume "c \<in> set [1..<length hs]"
      show "((hs ! c = int h \<and> h < c) \<and> c \<le> e) = (?Q c \<or> c = r)"
      proof
        assume a: "(hs ! c = int h \<and> h < c) \<and> c \<le> e"
        consider "c \<le> m" | "Suc m \<le> c \<and> c < r" | "c = r" | "r < c \<and> c \<le> e" using a by linarith
        then show "?Q c \<or> c = r"
        proof cases
          case 1 then show ?thesis using a by simp
        next
          case 2
          then have "int (Suc m) \<le> hs ! c" using cl2 by blast
          then show ?thesis using a hm by simp
        next
          case 3 then show ?thesis by simp
        next
          case 4
          then have "int r \<le> hs ! c" using cl3 by blast
          then show ?thesis using a hm mr by simp
        qed
      next
        assume "?Q c \<or> c = r"
        then show "(hs ! c = int h \<and> h < c) \<and> c \<le> e" using hsr hm mr re by auto
      qed
    qed
    also have "\<dots> = filter ?Q [1..<length hs] @ [r]"
      by (rule filter_upt_snoc) (use hm mr rn in auto)
    finally show ?thesis
      unfolding spec_rights_filter[OF nn hn] .
  qed
  \<comment> \<open>all dependents of \<open>r\<close> lie inside its two spans\<close>
  have lfr: "filter (\<lambda>c. Suc m \<le> c \<and> c < r) (?lf r) = ?lf r"
  proof (rule filter_id_on)
    fix c assume c: "c \<in> set (?lf r)"
    note mc = mem_spec_lefts[OF nn rn c]
    have "c \<noteq> r" using mc(3) hsr hm mr by auto
    moreover have "\<not> c \<le> m"
    proof
      assume cm: "c \<le> m"
      show False
      proof (cases "h < c")
        case True
        then have "hs ! c \<le> int m" using cl1 cm by blast
        then show False using mc(3) mr by simp
      next
        case False
        then have "\<not> (int h < hs ! c \<and> hs ! c \<le> int e)"
          using oR mc(1,2) unfolding outR_def by blast
        then show False using mc(3) hm mr re by simp
      qed
    qed
    ultimately show "Suc m \<le> c \<and> c < r" using mc(4) by simp
  qed
  have rtr: "filter (\<lambda>c. c \<le> e) (?rt r) = ?rt r"
  proof (rule filter_id_on)
    fix c assume c: "c \<in> set (?rt r)"
    note mc = mem_spec_rights[OF nn rn c]
    show "c \<le> e"
    proof (rule ccontr)
      assume "\<not> c \<le> e"
      then have "\<not> (int h < hs ! c \<and> hs ! c \<le> int e)"
        using oR mc(1,2) unfolding outR_def by blast
      then show False using mc(3) hm mr re by simp
    qed
  qed
  \<comment> \<open>the three traversals\<close>
  have dj1: "seen \<inter> {h<..m} = {}" using dj mr re by auto
  have t1: "spec_inorder_list fuel ?lf ?rt seen (filter (\<lambda>c. c \<le> m) (?rt h)) =
      Some ([Suc h..<Suc m], seen \<union> {h<..m})"
    by (rule RC_step.IH(1)[OF nn mn oR1 _ dj1]) (use fu mr re in simp)
  let ?s1 = "seen \<union> {h<..m}"
  have rs1: "r \<notin> ?s1" using dj hm mr re by auto
  have dj2: "insert r ?s1 \<inter> {Suc m..<r} = {}" using dj hm mr re by auto
  have t2f: "spec_inorder_list f ?lf ?rt (insert r ?s1) (filter (\<lambda>c. Suc m \<le> c \<and> c < r) (?lf r)) =
      Some ([Suc m..<r], insert r ?s1 \<union> {Suc m..<r})"
    by (rule RC_step.IH(2)[OF nn rn _ oL2 _ dj2]) (use fu f hm mr re in simp_all)
  have t2: "spec_inorder_list f ?lf ?rt (insert r ?s1) (?lf r) =
      Some ([Suc m..<r], insert r ?s1 \<union> {Suc m..<r})"
    using t2f unfolding lfr .
  let ?s2 = "insert r ?s1 \<union> {Suc m..<r}"
  have dj3: "?s2 \<inter> {r<..e} = {}" using dj hm mr re by auto
  have t3f: "spec_inorder_list f ?lf ?rt ?s2 (filter (\<lambda>c. c \<le> e) (?rt r)) =
      Some ([Suc r..<Suc e], ?s2 \<union> {r<..e})"
    by (rule RC_step.IH(3)[OF nn en oR3 _ dj3]) (use fu f hm mr re in simp)
  have t3: "spec_inorder_list f ?lf ?rt ?s2 (?rt r) = Some ([Suc r..<Suc e], ?s2 \<union> {r<..e})"
    using t3f unfolding rtr .
  have node: "spec_inorder fuel ?lf ?rt ?s1 r =
      Some ([Suc m..<r] @ [r] @ [Suc r..<Suc e], ?s2 \<union> {r<..e})"
    unfolding f by (rule spec_inorder_node[OF rs1 t2 t3])
  have glue: "[Suc h..<Suc m] @ ([Suc m..<r] @ [r] @ [Suc r..<Suc e]) = [Suc h..<Suc e]"
    using upt_glue3[of "Suc m" r "Suc e"] upt_glue2[of "Suc h" "Suc m" "Suc e"] hm mr re by simp
  have sets: "?s2 \<union> {r<..e} = seen \<union> {h<..e}" using hm mr re by auto
  show ?case
    unfolding split spec_inorder_list_append t1
    using node glue sets by simp
next
  case (LC_step e r m h hs)
  note er = LC_step.hyps(1) and rm = LC_step.hyps(2) and mh = LC_step.hyps(3) and hsr = LC_step.hyps(4)
  note nn = LC_step.prems(1) and hn = LC_step.prems(2) and e1 = LC_step.prems(3)
    and oL = LC_step.prems(4) and fu = LC_step.prems(5) and dj = LC_step.prems(6)
  note cl1 = RC_LC_closed(2)[OF LC_step.hyps(5)] and cl2 = RC_LC_closed(1)[OF LC_step.hyps(6)]
    and cl3 = RC_LC_closed(2)[OF LC_step.hyps(7)]
  let ?lf = "spec_lefts hs" and ?rt = "spec_rights hs"
  have rn: "r < length hs" and mn: "m < length hs" using er rm mh hn by simp_all
  obtain f where f: "fuel = Suc f" using fu er rm mh by (cases fuel) auto
  have oL1: "outL hs r e" unfolding outL_def
  proof (intro allI impI)
    fix c assume c: "1 \<le> c \<and> c < length hs \<and> \<not> (e \<le> c \<and> c < r)"
    show "\<not> (int e \<le> hs ! c \<and> hs ! c < int r)"
    proof (cases "e \<le> c \<and> c < h")
      case False
      then have "\<not> (int e \<le> hs ! c \<and> hs ! c < int h)" using oL c unfolding outL_def by blast
      then show ?thesis using rm mh by linarith
    next
      case True
      then consider "c = r" | "r < c \<and> c \<le> m" | "Suc m \<le> c \<and> c < h" using c by linarith
      then show ?thesis
      proof cases
        case 1 then show ?thesis using hsr rm mh by simp
      next
        case 2
        then have "int r \<le> hs ! c" using cl2 by blast
        then show ?thesis by linarith
      next
        case 3
        then have "int (Suc m) \<le> hs ! c" using cl3 by blast
        then show ?thesis using rm by linarith
      qed
    qed
  qed
  have oR2: "outR hs r m" unfolding outR_def
  proof (intro allI impI)
    fix c assume c: "1 \<le> c \<and> c < length hs \<and> \<not> (r < c \<and> c \<le> m)"
    show "\<not> (int r < hs ! c \<and> hs ! c \<le> int m)"
    proof (cases "e \<le> c \<and> c < h")
      case False
      then have "\<not> (int e \<le> hs ! c \<and> hs ! c < int h)" using oL c unfolding outL_def by blast
      then show ?thesis using er mh by linarith
    next
      case True
      then consider "c < r" | "c = r" | "Suc m \<le> c \<and> c < h" using c by linarith
      then show ?thesis
      proof cases
        case 1
        then have "hs ! c \<le> int r" using cl1 True by blast
        then show ?thesis by linarith
      next
        case 2 then show ?thesis using hsr mh by simp
      next
        case 3
        then have "int (Suc m) \<le> hs ! c" using cl3 by blast
        then show ?thesis by linarith
      qed
    qed
  qed
  have oL3: "outL hs h (Suc m)" unfolding outL_def
  proof (intro allI impI)
    fix c assume c: "1 \<le> c \<and> c < length hs \<and> \<not> (Suc m \<le> c \<and> c < h)"
    show "\<not> (int (Suc m) \<le> hs ! c \<and> hs ! c < int h)"
    proof (cases "e \<le> c \<and> c < h")
      case False
      then have "\<not> (int e \<le> hs ! c \<and> hs ! c < int h)" using oL c unfolding outL_def by blast
      then show ?thesis using er rm by linarith
    next
      case True
      then consider "c < r" | "c = r" | "r < c \<and> c \<le> m" using c by linarith
      then show ?thesis
      proof cases
        case 1
        then have "hs ! c \<le> int r" using cl1 True by blast
        then show ?thesis using rm by linarith
      next
        case 2 then show ?thesis using hsr by simp
      next
        case 3
        then have "hs ! c \<le> int m" using cl2 by blast
        then show ?thesis by linarith
      qed
    qed
  qed
  have split: "filter (\<lambda>c. e \<le> c \<and> c < h) (?lf h) =
      [r] @ filter (\<lambda>c. Suc m \<le> c \<and> c < h) (?lf h)"
  proof -
    let ?Q = "\<lambda>c. (hs ! c = int h \<and> c \<le> h) \<and> (Suc m \<le> c \<and> c < h)"
    have "filter (\<lambda>c. (hs ! c = int h \<and> c \<le> h) \<and> (e \<le> c \<and> c < h)) [1..<length hs] =
          filter (\<lambda>c. c = r \<or> ?Q c) [1..<length hs]"
    proof (rule filter_cong[OF refl])
      fix c assume "c \<in> set [1..<length hs]"
      show "((hs ! c = int h \<and> c \<le> h) \<and> (e \<le> c \<and> c < h)) = (c = r \<or> ?Q c)"
      proof
        assume a: "(hs ! c = int h \<and> c \<le> h) \<and> (e \<le> c \<and> c < h)"
        consider "c < r" | "c = r" | "r < c \<and> c \<le> m" | "Suc m \<le> c" using a by linarith
        then show "c = r \<or> ?Q c"
        proof cases
          case 1
          then have "hs ! c \<le> int r" using cl1 a by blast
          then show ?thesis using a rm mh by simp
        next
          case 2 then show ?thesis by simp
        next
          case 3
          then have "hs ! c \<le> int m" using cl2 by blast
          then show ?thesis using a mh by simp
        next
          case 4 then show ?thesis using a by simp
        qed
      next
        assume "c = r \<or> ?Q c"
        then show "(hs ! c = int h \<and> c \<le> h) \<and> (e \<le> c \<and> c < h)" using hsr er rm mh by auto
      qed
    qed
    also have "\<dots> = r # filter ?Q [1..<length hs]"
      by (rule filter_upt_cons) (use e1 er rm rn in auto)
    finally show ?thesis
      unfolding spec_lefts_filter[OF nn hn] by simp
  qed
  have lfr: "filter (\<lambda>c. e \<le> c \<and> c < r) (?lf r) = ?lf r"
  proof (rule filter_id_on)
    fix c assume c: "c \<in> set (?lf r)"
    note mc = mem_spec_lefts[OF nn rn c]
    have "c \<noteq> r" using mc(3) hsr rm mh by auto
    moreover have "e \<le> c"
    proof (rule ccontr)
      assume "\<not> e \<le> c"
      then have "\<not> (int e \<le> hs ! c \<and> hs ! c < int h)"
        using oL mc(1,2) unfolding outL_def by blast
      then show False using mc(3) er rm mh by simp
    qed
    ultimately show "e \<le> c \<and> c < r" using mc(4) by simp
  qed
  have rtr: "filter (\<lambda>c. c \<le> m) (?rt r) = ?rt r"
  proof (rule filter_id_on)
    fix c assume c: "c \<in> set (?rt r)"
    note mc = mem_spec_rights[OF nn rn c]
    show "c \<le> m"
    proof (rule ccontr)
      assume cm: "\<not> c \<le> m"
      show False
      proof (cases "c < h")
        case True
        then have "int (Suc m) \<le> hs ! c" using cl3 cm by auto
        then show False using mc(3) rm by simp
      next
        case False
        then have "\<not> (int e \<le> hs ! c \<and> hs ! c < int h)"
          using oL mc(1,2) unfolding outL_def by blast
        then show False using mc(3) er rm mh by simp
      qed
    qed
  qed
  have rs: "r \<notin> seen" using dj er rm mh by auto
  have dj1: "insert r seen \<inter> {e..<r} = {}" using dj er rm mh by auto
  have t1f: "spec_inorder_list f ?lf ?rt (insert r seen) (filter (\<lambda>c. e \<le> c \<and> c < r) (?lf r)) =
      Some ([e..<r], insert r seen \<union> {e..<r})"
    by (rule LC_step.IH(1)[OF nn rn e1 oL1 _ dj1]) (use fu f er rm mh in simp)
  have t1: "spec_inorder_list f ?lf ?rt (insert r seen) (?lf r) =
      Some ([e..<r], insert r seen \<union> {e..<r})"
    using t1f unfolding lfr .
  let ?s1 = "insert r seen \<union> {e..<r}"
  have dj2: "?s1 \<inter> {r<..m} = {}" using dj er rm mh by auto
  have t2f: "spec_inorder_list f ?lf ?rt ?s1 (filter (\<lambda>c. c \<le> m) (?rt r)) =
      Some ([Suc r..<Suc m], ?s1 \<union> {r<..m})"
    by (rule LC_step.IH(2)[OF nn mn oR2 _ dj2]) (use fu f er rm mh in simp)
  have t2: "spec_inorder_list f ?lf ?rt ?s1 (?rt r) = Some ([Suc r..<Suc m], ?s1 \<union> {r<..m})"
    using t2f unfolding rtr .
  have node: "spec_inorder fuel ?lf ?rt seen r =
      Some ([e..<r] @ [r] @ [Suc r..<Suc m], ?s1 \<union> {r<..m})"
    unfolding f by (rule spec_inorder_node[OF rs t1 t2])
  let ?s2 = "?s1 \<union> {r<..m}"
  have dj3: "?s2 \<inter> {Suc m..<h} = {}" using dj er rm mh by auto
  have t3: "spec_inorder_list fuel ?lf ?rt ?s2 (filter (\<lambda>c. Suc m \<le> c \<and> c < h) (?lf h)) =
      Some ([Suc m..<h], ?s2 \<union> {Suc m..<h})"
    by (rule LC_step.IH(3)[OF nn hn _ oL3 _ dj3]) (use fu er rm mh in simp_all)
  have glue: "([e..<r] @ [r] @ [Suc r..<Suc m]) @ [Suc m..<h] = [e..<h]"
    using upt_glue3[of e r "Suc m"] upt_glue2[of e "Suc m" h] er rm mh by simp
  have sets: "?s2 \<union> {Suc m..<h} = seen \<union> {e..<h}" using er rm mh by auto
  show ?case
    unfolding split spec_inorder_list_append
    using node t3 glue sets by simp
qed

subsection \<open>The head arrays of the decoder\<close>

lemma derived_tree_accepted:
  assumes len: "length hs = Suc L" and r: "1 \<le> r" "r \<le> L" and h0: "hs ! 0 = 1"
    and hr: "hs ! r = 0" and lc: "LC hs r (Suc 0)" and rc: "RC hs r L" and fu: "Suc L \<le> fuel"
  shows "istree fuel hs = Some (Inr True)"
proof -
  note cl = RC_LC_closed(2)[OF lc] and cr = RC_LC_closed(1)[OF rc]
  have rng: "0 \<le> hs ! c \<and> hs ! c \<le> int L" if cL: "c < Suc L" for c
  proof -
    consider "c = 0" | "Suc 0 \<le> c \<and> c < r" | "c = r" | "r < c \<and> c \<le> L" using cL by linarith
    then show ?thesis
    proof cases
      case 1 then show ?thesis using h0 r by simp
    next
      case 2
      then have "int (Suc 0) \<le> hs ! c \<and> hs ! c \<le> int r" using cl by blast
      then show ?thesis using r by linarith
    next
      case 3 then show ?thesis using hr by simp
    next
      case 4
      then have "int r \<le> hs ! c \<and> hs ! c \<le> int L" using cr by blast
      then show ?thesis by linarith
    qed
  qed
  have nn: "nonneg_heads hs" unfolding nonneg_heads_def using rng len by simp
  have valid: "valid_heads hs" unfolding valid_heads_def
  proof (intro conjI ballI)
    show "hs \<noteq> []" using len by auto
    fix c assume "c \<in> set [1..<length hs]"
    then have "c < Suc L" using len by auto
    then have "0 \<le> hs ! c \<and> hs ! c \<le> int L" by (rule rng)
    then show "py_index (length hs) (hs ! c) \<noteq> None" using len by (simp add: py_index_def)
  qed
  have n0: "0 < length hs" and Ln: "L < length hs" using len by simp_all
  have rc0: "RC hs 0 L"
    by (rule RC_step[of 0 0 r L hs]) (use r hr lc rc in \<open>simp_all add: RC_refl\<close>)
  have oR: "outR hs 0 L" unfolding outR_def using len by auto
  have only: "(hs ! c = 0) = (c = r)" if cm: "c \<in> set [1..<length hs]" for c
  proof
    assume a: "hs ! c = 0"
    show "c = r"
    proof (rule ccontr)
      assume "c \<noteq> r"
      moreover have "Suc 0 \<le> c" "c \<le> L" using cm len by auto
      ultimately consider "Suc 0 \<le> c \<and> c < r" | "r < c \<and> c \<le> L" by linarith
      then show False
      proof cases
        case 1
        then have "int (Suc 0) \<le> hs ! c" using cl by blast
        then show False using a by simp
      next
        case 2
        then have "int r \<le> hs ! c" using cr by blast
        then show False using a r by simp
      qed
    qed
  next
    assume "c = r" then show "hs ! c = 0" using hr by simp
  qed
  have "filter (\<lambda>c. (hs ! c = int 0 \<and> 0 < c) \<and> True) [1..<length hs] =
        filter (\<lambda>c. False \<or> c = r) [1..<length hs]"
    by (rule filter_cong[OF refl]) (use only in auto)
  also have "\<dots> = filter (\<lambda>c. False) [1..<length hs] @ [r]"
    by (rule filter_upt_snoc) (use r len in auto)
  finally have rt0: "spec_rights hs 0 = [r]"
    using spec_rights_filter[OF nn n0, of "\<lambda>c. True"] by simp
  have lf0: "spec_lefts hs 0 = []"
    using spec_lefts_filter[OF nn n0, of "\<lambda>c. True"] by (auto simp: filter_empty_conv)
  obtain f where f: "fuel = Suc f" and fL: "L \<le> f" using fu by (cases fuel) auto
  have "spec_inorder_list f (spec_lefts hs) (spec_rights hs) {0}
          (filter (\<lambda>c. c \<le> L) (spec_rights hs 0)) = Some ([Suc 0..<Suc L], {0} \<union> {0<..L})"
    by (rule span_traversal(1)[OF rc0 nn Ln oR]) (use fL in auto)
  then have t: "spec_inorder_list f (spec_lefts hs) (spec_rights hs) {0} (spec_rights hs 0) =
      Some ([Suc 0..<Suc L], {0} \<union> {0<..L})"
    unfolding rt0 using r by simp
  have t0: "spec_inorder_list f (spec_lefts hs) (spec_rights hs) (insert 0 {}) (spec_lefts hs 0) =
      Some ([], {0})"
    unfolding lf0 by simp
  have "spec_inorder (Suc f) (spec_lefts hs) (spec_rights hs) {} 0 =
      Some ([] @ [0] @ [Suc 0..<Suc L], {0} \<union> {0<..L})"
    by (rule spec_inorder_node[OF _ t0 t]) simp
  moreover have "[] @ [0] @ [Suc 0..<Suc L] = [0..<length hs]"
    unfolding len by (simp add: upt_conv_Cons del: upt_Suc)
  ultimately have tr: "spec_inorder fuel (spec_lefts hs) (spec_rights hs) {} 0 =
      Some ([0..<length hs], {0} \<union> {0<..L})"
    unfolding f by simp
  show ?thesis unfolding istree_spec[OF valid] tr using rt0 lf0 by simp
qed

lemma backtrack_root:
  assumes ok: "ptr_ok L p_i' p_c'" and Ln: "L < n" and L1: "1 \<le> L"
    and root: "\<forall>r. 1 \<le> r \<and> r \<le> L \<longrightarrow> p_i' 0 r = 0" and fu: "2 * L + 1 \<le> fuel"
  shows "\<exists>hs' r. backtrack fuel n p_i' p_c' (replicate (Suc L) 1) 0 L True = Some (Inr hs') \<and>
           length hs' = Suc L \<and> hs' ! 0 = 1 \<and> 1 \<le> r \<and> r \<le> L \<and> hs' ! r = 0 \<and>
           LC hs' r (Suc 0) \<and> RC hs' r L"
proof -
  let ?h = "replicate (Suc L) (1::int)"
  let ?r = "p_c' 0 L"
  obtain f where f: "fuel = Suc f" and fL: "2 * L \<le> f" using fu by (cases fuel) auto
  have L0: "0 < L" using L1 by simp
  have r: "0 < ?r" "?r \<le> L" using ptr_okD(5,6)[OF ok L0] by simp_all
  have m0: "p_i' 0 ?r = 0" using root r by simp
  have f1: "2 * dist_nat 0 ?r + (if False then 1 else 0) \<le> f" using fL r by (auto simp: dist_nat_def)
  obtain hs1 where b1: "backtrack f n p_i' p_c' ?h 0 ?r False = Some (Inr hs1)"
    and fr1: "bt_frame ?h hs1 0 ?r" and po1: "bt_post p_i' hs1 0 ?r False"
    using backtrack_spec[OF ok Ln _ _ r(2) _ f1, of ?h] r by auto
  have fr1a: "length hs1 = length ?h \<and> (\<forall>p. \<not> (0 < p \<and> p \<le> ?r) \<longrightarrow> hs1 ! p = ?h ! p)"
    by (rule bt_frameD_right[OF fr1]) simp
  have fr1': "length hs1 = Suc L" "\<And>p. \<not> (0 < p \<and> p \<le> ?r) \<Longrightarrow> hs1 ! p = ?h ! p"
    using fr1a by (simp del: replicate.simps, blast)
  have p1: "hs1 ! ?r = 0" "LC hs1 ?r (Suc 0)"
    using po1 r m0 by (simp_all add: bt_post_def max_def)
  have f2: "2 * dist_nat ?r L + (if True then 1 else 0) \<le> f" using fL r by (auto simp: dist_nat_def)
  obtain hs2 where b2: "backtrack f n p_i' p_c' hs1 ?r L True = Some (Inr hs2)"
    and fr2: "bt_frame hs1 hs2 ?r L" and po2: "bt_post p_i' hs2 ?r L True"
    using backtrack_spec[OF ok Ln fr1'(1) r(2) _ _ f2] by auto
  have fr2': "length hs2 = length hs1" "\<And>p. \<not> (?r < p \<and> p \<le> L) \<Longrightarrow> hs2 ! p = hs1 ! p"
    using bt_frameD_right[OF fr2 r(2)] by simp_all
  have p2: "RC hs2 ?r L" using po2 r by (simp add: bt_post_def)
  have res: "backtrack fuel n p_i' p_c' ?h 0 L True = Some (Inr hs2)"
    unfolding f using L0 Ln b1 b2 by (simp add: Let_def)
  have "?h ! 0 = 1" by simp
  then have a: "hs2 ! 0 = 1" using fr2'(2)[of 0] fr1'(2)[of 0] by simp
  have b: "hs2 ! ?r = 0" using fr2'(2)[of ?r] p1(1) by simp
  have c: "LC hs2 ?r (Suc 0)" by (rule RC_LC_cong(2)[OF p1(2)]) (use fr2'(2) in auto)
  show ?thesis using res fr1'(1) fr2'(1) a b c p2 r by (intro exI[of _ hs2] exI[of _ ?r]) simp
qed


lemma backtrack_span:
  assumes ok: "ptr_ok L p_i' p_c'" and Ln: "L < n" and fu: "2 * L + 1 \<le> fuel"
  shows "\<exists>hs'. backtrack fuel n p_i' p_c' (replicate (Suc L) 1) 0 L True = Some (Inr hs') \<and>
           length hs' = Suc L \<and> hs' ! 0 = 1 \<and> RC hs' 0 L"
proof -
  let ?h = "replicate (Suc L) (1::int)"
  have len: "length ?h = Suc L" by simp
  have f: "2 * dist_nat 0 L + (if True then 1 else 0) \<le> fuel" using fu by (simp add: dist_nat_def)
  have c: "True \<or> 0 \<noteq> L" by simp
  obtain hs' where b: "backtrack fuel n p_i' p_c' ?h 0 L True = Some (Inr hs')"
    and fr: "bt_frame ?h hs' 0 L" and po: "bt_post p_i' hs' 0 L True"
    using backtrack_spec[OF ok Ln len _ _ c f] by auto
  have fr': "length hs' = length ?h \<and> (\<forall>p. \<not> (0 < p \<and> p \<le> L) \<longrightarrow> hs' ! p = ?h ! p)"
    by (rule bt_frameD_right[OF fr]) simp
  have l: "length hs' = Suc L" using fr' by (simp del: replicate.simps)
  have "hs' ! 0 = ?h ! 0" using fr' by blast
  then have z: "hs' ! 0 = 1" by simp
  have rc: "RC hs' 0 L" using po by (simp add: bt_post_def)
  show ?thesis using b l z rc by blast
qed

lemma backtrack_all_Cons:
  "backtrack_all fuel n st ((b, len) # rest) =
     (case sentence_heads fuel n st b len of
        None \<Rightarrow> None
      | Some (Inl e) \<Rightarrow> Some (Inl e)
      | Some (Inr heads) \<Rightarrow>
          (case backtrack_all fuel n st rest of
             None \<Rightarrow> None
           | Some (Inl e) \<Rightarrow> Some (Inl e)
           | Some (Inr predicts) \<Rightarrow> Some (Inr (heads # predicts))))"
  by (simp add: sentence_heads_def)

lemma backtrack_all_Inr:
  "backtrack_all fuel n st (enumerate k lens) = Some (Inr ps) \<Longrightarrow>
     length ps = length lens \<and>
     (\<forall>b < length lens. sentence_heads fuel n st (k + b) (lens ! b) = Some (Inr (ps ! b)))"
proof (induction lens arbitrary: k ps)
  case Nil
  then show ?case by simp
next
  case (Cons l lens)
  from Cons.prems obtain hd' ps' where h: "sentence_heads fuel n st k l = Some (Inr hd')"
    and r: "backtrack_all fuel n st (enumerate (Suc k) lens) = Some (Inr ps')" and ps: "ps = hd' # ps'"
    by (auto simp: backtrack_all_Cons simp del: backtrack_all.simps split: option.splits sum.splits)
  note ih = Cons.IH[OF r]
  show ?case
  proof (intro conjI allI impI)
    show "length ps = length (l # lens)" using ih ps by simp
    fix b assume b: "b < length (l # lens)"
    show "sentence_heads fuel n st (k + b) ((l # lens) ! b) = Some (Inr (ps ! b))"
    proof (cases b)
      case 0
      then show ?thesis using h ps by simp
    next
      case (Suc b')
      then show ?thesis using ih b ps by simp
    qed
  qed
qed

lemma backtrack_all_total:
  "\<forall>b < length lens. \<exists>hs. sentence_heads fuel n st (k + b) (lens ! b) = Some (Inr hs) \<Longrightarrow>
     \<exists>ps. backtrack_all fuel n st (enumerate k lens) = Some (Inr ps)"
proof (induction lens arbitrary: k)
  case Nil
  then show ?case by simp
next
  case (Cons l lens)
  obtain hs where h: "sentence_heads fuel n st k l = Some (Inr hs)"
    using Cons.prems[rule_format, of 0] by auto
  have "\<forall>b < length lens. \<exists>hs. sentence_heads fuel n st (Suc k + b) (lens ! b) = Some (Inr hs)"
    using Cons.prems[rule_format, of "Suc b" for b] by simp
  then obtain ps where "backtrack_all fuel n st (enumerate (Suc k) lens) = Some (Inr ps)"
    using Cons.IH by blast
  then show ?case using h by (simp add: backtrack_all_Cons del: backtrack_all.simps)
qed

lemma backtrack_all_cong:
  "\<forall>b < length lens. sentence_heads fuel n st (k + b) (lens ! b) = sentence_heads fuel n st' (k + b) (lens ! b) \<Longrightarrow>
     backtrack_all fuel n st (enumerate k lens) = backtrack_all fuel n st' (enumerate k lens)"
proof (induction lens arbitrary: k)
  case Nil
  then show ?case by simp
next
  case (Cons l lens)
  have h: "sentence_heads fuel n st k l = sentence_heads fuel n st' k l"
    using Cons.prems[rule_format, of 0] by simp
  have "\<forall>b < length lens. sentence_heads fuel n st (Suc k + b) (lens ! b) =
      sentence_heads fuel n st' (Suc k + b) (lens ! b)"
    using Cons.prems[rule_format, of "Suc b" for b] by simp
  then have ih: "backtrack_all fuel n st (enumerate (Suc k) lens) = backtrack_all fuel n st' (enumerate (Suc k) lens)"
    by (rule Cons.IH)
  have e: "enumerate k (l # lens) = (k, l) # enumerate (Suc k) lens" by simp
  show ?case unfolding e backtrack_all_Cons h ih ..
qed

lemma eisner_unfold:
  "eisner fuel n sc mask' =
     (case backtrack_all fuel n (eisner_tables n sc (lens_of mask')) (enumerate 0 (lens_of mask')) of
        None \<Rightarrow> None
      | Some (Inl e) \<Rightarrow> Some (Inl e)
      | Some (Inr predicts) \<Rightarrow>
          (case pad_sequence predicts n of
             Inl e \<Rightarrow> Some (Inl e)
           | Inr out \<Rightarrow> Some (Inr out)))"
  by (simp add: eisner_def lens_of_def Let_def)

text \<open>What the decoder computes for one sentence whose length is below \<open>seq_len\<close>.\<close>

lemma sentence_heads_span:
  assumes Ln: "len < n" and fu: "2 * n \<le> fuel"
  shows "\<exists>hs. sentence_heads fuel n (eisner_tables n sc lens) b len = Some (Inr hs) \<and>
           length hs = Suc len \<and> hs ! 0 = 1 \<and> RC hs 0 len"
proof -
  let ?F = "eisner_tables n sc lens"
  have ok: "ptr_ok len (\<lambda>a c. p_i ?F a c b) (\<lambda>a c. p_c ?F a c b)"
    by (rule eisner_ptr_ok[OF Ln])
  have f: "2 * len + 1 \<le> fuel" using fu Ln by simp
  show ?thesis
    unfolding sentence_heads_def
    using backtrack_span[OF ok Ln f] by simp
qed

lemma sentence_heads_tree:
  assumes b: "b < length lens" and L1: "1 \<le> lens ! b" and Ln: "lens ! b < n"
    and fu: "2 * n \<le> fuel"
    and B0: "0 \<le> B" and fm: "of_nat (lens ! b) * B \<le> float_max"
    and bd: "\<And>i j. i \<le> lens ! b \<Longrightarrow> j \<le> lens ! b \<Longrightarrow> score_within B (sc b i j)"
  shows "\<exists>hs r. sentence_heads fuel n (eisner_tables n sc lens) b (lens ! b) = Some (Inr hs) \<and>
           length hs = Suc (lens ! b) \<and> hs ! 0 = 1 \<and> 1 \<le> r \<and> r \<le> lens ! b \<and> hs ! r = 0 \<and>
           LC hs r (Suc 0) \<and> RC hs r (lens ! b)"
proof -
  let ?F = "eisner_tables n sc lens"
  have ok: "ptr_ok (lens ! b) (\<lambda>a c. p_i ?F a c b) (\<lambda>a c. p_c ?F a c b)"
    by (rule eisner_ptr_ok[OF Ln])
  have root: "\<forall>r. 1 \<le> r \<and> r \<le> lens ! b \<longrightarrow> p_i ?F 0 r b = 0"
  proof (intro allI impI)
    fix r assume r: "1 \<le> r \<and> r \<le> lens ! b"
    then have r0: "0 < r" and rL: "r \<le> lens ! b" by simp_all
    show "p_i ?F 0 r b = 0"
      by (rule eisner_root_split[of lens b n r B sc, OF Ln b r0 rL B0 fm bd])
  qed
  have f: "2 * (lens ! b) + 1 \<le> fuel" using fu Ln by simp
  show ?thesis
    unfolding sentence_heads_def
    using backtrack_root[OF ok Ln L1 root f] by simp
qed

lemma sentence_heads_long:
  assumes "n \<le> len" "0 < len"
  shows "sentence_heads fuel n st b len = None \<or> sentence_heads fuel n st b len = Some (Inl IndexError)"
  using assms unfolding sentence_heads_def by (cases fuel) auto


lemma valid_batch_lens:
  "valid_batch n mask' \<Longrightarrow> b < length mask' \<Longrightarrow> 1 \<le> lens_of mask' ! b \<and> lens_of mask' ! b \<le> n"
  unfolding valid_batch_def lens_of_def by simp

lemma length_lens_of [simp]: "length (lens_of mask') = length mask'"
  by (simp add: lens_of_def)

lemma derived_heads_range:
  assumes len: "length hs = Suc L" and r: "1 \<le> r" "r \<le> L" and h0: "hs ! 0 = 1"
    and hr: "hs ! r = 0" and lc: "LC hs r (Suc 0)" and rc: "RC hs r L" and cL: "c < Suc L"
  shows "0 \<le> hs ! c \<and> hs ! c \<le> int L"
proof -
  note cl = RC_LC_closed(2)[OF lc] and cr = RC_LC_closed(1)[OF rc]
  consider "c = 0" | "Suc 0 \<le> c \<and> c < r" | "c = r" | "r < c \<and> c \<le> L" using cL by linarith
  then show ?thesis
  proof cases
    case 1 then show ?thesis using h0 r by simp
  next
    case 2
    then have "int (Suc 0) \<le> hs ! c \<and> hs ! c \<le> int r" using cl by blast
    then show ?thesis using r by linarith
  next
    case 3 then show ?thesis using hr by simp
  next
    case 4
    then have "int r \<le> hs ! c \<and> hs ! c \<le> int L" using cr by blast
    then show ?thesis by linarith
  qed
qed

lemma span_heads_range:
  assumes rc: "RC hs 0 L" and c: "1 \<le> c" "c \<le> L"
  shows "0 \<le> hs ! c \<and> hs ! c \<le> int L"
  using RC_LC_closed(1)[OF rc] c by simp

lemma pad_sequence_Inr:
  "pad_sequence ps n = Inr out \<Longrightarrow> out = map (\<lambda>s. s @ replicate (n - length s) 1) ps"
  by (auto simp: pad_sequence_def split: if_splits)

lemma pad_sequence_short:
  "\<forall>s \<in> set ps. length s \<le> n \<Longrightarrow>
     pad_sequence ps n = Inr (map (\<lambda>s. s @ replicate (n - length s) 1) ps)"
  by (auto simp: pad_sequence_def)

lemma eisner_sentence:
  assumes out: "eisner fuel n sc mask' = Some (Inr out)" and b: "b < length mask'"
  shows "\<exists>hs. sentence_heads fuel n (eisner_tables n sc (lens_of mask')) b (lens_of mask' ! b) = Some (Inr hs) \<and>
           out ! b = hs @ replicate (n - length hs) 1"
proof -
  let ?F = "eisner_tables n sc (lens_of mask')"
  from out obtain ps where ps: "backtrack_all fuel n ?F (enumerate 0 (lens_of mask')) = Some (Inr ps)"
    and pad: "pad_sequence ps n = Inr out"
    unfolding eisner_unfold by (auto split: option.splits sum.splits)
  have a: "length ps = length mask'" and
    h: "sentence_heads fuel n ?F b (lens_of mask' ! b) = Some (Inr (ps ! b))"
    using backtrack_all_Inr[OF ps] b by simp_all
  have "out ! b = ps ! b @ replicate (n - length (ps ! b)) 1"
    unfolding pad_sequence_Inr[OF pad] using a b by simp
  then show ?thesis using h by blast
qed

lemma eisner_returns:
  assumes rows: "\<forall>b < length mask'. 1 \<le> lens_of mask' ! b \<and> lens_of mask' ! b < n"
    and fu: "2 * n \<le> fuel"
  shows "\<exists>out. eisner fuel n sc mask' = Some (Inr out) \<and> length out = length mask'"
proof -
  let ?F = "eisner_tables n sc (lens_of mask')"
  let ?lens = "lens_of mask'"
  have each: "\<forall>b < length ?lens. \<exists>hs. sentence_heads fuel n ?F (0 + b) (?lens ! b) = Some (Inr hs)"
  proof (intro allI impI)
    fix b assume b: "b < length ?lens"
    then have "?lens ! b < n" using rows by simp
    from sentence_heads_span[OF this fu, of sc ?lens b]
    show "\<exists>hs. sentence_heads fuel n ?F (0 + b) (?lens ! b) = Some (Inr hs)" by auto
  qed
  then obtain ps where ps: "backtrack_all fuel n ?F (enumerate 0 ?lens) = Some (Inr ps)"
    using backtrack_all_total by blast
  note bi = backtrack_all_Inr[OF ps]
  have short: "\<forall>s \<in> set ps. length s \<le> n"
  proof
    fix s assume "s \<in> set ps"
    then obtain b where b: "b < length ps" "s = ps ! b" by (auto simp: in_set_conv_nth)
    then have bl: "b < length ?lens" using bi by simp
    then have L: "1 \<le> ?lens ! b" "?lens ! b < n" using rows by simp_all
    from sentence_heads_span[OF L(2) fu, of sc ?lens b] bi bl
    have "length (ps ! b) = Suc (?lens ! b)" by auto
    then show "length s \<le> n" using b L by simp
  qed
  have "eisner fuel n sc mask' = Some (Inr (map (\<lambda>s. s @ replicate (n - length s) 1) ps))"
    by (simp add: eisner_unfold ps pad_sequence_short[OF short])
  then show ?thesis using bi by simp
qed


lemma sentence_heads_raises:
  assumes "n \<le> len" "0 < len" "0 < fuel"
  shows "sentence_heads fuel n st b len = Some (Inl IndexError)"
  using assms unfolding sentence_heads_def by (cases fuel) auto

lemma eisner_first_row_raises:
  assumes "n \<le> length (filter (\<lambda>m. m) row)" "0 < length (filter (\<lambda>m. m) row)" "0 < fuel"
  shows "eisner fuel n sc (row # rows) = Some (Inl IndexError)"
  unfolding eisner_unfold
  by (simp add: lens_of_def backtrack_all_Cons sentence_heads_raises[OF assms] del: backtrack_all.simps)

text \<open>The tables of two score tensors that agree on the positions of a sentence.\<close>

lemma tables_agree:
  fixes n L M :: nat and sc sc' :: "nat \<Rightarrow> nat \<Rightarrow> nat \<Rightarrow> score" and lens :: "nat list" and b :: nat
  assumes Ln: "L < n" and LM: "L \<le> M"
    and ag: "\<And>i j. i \<le> L \<Longrightarrow> j \<le> L \<Longrightarrow> sc b i j = sc' b i j"
  defines "F \<equiv> tables_upto n sc lens M" and "G \<equiv> tables_upto n sc' lens M"
  shows "dist_nat i j \<le> d \<Longrightarrow> i \<le> L \<Longrightarrow> j \<le> L \<Longrightarrow>
         s_i F i j b = s_i G i j b \<and> s_c F i j b = s_c G i j b \<and>
         p_i F i j b = p_i G i j b \<and> p_c F i j b = p_c G i j b"
proof (induction d arbitrary: i j)
  case 0
  then have ij: "j = i" by (simp add: dist_nat_def split: if_splits)
  have d0: "dist_nat i i \<le> 0" by simp
  have z: "0 \<le> M" by simp
  note a = cells_final[OF d0 z, of n sc lens b] and a' = cells_final[OF d0 z, of n sc' lens b]
  show ?case unfolding ij F_def G_def a[symmetric] a'[symmetric] tables_upto_0 by simp
next
  case (Suc d)
  have sc_lt: "s_c F x y b = s_c G x y b" if "dist_nat x y \<le> d" "x \<le> L" "y \<le> L" for x y
    using Suc.IH[OF that] by simp
  have si_lt: "s_i F x y b = s_i G x y b" if "dist_nat x y \<le> d" "x \<le> L" "y \<le> L" for x y
    using Suc.IH[OF that] by simp
  have step: "s_i F a (a + Suc d) b = s_i G a (a + Suc d) b \<and>
              s_c F a (a + Suc d) b = s_c G a (a + Suc d) b \<and>
              p_i F a (a + Suc d) b = p_i G a (a + Suc d) b \<and>
              p_c F a (a + Suc d) b = p_c G a (a + Suc d) b \<and>
              s_i F (a + Suc d) a b = s_i G (a + Suc d) a b \<and>
              s_c F (a + Suc d) a b = s_c G (a + Suc d) a b \<and>
              p_i F (a + Suc d) a b = p_i G (a + Suc d) a b \<and>
              p_c F (a + Suc d) a b = p_c G (a + Suc d) a b" if a: "a + Suc d \<le> L" for a
  proof -
    have w: "Suc d \<le> M" using a LM by simp
    have i: "a + Suc d < n" using a Ln by simp
    note f = final_cells_Suc[OF w i, of sc lens b, folded F_def]
      and g = final_cells_Suc[OF w i, of sc' lens b, folded G_def]
    have ir: "ir_list sc (s_c F) b a (Suc d) = ir_list sc' (s_c G) b a (Suc d)"
    proof (rule ir_list_cong)
      fix k assume k: "k < Suc d"
      show "s_c F a (a + k) b = s_c G a (a + k) b"
        by (rule sc_lt[OF dist_nat_inner(5)[OF k]]) (use a k in simp_all)
      show "s_c F (Suc d + a) (1 + a + k) b = s_c G (Suc d + a) (1 + a + k) b"
        by (rule sc_lt[OF dist_nat_inner(1)[OF k]]) (use a k in simp_all)
    next
      show "sc b (a + Suc d) a = sc' b (a + Suc d) a" by (rule ag) (use a in simp_all)
    qed
    have il: "il_list sc (s_c F) b a (Suc d) = il_list sc' (s_c G) b a (Suc d)"
    proof (rule il_list_cong)
      fix k assume k: "k < Suc d"
      show "s_c F a (a + k) b = s_c G a (a + k) b"
        by (rule sc_lt[OF dist_nat_inner(5)[OF k]]) (use a k in simp_all)
      show "s_c F (Suc d + a) (1 + a + k) b = s_c G (Suc d + a) (1 + a + k) b"
        by (rule sc_lt[OF dist_nat_inner(1)[OF k]]) (use a k in simp_all)
    next
      show "sc b a (a + Suc d) = sc' b a (a + Suc d)" by (rule ag) (use a in simp_all)
    qed
    have si1: "s_i F a (a + Suc d) b = s_i G a (a + Suc d) b" unfolding f(1) g(1) ir ..
    have si2: "s_i F (a + Suc d) a b = s_i G (a + Suc d) a b" unfolding f(2) g(2) il ..
    have pi1: "p_i F a (a + Suc d) b = p_i G a (a + Suc d) b" unfolding f(3) g(3) ir ..
    have pi2: "p_i F (a + Suc d) a b = p_i G (a + Suc d) a b" unfolding f(4) g(4) il ..
    have cr: "cr_list (s_c F) (s_i F) b a (Suc d) = cr_list (s_c G) (s_i G) b a (Suc d)"
    proof (rule cr_list_cong)
      fix k assume k: "k < Suc d"
      show "s_c F (1 + a + k) (Suc d + a) b = s_c G (1 + a + k) (Suc d + a) b"
        by (rule sc_lt[OF dist_nat_inner(2)[OF k]]) (use a k in simp_all)
      show "s_i F a (1 + a + k) b = s_i G a (1 + a + k) b"
      proof (cases "k = d")
        case True
        then have "1 + a + k = a + Suc d" by simp
        then show ?thesis using si1 by simp
      next
        case False
        then have "dist_nat a (1 + a + k) \<le> d" using k by (auto simp add: dist_nat_def)
        then show ?thesis by (rule si_lt) (use a k in simp_all)
      qed
    qed
    have cl: "cl_list (s_c F) (s_i F) b a (Suc d) = cl_list (s_c G) (s_i G) b a (Suc d)"
    proof (rule cl_list_cong)
      fix k assume k: "k < Suc d"
      show "s_c F (a + k) a b = s_c G (a + k) a b"
        by (rule sc_lt[OF dist_nat_inner(6)[OF k]]) (use a k in simp_all)
      show "s_i F (Suc d + a) (a + k) b = s_i G (Suc d + a) (a + k) b"
      proof (cases "k = 0")
        case True
        then have "Suc d + a = a + Suc d" "a + k = a" by simp_all
        then show ?thesis using si2 by (simp only:)
      next
        case False
        then have "dist_nat (Suc d + a) (a + k) \<le> d" using k by (auto simp add: dist_nat_def)
        then show ?thesis by (rule si_lt) (use a k in simp_all)
      qed
    qed
    have sc1: "s_c F a (a + Suc d) b = s_c G a (a + Suc d) b" unfolding f(5) g(5) cr ..
    have sc2: "s_c F (a + Suc d) a b = s_c G (a + Suc d) a b" unfolding f(6) g(6) cl ..
    have pc1: "p_c F a (a + Suc d) b = p_c G a (a + Suc d) b" unfolding f(7) g(7) cr ..
    have pc2: "p_c F (a + Suc d) a b = p_c G (a + Suc d) a b" unfolding f(8) g(8) cl ..
    show ?thesis using si1 si2 pi1 pi2 sc1 sc2 pc1 pc2 by blast
  qed
  have "dist_nat i j \<le> d \<or> j = i + Suc d \<or> i = j + Suc d"
    using Suc.prems(1) unfolding dist_nat_def by (cases "i \<le> j") (simp_all, linarith+)
  then consider "dist_nat i j \<le> d" | "j = i + Suc d" | "i = j + Suc d" by blast
  then show ?case
  proof cases
    case 1
    then show ?thesis by (rule Suc.IH[OF _ Suc.prems(2,3)])
  next
    case 2
    have "i + Suc d \<le> L" using 2 Suc.prems(3) by simp
    from step[OF this] show ?thesis unfolding 2 by blast
  next
    case 3
    have "j + Suc d \<le> L" using 3 Suc.prems(2) by simp
    from step[OF this] show ?thesis unfolding 3 by blast
  qed
qed

lemma eisner_tables_agree:
  assumes Ln: "L < n" and ag: "\<And>i j. i \<le> L \<Longrightarrow> j \<le> L \<Longrightarrow> sc b i j = sc' b i j"
    and i: "i \<le> L" and j: "j \<le> L"
  shows "p_i (eisner_tables n sc lens) i j b = p_i (eisner_tables n sc' lens) i j b"
    "p_c (eisner_tables n sc lens) i j b = p_c (eisner_tables n sc' lens) i j b"
proof -
  have LM: "L \<le> n - 1" using Ln by simp
  have d: "dist_nat i j \<le> L" using i j by (auto simp add: dist_nat_def)
  note t = tables_agree[of L n "n - 1" sc b sc' i j L lens, OF Ln LM ag d i j,
      folded eisner_tables_upto]
  show "p_i (eisner_tables n sc lens) i j b = p_i (eisner_tables n sc' lens) i j b"
    using t by blast
  show "p_c (eisner_tables n sc lens) i j b = p_c (eisner_tables n sc' lens) i j b"
    using t by blast
qed

lemma backtrack_cong:
  assumes ok: "ptr_ok L p_i' p_c'"
    and e1: "\<And>i j. i \<le> L \<Longrightarrow> j \<le> L \<Longrightarrow> q_i i j = p_i' i j"
    and e2: "\<And>i j. i \<le> L \<Longrightarrow> j \<le> L \<Longrightarrow> q_c i j = p_c' i j"
  shows "i \<le> L \<Longrightarrow> j \<le> L \<Longrightarrow>
         backtrack fuel n q_i q_c heads i j c = backtrack fuel n p_i' p_c' heads i j c"
proof (induction fuel arbitrary: heads i j c)
  case 0
  show ?case by simp
next
  case (Suc fuel)
  show ?case
  proof (cases "i = j")
    case True
    then show ?thesis by simp
  next
    case False
    note i = Suc.prems(1) and j = Suc.prems(2)
    have pc: "q_c i j = p_c' i j" by (rule e2[OF i j])
    have pi: "q_i i j = p_i' i j" by (rule e1[OF i j])
    have rng: "p_c' i j \<le> L \<and> p_i' i j \<le> L \<and> p_i' i j + 1 \<le> L"
    proof (cases "i < j")
      case True
      from ptr_okD[OF ok True j] show ?thesis using j by simp
    next
      case False
      then have ji: "j < i" using \<open>i \<noteq> j\<close> by simp
      from ptr_okD[OF ok ji i] show ?thesis using i by simp
    qed
    have mn: "min i j \<le> L" "max i j \<le> L" using i j by simp_all
    have a: "backtrack fuel n q_i q_c h i (p_c' i j) False =
             backtrack fuel n p_i' p_c' h i (p_c' i j) False" for h
      by (rule Suc.IH[OF i]) (use rng in simp)
    have b: "backtrack fuel n q_i q_c h (p_c' i j) j True =
             backtrack fuel n p_i' p_c' h (p_c' i j) j True" for h
      by (rule Suc.IH[OF _ j]) (use rng in simp)
    have c: "backtrack fuel n q_i q_c h (min i j) (p_i' i j) True =
             backtrack fuel n p_i' p_c' h (min i j) (p_i' i j) True" for h
      by (rule Suc.IH[OF mn(1)]) (use rng in simp)
    have d: "backtrack fuel n q_i q_c h (max i j) (p_i' i j + 1) True =
             backtrack fuel n p_i' p_c' h (max i j) (p_i' i j + 1) True" for h
      by (rule Suc.IH[OF mn(2)]) (use rng in simp)
    show ?thesis unfolding backtrack.simps pc pi Let_def a b c d ..
  qed
qed

lemma sentence_heads_long_eq:
  assumes "\<not> len < n"
  shows "sentence_heads fuel n st b len = sentence_heads fuel n st' b len"
  unfolding sentence_heads_def using assms by (cases fuel) auto

lemma sentence_heads_agree:
  assumes ag: "\<And>i j. i \<le> len \<Longrightarrow> j \<le> len \<Longrightarrow> sc b i j = sc' b i j"
  shows "sentence_heads fuel n (eisner_tables n sc lens) b len =
         sentence_heads fuel n (eisner_tables n sc' lens) b len"
proof (cases "len < n")
  case True
  let ?qi = "\<lambda>a c. p_i (eisner_tables n sc lens) a c b"
  let ?qc = "\<lambda>a c. p_c (eisner_tables n sc lens) a c b"
  let ?pi = "\<lambda>a c. p_i (eisner_tables n sc' lens) a c b"
  let ?pc = "\<lambda>a c. p_c (eisner_tables n sc' lens) a c b"
  have ok: "ptr_ok len ?pi ?pc" by (rule eisner_ptr_ok[OF True])
  have e1: "?qi i j = ?pi i j" if "i \<le> len" "j \<le> len" for i j
    using eisner_tables_agree(1)[of len n sc b sc' i j lens, OF True ag that] by simp
  have e2: "?qc i j = ?pc i j" if "i \<le> len" "j \<le> len" for i j
    using eisner_tables_agree(2)[of len n sc b sc' i j lens, OF True ag that] by simp
  have z: "0 \<le> len" "len \<le> len" by simp_all
  show ?thesis unfolding sentence_heads_def
    by (rule backtrack_cong[of len ?pi ?pc ?qi ?qc, OF ok e1 e2 z])
next
  case False
  then show ?thesis by (rule sentence_heads_long_eq)
qed

subsection \<open>The decoder on the examples, cell by cell\<close>

lemmas cell_defs = ir_list_def il_list_def cr_list_def cl_list_def score_max_def score_argmax_def

lemma float_max_large: "2000 \<le> float_max"
  by (simp add: float_max_def)

lemma huge_score_facts:
  "0 < huge_score" "huge_score \<le> float_max" "float_max < huge_score + huge_score"
  by (simp_all add: huge_score_def float_max_def)

lemma cells_first:
  fixes T defines "T \<equiv> tables_upto 3 scores_first [2] 2"
  shows "p_i T 0 (Suc 0) 0 = 0"
    "p_i T (Suc 0) 0 0 = 0"
    "p_c T 0 (Suc 0) 0 = (Suc 0)"
    "p_c T (Suc 0) 0 0 = 0"
    "p_i T (Suc 0) (Suc (Suc 0)) 0 = (Suc 0)"
    "p_i T (Suc (Suc 0)) (Suc 0) 0 = (Suc 0)"
    "p_c T (Suc 0) (Suc (Suc 0)) 0 = (Suc (Suc 0))"
    "p_c T (Suc (Suc 0)) (Suc 0) 0 = (Suc 0)"
    "p_i T 0 (Suc (Suc 0)) 0 = 0"
    "p_i T (Suc (Suc 0)) 0 0 = 0"
    "p_c T 0 (Suc (Suc 0)) 0 = (Suc 0)"
    "p_c T (Suc (Suc 0)) 0 0 = 0"
proof -
  have S_0_0: "s_c T 0 0 0 = Fin 0" by (simp add: T_def final_diag)
  have S_1_1: "s_c T (Suc 0) (Suc 0) 0 = Fin 0" by (simp add: T_def final_diag)
  have S_2_2: "s_c T (Suc (Suc 0)) (Suc (Suc 0)) 0 = Fin 0" by (simp add: T_def final_diag)
  note f_1_0 = final_cells_Suc[of 0 2 0 3 scores_first "[2]" 0, folded T_def]
  have I_0_1: "s_i T 0 (Suc 0) 0 = Fin 10"
    using f_1_0(1) float_max_large S_0_0 S_1_1 S_2_2  by (simp add: cell_defs scores_first_def)
  have I_1_0: "s_i T (Suc 0) 0 0 = Fin 0"
    using f_1_0(2) float_max_large S_0_0 S_1_1 S_2_2  by (simp add: cell_defs scores_first_def)
  have Pi_0_1: "p_i T 0 (Suc 0) 0 = 0"
    using f_1_0(3) float_max_large S_0_0 S_1_1 S_2_2  by (simp add: cell_defs scores_first_def)
  have Pi_1_0: "p_i T (Suc 0) 0 0 = 0"
    using f_1_0(4) float_max_large S_0_0 S_1_1 S_2_2  by (simp add: cell_defs scores_first_def)
  have S_1_0: "s_c T (Suc 0) 0 0 = Fin 0"
    using f_1_0(6) float_max_large S_0_0 S_1_1 S_2_2 I_0_1 I_1_0 by (simp add: cell_defs scores_first_def)
  have Pc_1_0: "p_c T (Suc 0) 0 0 = 0"
    using f_1_0(8) float_max_large S_0_0 S_1_1 S_2_2 I_0_1 I_1_0 by (simp add: cell_defs scores_first_def)
  have S_0_1: "s_c T 0 (Suc 0) 0 = NegInf"
    using f_1_0(5) float_max_large S_0_0 S_1_1 S_2_2 I_0_1 I_1_0 by (simp add: cell_defs scores_first_def)
  have Pc_0_1: "p_c T 0 (Suc 0) 0 = (Suc 0)"
    using f_1_0(7) float_max_large S_0_0 S_1_1 S_2_2 I_0_1 I_1_0 by (simp add: cell_defs scores_first_def)
  note f_1_1 = final_cells_Suc[of 0 2 "Suc 0" 3 scores_first "[2]" 0, folded T_def]
  have I_1_2: "s_i T (Suc 0) (Suc (Suc 0)) 0 = Fin 0"
    using f_1_1(1) float_max_large S_0_0 S_1_1 S_2_2  by (simp add: cell_defs scores_first_def)
  have I_2_1: "s_i T (Suc (Suc 0)) (Suc 0) 0 = Fin 0"
    using f_1_1(2) float_max_large S_0_0 S_1_1 S_2_2  by (simp add: cell_defs scores_first_def)
  have Pi_1_2: "p_i T (Suc 0) (Suc (Suc 0)) 0 = (Suc 0)"
    using f_1_1(3) float_max_large S_0_0 S_1_1 S_2_2  by (simp add: cell_defs scores_first_def)
  have Pi_2_1: "p_i T (Suc (Suc 0)) (Suc 0) 0 = (Suc 0)"
    using f_1_1(4) float_max_large S_0_0 S_1_1 S_2_2  by (simp add: cell_defs scores_first_def)
  have S_2_1: "s_c T (Suc (Suc 0)) (Suc 0) 0 = Fin 0"
    using f_1_1(6) float_max_large S_0_0 S_1_1 S_2_2 I_1_2 I_2_1 by (simp add: cell_defs scores_first_def)
  have Pc_2_1: "p_c T (Suc (Suc 0)) (Suc 0) 0 = (Suc 0)"
    using f_1_1(8) float_max_large S_0_0 S_1_1 S_2_2 I_1_2 I_2_1 by (simp add: cell_defs scores_first_def)
  have S_1_2: "s_c T (Suc 0) (Suc (Suc 0)) 0 = Fin 0"
    using f_1_1(5) float_max_large S_0_0 S_1_1 S_2_2 I_1_2 I_2_1 by (simp add: cell_defs scores_first_def)
  have Pc_1_2: "p_c T (Suc 0) (Suc (Suc 0)) 0 = (Suc (Suc 0))"
    using f_1_1(7) float_max_large S_0_0 S_1_1 S_2_2 I_1_2 I_2_1 by (simp add: cell_defs scores_first_def)
  note f_2_0 = final_cells_Suc[of "Suc 0" 2 0 3 scores_first "[2]" 0, folded T_def]
  have I_0_2: "s_i T 0 (Suc (Suc 0)) 0 = Fin 0"
    using f_2_0(1) float_max_large S_0_0 S_1_1 S_2_2 I_0_1 I_1_0 S_0_1 S_1_0 I_1_2 I_2_1 S_1_2 S_2_1  by (simp add: cell_defs scores_first_def)
  have I_2_0: "s_i T (Suc (Suc 0)) 0 0 = Fin 0"
    using f_2_0(2) float_max_large S_0_0 S_1_1 S_2_2 I_0_1 I_1_0 S_0_1 S_1_0 I_1_2 I_2_1 S_1_2 S_2_1  by (simp add: cell_defs scores_first_def)
  have Pi_0_2: "p_i T 0 (Suc (Suc 0)) 0 = 0"
    using f_2_0(3) float_max_large S_0_0 S_1_1 S_2_2 I_0_1 I_1_0 S_0_1 S_1_0 I_1_2 I_2_1 S_1_2 S_2_1  by (simp add: cell_defs scores_first_def)
  have Pi_2_0: "p_i T (Suc (Suc 0)) 0 0 = 0"
    using f_2_0(4) float_max_large S_0_0 S_1_1 S_2_2 I_0_1 I_1_0 S_0_1 S_1_0 I_1_2 I_2_1 S_1_2 S_2_1  by (simp add: cell_defs scores_first_def)
  have S_2_0: "s_c T (Suc (Suc 0)) 0 0 = Fin 0"
    using f_2_0(6) float_max_large S_0_0 S_1_1 S_2_2 I_0_1 I_1_0 S_0_1 S_1_0 I_1_2 I_2_1 S_1_2 S_2_1 I_0_2 I_2_0 by (simp add: cell_defs scores_first_def)
  have Pc_2_0: "p_c T (Suc (Suc 0)) 0 0 = 0"
    using f_2_0(8) float_max_large S_0_0 S_1_1 S_2_2 I_0_1 I_1_0 S_0_1 S_1_0 I_1_2 I_2_1 S_1_2 S_2_1 I_0_2 I_2_0 by (simp add: cell_defs scores_first_def)
  have S_0_2: "s_c T 0 (Suc (Suc 0)) 0 = Fin 10"
    using f_2_0(5) float_max_large S_0_0 S_1_1 S_2_2 I_0_1 I_1_0 S_0_1 S_1_0 I_1_2 I_2_1 S_1_2 S_2_1 I_0_2 I_2_0 by (simp add: cell_defs scores_first_def)
  have Pc_0_2: "p_c T 0 (Suc (Suc 0)) 0 = (Suc 0)"
    using f_2_0(7) float_max_large S_0_0 S_1_1 S_2_2 I_0_1 I_1_0 S_0_1 S_1_0 I_1_2 I_2_1 S_1_2 S_2_1 I_0_2 I_2_0 by (simp add: cell_defs scores_first_def)
  show "p_i T 0 (Suc 0) 0 = 0" by (rule Pi_0_1)
  show "p_i T (Suc 0) 0 0 = 0" by (rule Pi_1_0)
  show "p_c T 0 (Suc 0) 0 = (Suc 0)" by (rule Pc_0_1)
  show "p_c T (Suc 0) 0 0 = 0" by (rule Pc_1_0)
  show "p_i T (Suc 0) (Suc (Suc 0)) 0 = (Suc 0)" by (rule Pi_1_2)
  show "p_i T (Suc (Suc 0)) (Suc 0) 0 = (Suc 0)" by (rule Pi_2_1)
  show "p_c T (Suc 0) (Suc (Suc 0)) 0 = (Suc (Suc 0))" by (rule Pc_1_2)
  show "p_c T (Suc (Suc 0)) (Suc 0) 0 = (Suc 0)" by (rule Pc_2_1)
  show "p_i T 0 (Suc (Suc 0)) 0 = 0" by (rule Pi_0_2)
  show "p_i T (Suc (Suc 0)) 0 0 = 0" by (rule Pi_2_0)
  show "p_c T 0 (Suc (Suc 0)) 0 = (Suc 0)" by (rule Pc_0_2)
  show "p_c T (Suc (Suc 0)) 0 0 = 0" by (rule Pc_2_0)
qed

lemma backtrack_first:
  assumes "P_i 0 (Suc 0) = 0"
    "P_i (Suc 0) 0 = 0"
    "P_c 0 (Suc 0) = (Suc 0)"
    "P_c (Suc 0) 0 = 0"
    "P_i (Suc 0) (Suc (Suc 0)) = (Suc 0)"
    "P_i (Suc (Suc 0)) (Suc 0) = (Suc 0)"
    "P_c (Suc 0) (Suc (Suc 0)) = (Suc (Suc 0))"
    "P_c (Suc (Suc 0)) (Suc 0) = (Suc 0)"
    "P_i 0 (Suc (Suc 0)) = 0"
    "P_i (Suc (Suc 0)) 0 = 0"
    "P_c 0 (Suc (Suc 0)) = (Suc 0)"
    "P_c (Suc (Suc 0)) 0 = 0"
  shows "backtrack 6 3 P_i P_c [1, 1, 1] 0 2 True = Some (Inr [1, 0, 1])"
  using assms by (simp add: eval_nat_numeral)

lemma eisner_first: "eisner 6 3 scores_first [[False, True, True]] = Some (Inr [[1, 0, 1]])"
proof -
  let ?T = "tables_upto 3 scores_first [2] 2"
  have T: "eisner_tables 3 scores_first [2] = ?T" by (simp add: eisner_tables_upto)
  have "backtrack 6 3 (\<lambda>a c. p_i ?T a c 0) (\<lambda>a c. p_c ?T a c 0) [1, 1, 1] 0 2 True =
        Some (Inr [1, 0, 1])"
    by (rule backtrack_first) (rule cells_first)+
  then have "sentence_heads 6 3 ?T 0 2 = Some (Inr [1, 0, 1])"
    by (simp add: sentence_heads_def eval_nat_numeral)
  moreover have "lens_of [[False, True, True]] = [2]" by (simp add: lens_of_def)
  ultimately show ?thesis
    by (simp add: eisner_unfold T backtrack_all_Cons pad_sequence_def
        del: backtrack_all.simps(2))
qed

lemma cells_second:
  fixes T defines "T \<equiv> tables_upto 3 scores_second [2] 2"
  shows "p_i T 0 (Suc 0) 0 = 0"
    "p_i T (Suc 0) 0 0 = 0"
    "p_c T 0 (Suc 0) 0 = (Suc 0)"
    "p_c T (Suc 0) 0 0 = 0"
    "p_i T (Suc 0) (Suc (Suc 0)) 0 = (Suc 0)"
    "p_i T (Suc (Suc 0)) (Suc 0) 0 = (Suc 0)"
    "p_c T (Suc 0) (Suc (Suc 0)) 0 = (Suc (Suc 0))"
    "p_c T (Suc (Suc 0)) (Suc 0) 0 = (Suc 0)"
    "p_i T 0 (Suc (Suc 0)) 0 = 0"
    "p_i T (Suc (Suc 0)) 0 0 = 0"
    "p_c T 0 (Suc (Suc 0)) 0 = (Suc (Suc 0))"
    "p_c T (Suc (Suc 0)) 0 0 = 0"
proof -
  have S_0_0: "s_c T 0 0 0 = Fin 0" by (simp add: T_def final_diag)
  have S_1_1: "s_c T (Suc 0) (Suc 0) 0 = Fin 0" by (simp add: T_def final_diag)
  have S_2_2: "s_c T (Suc (Suc 0)) (Suc (Suc 0)) 0 = Fin 0" by (simp add: T_def final_diag)
  note f_1_0 = final_cells_Suc[of 0 2 0 3 scores_second "[2]" 0, folded T_def]
  have I_0_1: "s_i T 0 (Suc 0) 0 = Fin 0"
    using f_1_0(1) float_max_large S_0_0 S_1_1 S_2_2  by (simp add: cell_defs scores_second_def)
  have I_1_0: "s_i T (Suc 0) 0 0 = Fin 0"
    using f_1_0(2) float_max_large S_0_0 S_1_1 S_2_2  by (simp add: cell_defs scores_second_def)
  have Pi_0_1: "p_i T 0 (Suc 0) 0 = 0"
    using f_1_0(3) float_max_large S_0_0 S_1_1 S_2_2  by (simp add: cell_defs scores_second_def)
  have Pi_1_0: "p_i T (Suc 0) 0 0 = 0"
    using f_1_0(4) float_max_large S_0_0 S_1_1 S_2_2  by (simp add: cell_defs scores_second_def)
  have S_1_0: "s_c T (Suc 0) 0 0 = Fin 0"
    using f_1_0(6) float_max_large S_0_0 S_1_1 S_2_2 I_0_1 I_1_0 by (simp add: cell_defs scores_second_def)
  have Pc_1_0: "p_c T (Suc 0) 0 0 = 0"
    using f_1_0(8) float_max_large S_0_0 S_1_1 S_2_2 I_0_1 I_1_0 by (simp add: cell_defs scores_second_def)
  have S_0_1: "s_c T 0 (Suc 0) 0 = NegInf"
    using f_1_0(5) float_max_large S_0_0 S_1_1 S_2_2 I_0_1 I_1_0 by (simp add: cell_defs scores_second_def)
  have Pc_0_1: "p_c T 0 (Suc 0) 0 = (Suc 0)"
    using f_1_0(7) float_max_large S_0_0 S_1_1 S_2_2 I_0_1 I_1_0 by (simp add: cell_defs scores_second_def)
  note f_1_1 = final_cells_Suc[of 0 2 "Suc 0" 3 scores_second "[2]" 0, folded T_def]
  have I_1_2: "s_i T (Suc 0) (Suc (Suc 0)) 0 = Fin 0"
    using f_1_1(1) float_max_large S_0_0 S_1_1 S_2_2  by (simp add: cell_defs scores_second_def)
  have I_2_1: "s_i T (Suc (Suc 0)) (Suc 0) 0 = Fin 0"
    using f_1_1(2) float_max_large S_0_0 S_1_1 S_2_2  by (simp add: cell_defs scores_second_def)
  have Pi_1_2: "p_i T (Suc 0) (Suc (Suc 0)) 0 = (Suc 0)"
    using f_1_1(3) float_max_large S_0_0 S_1_1 S_2_2  by (simp add: cell_defs scores_second_def)
  have Pi_2_1: "p_i T (Suc (Suc 0)) (Suc 0) 0 = (Suc 0)"
    using f_1_1(4) float_max_large S_0_0 S_1_1 S_2_2  by (simp add: cell_defs scores_second_def)
  have S_2_1: "s_c T (Suc (Suc 0)) (Suc 0) 0 = Fin 0"
    using f_1_1(6) float_max_large S_0_0 S_1_1 S_2_2 I_1_2 I_2_1 by (simp add: cell_defs scores_second_def)
  have Pc_2_1: "p_c T (Suc (Suc 0)) (Suc 0) 0 = (Suc 0)"
    using f_1_1(8) float_max_large S_0_0 S_1_1 S_2_2 I_1_2 I_2_1 by (simp add: cell_defs scores_second_def)
  have S_1_2: "s_c T (Suc 0) (Suc (Suc 0)) 0 = Fin 0"
    using f_1_1(5) float_max_large S_0_0 S_1_1 S_2_2 I_1_2 I_2_1 by (simp add: cell_defs scores_second_def)
  have Pc_1_2: "p_c T (Suc 0) (Suc (Suc 0)) 0 = (Suc (Suc 0))"
    using f_1_1(7) float_max_large S_0_0 S_1_1 S_2_2 I_1_2 I_2_1 by (simp add: cell_defs scores_second_def)
  note f_2_0 = final_cells_Suc[of "Suc 0" 2 0 3 scores_second "[2]" 0, folded T_def]
  have I_0_2: "s_i T 0 (Suc (Suc 0)) 0 = Fin 10"
    using f_2_0(1) float_max_large S_0_0 S_1_1 S_2_2 I_0_1 I_1_0 S_0_1 S_1_0 I_1_2 I_2_1 S_1_2 S_2_1  by (simp add: cell_defs scores_second_def)
  have I_2_0: "s_i T (Suc (Suc 0)) 0 0 = Fin 0"
    using f_2_0(2) float_max_large S_0_0 S_1_1 S_2_2 I_0_1 I_1_0 S_0_1 S_1_0 I_1_2 I_2_1 S_1_2 S_2_1  by (simp add: cell_defs scores_second_def)
  have Pi_0_2: "p_i T 0 (Suc (Suc 0)) 0 = 0"
    using f_2_0(3) float_max_large S_0_0 S_1_1 S_2_2 I_0_1 I_1_0 S_0_1 S_1_0 I_1_2 I_2_1 S_1_2 S_2_1  by (simp add: cell_defs scores_second_def)
  have Pi_2_0: "p_i T (Suc (Suc 0)) 0 0 = 0"
    using f_2_0(4) float_max_large S_0_0 S_1_1 S_2_2 I_0_1 I_1_0 S_0_1 S_1_0 I_1_2 I_2_1 S_1_2 S_2_1  by (simp add: cell_defs scores_second_def)
  have S_2_0: "s_c T (Suc (Suc 0)) 0 0 = Fin 0"
    using f_2_0(6) float_max_large S_0_0 S_1_1 S_2_2 I_0_1 I_1_0 S_0_1 S_1_0 I_1_2 I_2_1 S_1_2 S_2_1 I_0_2 I_2_0 by (simp add: cell_defs scores_second_def)
  have Pc_2_0: "p_c T (Suc (Suc 0)) 0 0 = 0"
    using f_2_0(8) float_max_large S_0_0 S_1_1 S_2_2 I_0_1 I_1_0 S_0_1 S_1_0 I_1_2 I_2_1 S_1_2 S_2_1 I_0_2 I_2_0 by (simp add: cell_defs scores_second_def)
  have S_0_2: "s_c T 0 (Suc (Suc 0)) 0 = Fin 10"
    using f_2_0(5) float_max_large S_0_0 S_1_1 S_2_2 I_0_1 I_1_0 S_0_1 S_1_0 I_1_2 I_2_1 S_1_2 S_2_1 I_0_2 I_2_0 by (simp add: cell_defs scores_second_def)
  have Pc_0_2: "p_c T 0 (Suc (Suc 0)) 0 = (Suc (Suc 0))"
    using f_2_0(7) float_max_large S_0_0 S_1_1 S_2_2 I_0_1 I_1_0 S_0_1 S_1_0 I_1_2 I_2_1 S_1_2 S_2_1 I_0_2 I_2_0 by (simp add: cell_defs scores_second_def)
  show "p_i T 0 (Suc 0) 0 = 0" by (rule Pi_0_1)
  show "p_i T (Suc 0) 0 0 = 0" by (rule Pi_1_0)
  show "p_c T 0 (Suc 0) 0 = (Suc 0)" by (rule Pc_0_1)
  show "p_c T (Suc 0) 0 0 = 0" by (rule Pc_1_0)
  show "p_i T (Suc 0) (Suc (Suc 0)) 0 = (Suc 0)" by (rule Pi_1_2)
  show "p_i T (Suc (Suc 0)) (Suc 0) 0 = (Suc 0)" by (rule Pi_2_1)
  show "p_c T (Suc 0) (Suc (Suc 0)) 0 = (Suc (Suc 0))" by (rule Pc_1_2)
  show "p_c T (Suc (Suc 0)) (Suc 0) 0 = (Suc 0)" by (rule Pc_2_1)
  show "p_i T 0 (Suc (Suc 0)) 0 = 0" by (rule Pi_0_2)
  show "p_i T (Suc (Suc 0)) 0 0 = 0" by (rule Pi_2_0)
  show "p_c T 0 (Suc (Suc 0)) 0 = (Suc (Suc 0))" by (rule Pc_0_2)
  show "p_c T (Suc (Suc 0)) 0 0 = 0" by (rule Pc_2_0)
qed

lemma backtrack_second:
  assumes "P_i 0 (Suc 0) = 0"
    "P_i (Suc 0) 0 = 0"
    "P_c 0 (Suc 0) = (Suc 0)"
    "P_c (Suc 0) 0 = 0"
    "P_i (Suc 0) (Suc (Suc 0)) = (Suc 0)"
    "P_i (Suc (Suc 0)) (Suc 0) = (Suc 0)"
    "P_c (Suc 0) (Suc (Suc 0)) = (Suc (Suc 0))"
    "P_c (Suc (Suc 0)) (Suc 0) = (Suc 0)"
    "P_i 0 (Suc (Suc 0)) = 0"
    "P_i (Suc (Suc 0)) 0 = 0"
    "P_c 0 (Suc (Suc 0)) = (Suc (Suc 0))"
    "P_c (Suc (Suc 0)) 0 = 0"
  shows "backtrack 6 3 P_i P_c [1, 1, 1] 0 2 True = Some (Inr [1, 2, 0])"
  using assms by (simp add: eval_nat_numeral)

lemma eisner_second: "eisner 6 3 scores_second [[False, True, True]] = Some (Inr [[1, 2, 0]])"
proof -
  let ?T = "tables_upto 3 scores_second [2] 2"
  have T: "eisner_tables 3 scores_second [2] = ?T" by (simp add: eisner_tables_upto)
  have "backtrack 6 3 (\<lambda>a c. p_i ?T a c 0) (\<lambda>a c. p_c ?T a c 0) [1, 1, 1] 0 2 True =
        Some (Inr [1, 2, 0])"
    by (rule backtrack_second) (rule cells_second)+
  then have "sentence_heads 6 3 ?T 0 2 = Some (Inr [1, 2, 0])"
    by (simp add: sentence_heads_def eval_nat_numeral)
  moreover have "lens_of [[False, True, True]] = [2]" by (simp add: lens_of_def)
  ultimately show ?thesis
    by (simp add: eisner_unfold T backtrack_all_Cons pad_sequence_def
        del: backtrack_all.simps(2))
qed

lemma cells_second_four:
  fixes T defines "T \<equiv> tables_upto 4 scores_second [2] 3"
  shows "p_i T 0 (Suc 0) 0 = 0"
    "p_i T (Suc 0) 0 0 = 0"
    "p_c T 0 (Suc 0) 0 = (Suc 0)"
    "p_c T (Suc 0) 0 0 = 0"
    "p_i T (Suc 0) (Suc (Suc 0)) 0 = (Suc 0)"
    "p_i T (Suc (Suc 0)) (Suc 0) 0 = (Suc 0)"
    "p_c T (Suc 0) (Suc (Suc 0)) 0 = (Suc (Suc 0))"
    "p_c T (Suc (Suc 0)) (Suc 0) 0 = (Suc 0)"
    "p_i T 0 (Suc (Suc 0)) 0 = 0"
    "p_i T (Suc (Suc 0)) 0 0 = 0"
    "p_c T 0 (Suc (Suc 0)) 0 = (Suc (Suc 0))"
    "p_c T (Suc (Suc 0)) 0 0 = 0"
proof -
  have S_0_0: "s_c T 0 0 0 = Fin 0" by (simp add: T_def final_diag)
  have S_1_1: "s_c T (Suc 0) (Suc 0) 0 = Fin 0" by (simp add: T_def final_diag)
  have S_2_2: "s_c T (Suc (Suc 0)) (Suc (Suc 0)) 0 = Fin 0" by (simp add: T_def final_diag)
  note f_1_0 = final_cells_Suc[of 0 3 0 4 scores_second "[2]" 0, folded T_def]
  have I_0_1: "s_i T 0 (Suc 0) 0 = Fin 0"
    using f_1_0(1) float_max_large S_0_0 S_1_1 S_2_2  by (simp add: cell_defs scores_second_def)
  have I_1_0: "s_i T (Suc 0) 0 0 = Fin 0"
    using f_1_0(2) float_max_large S_0_0 S_1_1 S_2_2  by (simp add: cell_defs scores_second_def)
  have Pi_0_1: "p_i T 0 (Suc 0) 0 = 0"
    using f_1_0(3) float_max_large S_0_0 S_1_1 S_2_2  by (simp add: cell_defs scores_second_def)
  have Pi_1_0: "p_i T (Suc 0) 0 0 = 0"
    using f_1_0(4) float_max_large S_0_0 S_1_1 S_2_2  by (simp add: cell_defs scores_second_def)
  have S_1_0: "s_c T (Suc 0) 0 0 = Fin 0"
    using f_1_0(6) float_max_large S_0_0 S_1_1 S_2_2 I_0_1 I_1_0 by (simp add: cell_defs scores_second_def)
  have Pc_1_0: "p_c T (Suc 0) 0 0 = 0"
    using f_1_0(8) float_max_large S_0_0 S_1_1 S_2_2 I_0_1 I_1_0 by (simp add: cell_defs scores_second_def)
  have S_0_1: "s_c T 0 (Suc 0) 0 = NegInf"
    using f_1_0(5) float_max_large S_0_0 S_1_1 S_2_2 I_0_1 I_1_0 by (simp add: cell_defs scores_second_def)
  have Pc_0_1: "p_c T 0 (Suc 0) 0 = (Suc 0)"
    using f_1_0(7) float_max_large S_0_0 S_1_1 S_2_2 I_0_1 I_1_0 by (simp add: cell_defs scores_second_def)
  note f_1_1 = final_cells_Suc[of 0 3 "Suc 0" 4 scores_second "[2]" 0, folded T_def]
  have I_1_2: "s_i T (Suc 0) (Suc (Suc 0)) 0 = Fin 0"
    using f_1_1(1) float_max_large S_0_0 S_1_1 S_2_2  by (simp add: cell_defs scores_second_def)
  have I_2_1: "s_i T (Suc (Suc 0)) (Suc 0) 0 = Fin 0"
    using f_1_1(2) float_max_large S_0_0 S_1_1 S_2_2  by (simp add: cell_defs scores_second_def)
  have Pi_1_2: "p_i T (Suc 0) (Suc (Suc 0)) 0 = (Suc 0)"
    using f_1_1(3) float_max_large S_0_0 S_1_1 S_2_2  by (simp add: cell_defs scores_second_def)
  have Pi_2_1: "p_i T (Suc (Suc 0)) (Suc 0) 0 = (Suc 0)"
    using f_1_1(4) float_max_large S_0_0 S_1_1 S_2_2  by (simp add: cell_defs scores_second_def)
  have S_2_1: "s_c T (Suc (Suc 0)) (Suc 0) 0 = Fin 0"
    using f_1_1(6) float_max_large S_0_0 S_1_1 S_2_2 I_1_2 I_2_1 by (simp add: cell_defs scores_second_def)
  have Pc_2_1: "p_c T (Suc (Suc 0)) (Suc 0) 0 = (Suc 0)"
    using f_1_1(8) float_max_large S_0_0 S_1_1 S_2_2 I_1_2 I_2_1 by (simp add: cell_defs scores_second_def)
  have S_1_2: "s_c T (Suc 0) (Suc (Suc 0)) 0 = Fin 0"
    using f_1_1(5) float_max_large S_0_0 S_1_1 S_2_2 I_1_2 I_2_1 by (simp add: cell_defs scores_second_def)
  have Pc_1_2: "p_c T (Suc 0) (Suc (Suc 0)) 0 = (Suc (Suc 0))"
    using f_1_1(7) float_max_large S_0_0 S_1_1 S_2_2 I_1_2 I_2_1 by (simp add: cell_defs scores_second_def)
  note f_2_0 = final_cells_Suc[of "Suc 0" 3 0 4 scores_second "[2]" 0, folded T_def]
  have I_0_2: "s_i T 0 (Suc (Suc 0)) 0 = Fin 10"
    using f_2_0(1) float_max_large S_0_0 S_1_1 S_2_2 I_0_1 I_1_0 S_0_1 S_1_0 I_1_2 I_2_1 S_1_2 S_2_1  by (simp add: cell_defs scores_second_def)
  have I_2_0: "s_i T (Suc (Suc 0)) 0 0 = Fin 0"
    using f_2_0(2) float_max_large S_0_0 S_1_1 S_2_2 I_0_1 I_1_0 S_0_1 S_1_0 I_1_2 I_2_1 S_1_2 S_2_1  by (simp add: cell_defs scores_second_def)
  have Pi_0_2: "p_i T 0 (Suc (Suc 0)) 0 = 0"
    using f_2_0(3) float_max_large S_0_0 S_1_1 S_2_2 I_0_1 I_1_0 S_0_1 S_1_0 I_1_2 I_2_1 S_1_2 S_2_1  by (simp add: cell_defs scores_second_def)
  have Pi_2_0: "p_i T (Suc (Suc 0)) 0 0 = 0"
    using f_2_0(4) float_max_large S_0_0 S_1_1 S_2_2 I_0_1 I_1_0 S_0_1 S_1_0 I_1_2 I_2_1 S_1_2 S_2_1  by (simp add: cell_defs scores_second_def)
  have S_2_0: "s_c T (Suc (Suc 0)) 0 0 = Fin 0"
    using f_2_0(6) float_max_large S_0_0 S_1_1 S_2_2 I_0_1 I_1_0 S_0_1 S_1_0 I_1_2 I_2_1 S_1_2 S_2_1 I_0_2 I_2_0 by (simp add: cell_defs scores_second_def)
  have Pc_2_0: "p_c T (Suc (Suc 0)) 0 0 = 0"
    using f_2_0(8) float_max_large S_0_0 S_1_1 S_2_2 I_0_1 I_1_0 S_0_1 S_1_0 I_1_2 I_2_1 S_1_2 S_2_1 I_0_2 I_2_0 by (simp add: cell_defs scores_second_def)
  have S_0_2: "s_c T 0 (Suc (Suc 0)) 0 = Fin 10"
    using f_2_0(5) float_max_large S_0_0 S_1_1 S_2_2 I_0_1 I_1_0 S_0_1 S_1_0 I_1_2 I_2_1 S_1_2 S_2_1 I_0_2 I_2_0 by (simp add: cell_defs scores_second_def)
  have Pc_0_2: "p_c T 0 (Suc (Suc 0)) 0 = (Suc (Suc 0))"
    using f_2_0(7) float_max_large S_0_0 S_1_1 S_2_2 I_0_1 I_1_0 S_0_1 S_1_0 I_1_2 I_2_1 S_1_2 S_2_1 I_0_2 I_2_0 by (simp add: cell_defs scores_second_def)
  show "p_i T 0 (Suc 0) 0 = 0" by (rule Pi_0_1)
  show "p_i T (Suc 0) 0 0 = 0" by (rule Pi_1_0)
  show "p_c T 0 (Suc 0) 0 = (Suc 0)" by (rule Pc_0_1)
  show "p_c T (Suc 0) 0 0 = 0" by (rule Pc_1_0)
  show "p_i T (Suc 0) (Suc (Suc 0)) 0 = (Suc 0)" by (rule Pi_1_2)
  show "p_i T (Suc (Suc 0)) (Suc 0) 0 = (Suc 0)" by (rule Pi_2_1)
  show "p_c T (Suc 0) (Suc (Suc 0)) 0 = (Suc (Suc 0))" by (rule Pc_1_2)
  show "p_c T (Suc (Suc 0)) (Suc 0) 0 = (Suc 0)" by (rule Pc_2_1)
  show "p_i T 0 (Suc (Suc 0)) 0 = 0" by (rule Pi_0_2)
  show "p_i T (Suc (Suc 0)) 0 0 = 0" by (rule Pi_2_0)
  show "p_c T 0 (Suc (Suc 0)) 0 = (Suc (Suc 0))" by (rule Pc_0_2)
  show "p_c T (Suc (Suc 0)) 0 0 = 0" by (rule Pc_2_0)
qed

lemma backtrack_second_four:
  assumes "P_i 0 (Suc 0) = 0"
    "P_i (Suc 0) 0 = 0"
    "P_c 0 (Suc 0) = (Suc 0)"
    "P_c (Suc 0) 0 = 0"
    "P_i (Suc 0) (Suc (Suc 0)) = (Suc 0)"
    "P_i (Suc (Suc 0)) (Suc 0) = (Suc 0)"
    "P_c (Suc 0) (Suc (Suc 0)) = (Suc (Suc 0))"
    "P_c (Suc (Suc 0)) (Suc 0) = (Suc 0)"
    "P_i 0 (Suc (Suc 0)) = 0"
    "P_i (Suc (Suc 0)) 0 = 0"
    "P_c 0 (Suc (Suc 0)) = (Suc (Suc 0))"
    "P_c (Suc (Suc 0)) 0 = 0"
  shows "backtrack 8 4 P_i P_c [1, 1, 1] 0 2 True = Some (Inr [1, 2, 0])"
  using assms by (simp add: eval_nat_numeral)

lemma eisner_second_four: "eisner 8 4 scores_second [[False, True, True, False]] = Some (Inr [[1, 2, 0, 1]])"
proof -
  let ?T = "tables_upto 4 scores_second [2] 3"
  have T: "eisner_tables 4 scores_second [2] = ?T" by (simp add: eisner_tables_upto)
  have "backtrack 8 4 (\<lambda>a c. p_i ?T a c 0) (\<lambda>a c. p_c ?T a c 0) [1, 1, 1] 0 2 True =
        Some (Inr [1, 2, 0])"
    by (rule backtrack_second_four) (rule cells_second_four)+
  then have "sentence_heads 8 4 ?T 0 2 = Some (Inr [1, 2, 0])"
    by (simp add: sentence_heads_def eval_nat_numeral)
  moreover have "lens_of [[False, True, True, False]] = [2]" by (simp add: lens_of_def)
  ultimately show ?thesis
    by (simp add: eisner_unfold T backtrack_all_Cons pad_sequence_def
        del: backtrack_all.simps(2))
qed

lemma cells_second_pad:
  fixes T defines "T \<equiv> tables_upto 4 scores_second_pad [2] 3"
  shows "p_i T 0 (Suc 0) 0 = 0"
    "p_i T (Suc 0) 0 0 = 0"
    "p_c T 0 (Suc 0) 0 = (Suc 0)"
    "p_c T (Suc 0) 0 0 = 0"
    "p_i T (Suc 0) (Suc (Suc 0)) 0 = (Suc 0)"
    "p_i T (Suc (Suc 0)) (Suc 0) 0 = (Suc 0)"
    "p_c T (Suc 0) (Suc (Suc 0)) 0 = (Suc (Suc 0))"
    "p_c T (Suc (Suc 0)) (Suc 0) 0 = (Suc 0)"
    "p_i T 0 (Suc (Suc 0)) 0 = 0"
    "p_i T (Suc (Suc 0)) 0 0 = 0"
    "p_c T 0 (Suc (Suc 0)) 0 = (Suc (Suc 0))"
    "p_c T (Suc (Suc 0)) 0 0 = 0"
proof -
  have S_0_0: "s_c T 0 0 0 = Fin 0" by (simp add: T_def final_diag)
  have S_1_1: "s_c T (Suc 0) (Suc 0) 0 = Fin 0" by (simp add: T_def final_diag)
  have S_2_2: "s_c T (Suc (Suc 0)) (Suc (Suc 0)) 0 = Fin 0" by (simp add: T_def final_diag)
  note f_1_0 = final_cells_Suc[of 0 3 0 4 scores_second_pad "[2]" 0, folded T_def]
  have I_0_1: "s_i T 0 (Suc 0) 0 = Fin 0"
    using f_1_0(1) float_max_large S_0_0 S_1_1 S_2_2  by (simp add: cell_defs scores_second_pad_def)
  have I_1_0: "s_i T (Suc 0) 0 0 = Fin 0"
    using f_1_0(2) float_max_large S_0_0 S_1_1 S_2_2  by (simp add: cell_defs scores_second_pad_def)
  have Pi_0_1: "p_i T 0 (Suc 0) 0 = 0"
    using f_1_0(3) float_max_large S_0_0 S_1_1 S_2_2  by (simp add: cell_defs scores_second_pad_def)
  have Pi_1_0: "p_i T (Suc 0) 0 0 = 0"
    using f_1_0(4) float_max_large S_0_0 S_1_1 S_2_2  by (simp add: cell_defs scores_second_pad_def)
  have S_1_0: "s_c T (Suc 0) 0 0 = Fin 0"
    using f_1_0(6) float_max_large S_0_0 S_1_1 S_2_2 I_0_1 I_1_0 by (simp add: cell_defs scores_second_pad_def)
  have Pc_1_0: "p_c T (Suc 0) 0 0 = 0"
    using f_1_0(8) float_max_large S_0_0 S_1_1 S_2_2 I_0_1 I_1_0 by (simp add: cell_defs scores_second_pad_def)
  have S_0_1: "s_c T 0 (Suc 0) 0 = NegInf"
    using f_1_0(5) float_max_large S_0_0 S_1_1 S_2_2 I_0_1 I_1_0 by (simp add: cell_defs scores_second_pad_def)
  have Pc_0_1: "p_c T 0 (Suc 0) 0 = (Suc 0)"
    using f_1_0(7) float_max_large S_0_0 S_1_1 S_2_2 I_0_1 I_1_0 by (simp add: cell_defs scores_second_pad_def)
  note f_1_1 = final_cells_Suc[of 0 3 "Suc 0" 4 scores_second_pad "[2]" 0, folded T_def]
  have I_1_2: "s_i T (Suc 0) (Suc (Suc 0)) 0 = Fin 0"
    using f_1_1(1) float_max_large S_0_0 S_1_1 S_2_2  by (simp add: cell_defs scores_second_pad_def)
  have I_2_1: "s_i T (Suc (Suc 0)) (Suc 0) 0 = Fin 0"
    using f_1_1(2) float_max_large S_0_0 S_1_1 S_2_2  by (simp add: cell_defs scores_second_pad_def)
  have Pi_1_2: "p_i T (Suc 0) (Suc (Suc 0)) 0 = (Suc 0)"
    using f_1_1(3) float_max_large S_0_0 S_1_1 S_2_2  by (simp add: cell_defs scores_second_pad_def)
  have Pi_2_1: "p_i T (Suc (Suc 0)) (Suc 0) 0 = (Suc 0)"
    using f_1_1(4) float_max_large S_0_0 S_1_1 S_2_2  by (simp add: cell_defs scores_second_pad_def)
  have S_2_1: "s_c T (Suc (Suc 0)) (Suc 0) 0 = Fin 0"
    using f_1_1(6) float_max_large S_0_0 S_1_1 S_2_2 I_1_2 I_2_1 by (simp add: cell_defs scores_second_pad_def)
  have Pc_2_1: "p_c T (Suc (Suc 0)) (Suc 0) 0 = (Suc 0)"
    using f_1_1(8) float_max_large S_0_0 S_1_1 S_2_2 I_1_2 I_2_1 by (simp add: cell_defs scores_second_pad_def)
  have S_1_2: "s_c T (Suc 0) (Suc (Suc 0)) 0 = Fin 0"
    using f_1_1(5) float_max_large S_0_0 S_1_1 S_2_2 I_1_2 I_2_1 by (simp add: cell_defs scores_second_pad_def)
  have Pc_1_2: "p_c T (Suc 0) (Suc (Suc 0)) 0 = (Suc (Suc 0))"
    using f_1_1(7) float_max_large S_0_0 S_1_1 S_2_2 I_1_2 I_2_1 by (simp add: cell_defs scores_second_pad_def)
  note f_2_0 = final_cells_Suc[of "Suc 0" 3 0 4 scores_second_pad "[2]" 0, folded T_def]
  have I_0_2: "s_i T 0 (Suc (Suc 0)) 0 = Fin 10"
    using f_2_0(1) float_max_large S_0_0 S_1_1 S_2_2 I_0_1 I_1_0 S_0_1 S_1_0 I_1_2 I_2_1 S_1_2 S_2_1  by (simp add: cell_defs scores_second_pad_def)
  have I_2_0: "s_i T (Suc (Suc 0)) 0 0 = Fin 0"
    using f_2_0(2) float_max_large S_0_0 S_1_1 S_2_2 I_0_1 I_1_0 S_0_1 S_1_0 I_1_2 I_2_1 S_1_2 S_2_1  by (simp add: cell_defs scores_second_pad_def)
  have Pi_0_2: "p_i T 0 (Suc (Suc 0)) 0 = 0"
    using f_2_0(3) float_max_large S_0_0 S_1_1 S_2_2 I_0_1 I_1_0 S_0_1 S_1_0 I_1_2 I_2_1 S_1_2 S_2_1  by (simp add: cell_defs scores_second_pad_def)
  have Pi_2_0: "p_i T (Suc (Suc 0)) 0 0 = 0"
    using f_2_0(4) float_max_large S_0_0 S_1_1 S_2_2 I_0_1 I_1_0 S_0_1 S_1_0 I_1_2 I_2_1 S_1_2 S_2_1  by (simp add: cell_defs scores_second_pad_def)
  have S_2_0: "s_c T (Suc (Suc 0)) 0 0 = Fin 0"
    using f_2_0(6) float_max_large S_0_0 S_1_1 S_2_2 I_0_1 I_1_0 S_0_1 S_1_0 I_1_2 I_2_1 S_1_2 S_2_1 I_0_2 I_2_0 by (simp add: cell_defs scores_second_pad_def)
  have Pc_2_0: "p_c T (Suc (Suc 0)) 0 0 = 0"
    using f_2_0(8) float_max_large S_0_0 S_1_1 S_2_2 I_0_1 I_1_0 S_0_1 S_1_0 I_1_2 I_2_1 S_1_2 S_2_1 I_0_2 I_2_0 by (simp add: cell_defs scores_second_pad_def)
  have S_0_2: "s_c T 0 (Suc (Suc 0)) 0 = Fin 10"
    using f_2_0(5) float_max_large S_0_0 S_1_1 S_2_2 I_0_1 I_1_0 S_0_1 S_1_0 I_1_2 I_2_1 S_1_2 S_2_1 I_0_2 I_2_0 by (simp add: cell_defs scores_second_pad_def)
  have Pc_0_2: "p_c T 0 (Suc (Suc 0)) 0 = (Suc (Suc 0))"
    using f_2_0(7) float_max_large S_0_0 S_1_1 S_2_2 I_0_1 I_1_0 S_0_1 S_1_0 I_1_2 I_2_1 S_1_2 S_2_1 I_0_2 I_2_0 by (simp add: cell_defs scores_second_pad_def)
  show "p_i T 0 (Suc 0) 0 = 0" by (rule Pi_0_1)
  show "p_i T (Suc 0) 0 0 = 0" by (rule Pi_1_0)
  show "p_c T 0 (Suc 0) 0 = (Suc 0)" by (rule Pc_0_1)
  show "p_c T (Suc 0) 0 0 = 0" by (rule Pc_1_0)
  show "p_i T (Suc 0) (Suc (Suc 0)) 0 = (Suc 0)" by (rule Pi_1_2)
  show "p_i T (Suc (Suc 0)) (Suc 0) 0 = (Suc 0)" by (rule Pi_2_1)
  show "p_c T (Suc 0) (Suc (Suc 0)) 0 = (Suc (Suc 0))" by (rule Pc_1_2)
  show "p_c T (Suc (Suc 0)) (Suc 0) 0 = (Suc 0)" by (rule Pc_2_1)
  show "p_i T 0 (Suc (Suc 0)) 0 = 0" by (rule Pi_0_2)
  show "p_i T (Suc (Suc 0)) 0 0 = 0" by (rule Pi_2_0)
  show "p_c T 0 (Suc (Suc 0)) 0 = (Suc (Suc 0))" by (rule Pc_0_2)
  show "p_c T (Suc (Suc 0)) 0 0 = 0" by (rule Pc_2_0)
qed

lemma backtrack_second_pad:
  assumes "P_i 0 (Suc 0) = 0"
    "P_i (Suc 0) 0 = 0"
    "P_c 0 (Suc 0) = (Suc 0)"
    "P_c (Suc 0) 0 = 0"
    "P_i (Suc 0) (Suc (Suc 0)) = (Suc 0)"
    "P_i (Suc (Suc 0)) (Suc 0) = (Suc 0)"
    "P_c (Suc 0) (Suc (Suc 0)) = (Suc (Suc 0))"
    "P_c (Suc (Suc 0)) (Suc 0) = (Suc 0)"
    "P_i 0 (Suc (Suc 0)) = 0"
    "P_i (Suc (Suc 0)) 0 = 0"
    "P_c 0 (Suc (Suc 0)) = (Suc (Suc 0))"
    "P_c (Suc (Suc 0)) 0 = 0"
  shows "backtrack 8 4 P_i P_c [1, 1, 1] 0 2 True = Some (Inr [1, 2, 0])"
  using assms by (simp add: eval_nat_numeral)

lemma eisner_second_pad: "eisner 8 4 scores_second_pad [[False, True, True, False]] = Some (Inr [[1, 2, 0, 1]])"
proof -
  let ?T = "tables_upto 4 scores_second_pad [2] 3"
  have T: "eisner_tables 4 scores_second_pad [2] = ?T" by (simp add: eisner_tables_upto)
  have "backtrack 8 4 (\<lambda>a c. p_i ?T a c 0) (\<lambda>a c. p_c ?T a c 0) [1, 1, 1] 0 2 True =
        Some (Inr [1, 2, 0])"
    by (rule backtrack_second_pad) (rule cells_second_pad)+
  then have "sentence_heads 8 4 ?T 0 2 = Some (Inr [1, 2, 0])"
    by (simp add: sentence_heads_def eval_nat_numeral)
  moreover have "lens_of [[False, True, True, False]] = [2]" by (simp add: lens_of_def)
  ultimately show ?thesis
    by (simp add: eisner_unfold T backtrack_all_Cons pad_sequence_def
        del: backtrack_all.simps(2))
qed

lemma cells_huge:
  fixes T defines "T \<equiv> tables_upto 5 scores_huge [4] 4"
  shows "p_i T 0 (Suc 0) 0 = 0"
    "p_i T (Suc 0) 0 0 = 0"
    "p_c T 0 (Suc 0) 0 = (Suc 0)"
    "p_c T (Suc 0) 0 0 = 0"
    "p_i T (Suc 0) (Suc (Suc 0)) 0 = (Suc 0)"
    "p_i T (Suc (Suc 0)) (Suc 0) 0 = (Suc 0)"
    "p_c T (Suc 0) (Suc (Suc 0)) 0 = (Suc (Suc 0))"
    "p_c T (Suc (Suc 0)) (Suc 0) 0 = (Suc 0)"
    "p_i T (Suc (Suc 0)) (Suc (Suc (Suc 0))) 0 = (Suc (Suc 0))"
    "p_i T (Suc (Suc (Suc 0))) (Suc (Suc 0)) 0 = (Suc (Suc 0))"
    "p_c T (Suc (Suc 0)) (Suc (Suc (Suc 0))) 0 = (Suc (Suc (Suc 0)))"
    "p_c T (Suc (Suc (Suc 0))) (Suc (Suc 0)) 0 = (Suc (Suc 0))"
    "p_i T (Suc (Suc (Suc 0))) (Suc (Suc (Suc (Suc 0)))) 0 = (Suc (Suc (Suc 0)))"
    "p_i T (Suc (Suc (Suc (Suc 0)))) (Suc (Suc (Suc 0))) 0 = (Suc (Suc (Suc 0)))"
    "p_c T (Suc (Suc (Suc 0))) (Suc (Suc (Suc (Suc 0)))) 0 = (Suc (Suc (Suc (Suc 0))))"
    "p_c T (Suc (Suc (Suc (Suc 0)))) (Suc (Suc (Suc 0))) 0 = (Suc (Suc (Suc 0)))"
    "p_i T 0 (Suc (Suc 0)) 0 = 0"
    "p_i T (Suc (Suc 0)) 0 0 = 0"
    "p_c T 0 (Suc (Suc 0)) 0 = (Suc 0)"
    "p_c T (Suc (Suc 0)) 0 0 = 0"
    "p_i T (Suc 0) (Suc (Suc (Suc 0))) 0 = (Suc 0)"
    "p_i T (Suc (Suc (Suc 0))) (Suc 0) 0 = (Suc 0)"
    "p_c T (Suc 0) (Suc (Suc (Suc 0))) 0 = (Suc (Suc 0))"
    "p_c T (Suc (Suc (Suc 0))) (Suc 0) 0 = (Suc 0)"
    "p_i T (Suc (Suc 0)) (Suc (Suc (Suc (Suc 0)))) 0 = (Suc (Suc 0))"
    "p_i T (Suc (Suc (Suc (Suc 0)))) (Suc (Suc 0)) 0 = (Suc (Suc 0))"
    "p_c T (Suc (Suc 0)) (Suc (Suc (Suc (Suc 0)))) 0 = (Suc (Suc (Suc 0)))"
    "p_c T (Suc (Suc (Suc (Suc 0)))) (Suc (Suc 0)) 0 = (Suc (Suc 0))"
    "p_i T 0 (Suc (Suc (Suc 0))) 0 = 0"
    "p_i T (Suc (Suc (Suc 0))) 0 0 = 0"
    "p_c T 0 (Suc (Suc (Suc 0))) 0 = (Suc 0)"
    "p_c T (Suc (Suc (Suc 0))) 0 0 = 0"
    "p_i T (Suc 0) (Suc (Suc (Suc (Suc 0)))) 0 = (Suc 0)"
    "p_i T (Suc (Suc (Suc (Suc 0)))) (Suc 0) 0 = (Suc 0)"
    "p_c T (Suc 0) (Suc (Suc (Suc (Suc 0)))) 0 = (Suc (Suc 0))"
    "p_c T (Suc (Suc (Suc (Suc 0)))) (Suc 0) 0 = (Suc 0)"
    "p_i T 0 (Suc (Suc (Suc (Suc 0)))) 0 = (Suc 0)"
    "p_i T (Suc (Suc (Suc (Suc 0)))) 0 0 = (Suc 0)"
    "p_c T 0 (Suc (Suc (Suc (Suc 0)))) 0 = (Suc (Suc (Suc (Suc 0))))"
    "p_c T (Suc (Suc (Suc (Suc 0)))) 0 0 = 0"
proof -
  have S_0_0: "s_c T 0 0 0 = Fin 0" by (simp add: T_def final_diag)
  have S_1_1: "s_c T (Suc 0) (Suc 0) 0 = Fin 0" by (simp add: T_def final_diag)
  have S_2_2: "s_c T (Suc (Suc 0)) (Suc (Suc 0)) 0 = Fin 0" by (simp add: T_def final_diag)
  have S_3_3: "s_c T (Suc (Suc (Suc 0))) (Suc (Suc (Suc 0))) 0 = Fin 0" by (simp add: T_def final_diag)
  have S_4_4: "s_c T (Suc (Suc (Suc (Suc 0)))) (Suc (Suc (Suc (Suc 0)))) 0 = Fin 0" by (simp add: T_def final_diag)
  note f_1_0 = final_cells_Suc[of 0 4 0 5 scores_huge "[4]" 0, folded T_def]
  have I_0_1: "s_i T 0 (Suc 0) 0 = Fin huge_score"
    using f_1_0(1) huge_score_facts S_0_0 S_1_1 S_2_2 S_3_3 S_4_4  by (simp add: cell_defs scores_huge_def)
  have I_1_0: "s_i T (Suc 0) 0 0 = Fin huge_score"
    using f_1_0(2) huge_score_facts S_0_0 S_1_1 S_2_2 S_3_3 S_4_4  by (simp add: cell_defs scores_huge_def)
  have Pi_0_1: "p_i T 0 (Suc 0) 0 = 0"
    using f_1_0(3) huge_score_facts S_0_0 S_1_1 S_2_2 S_3_3 S_4_4  by (simp add: cell_defs scores_huge_def)
  have Pi_1_0: "p_i T (Suc 0) 0 0 = 0"
    using f_1_0(4) huge_score_facts S_0_0 S_1_1 S_2_2 S_3_3 S_4_4  by (simp add: cell_defs scores_huge_def)
  have S_1_0: "s_c T (Suc 0) 0 0 = Fin huge_score"
    using f_1_0(6) huge_score_facts S_0_0 S_1_1 S_2_2 S_3_3 S_4_4 I_0_1 I_1_0 by (simp add: cell_defs scores_huge_def)
  have Pc_1_0: "p_c T (Suc 0) 0 0 = 0"
    using f_1_0(8) huge_score_facts S_0_0 S_1_1 S_2_2 S_3_3 S_4_4 I_0_1 I_1_0 by (simp add: cell_defs scores_huge_def)
  have S_0_1: "s_c T 0 (Suc 0) 0 = NegInf"
    using f_1_0(5) huge_score_facts S_0_0 S_1_1 S_2_2 S_3_3 S_4_4 I_0_1 I_1_0 by (simp add: cell_defs scores_huge_def)
  have Pc_0_1: "p_c T 0 (Suc 0) 0 = (Suc 0)"
    using f_1_0(7) huge_score_facts S_0_0 S_1_1 S_2_2 S_3_3 S_4_4 I_0_1 I_1_0 by (simp add: cell_defs scores_huge_def)
  note f_1_1 = final_cells_Suc[of 0 4 "Suc 0" 5 scores_huge "[4]" 0, folded T_def]
  have I_1_2: "s_i T (Suc 0) (Suc (Suc 0)) 0 = Fin huge_score"
    using f_1_1(1) huge_score_facts S_0_0 S_1_1 S_2_2 S_3_3 S_4_4  by (simp add: cell_defs scores_huge_def)
  have I_2_1: "s_i T (Suc (Suc 0)) (Suc 0) 0 = Fin huge_score"
    using f_1_1(2) huge_score_facts S_0_0 S_1_1 S_2_2 S_3_3 S_4_4  by (simp add: cell_defs scores_huge_def)
  have Pi_1_2: "p_i T (Suc 0) (Suc (Suc 0)) 0 = (Suc 0)"
    using f_1_1(3) huge_score_facts S_0_0 S_1_1 S_2_2 S_3_3 S_4_4  by (simp add: cell_defs scores_huge_def)
  have Pi_2_1: "p_i T (Suc (Suc 0)) (Suc 0) 0 = (Suc 0)"
    using f_1_1(4) huge_score_facts S_0_0 S_1_1 S_2_2 S_3_3 S_4_4  by (simp add: cell_defs scores_huge_def)
  have S_2_1: "s_c T (Suc (Suc 0)) (Suc 0) 0 = Fin huge_score"
    using f_1_1(6) huge_score_facts S_0_0 S_1_1 S_2_2 S_3_3 S_4_4 I_1_2 I_2_1 by (simp add: cell_defs scores_huge_def)
  have Pc_2_1: "p_c T (Suc (Suc 0)) (Suc 0) 0 = (Suc 0)"
    using f_1_1(8) huge_score_facts S_0_0 S_1_1 S_2_2 S_3_3 S_4_4 I_1_2 I_2_1 by (simp add: cell_defs scores_huge_def)
  have S_1_2: "s_c T (Suc 0) (Suc (Suc 0)) 0 = Fin huge_score"
    using f_1_1(5) huge_score_facts S_0_0 S_1_1 S_2_2 S_3_3 S_4_4 I_1_2 I_2_1 by (simp add: cell_defs scores_huge_def)
  have Pc_1_2: "p_c T (Suc 0) (Suc (Suc 0)) 0 = (Suc (Suc 0))"
    using f_1_1(7) huge_score_facts S_0_0 S_1_1 S_2_2 S_3_3 S_4_4 I_1_2 I_2_1 by (simp add: cell_defs scores_huge_def)
  note f_1_2 = final_cells_Suc[of 0 4 "Suc (Suc 0)" 5 scores_huge "[4]" 0, folded T_def]
  have I_2_3: "s_i T (Suc (Suc 0)) (Suc (Suc (Suc 0))) 0 = Fin huge_score"
    using f_1_2(1) huge_score_facts S_0_0 S_1_1 S_2_2 S_3_3 S_4_4  by (simp add: cell_defs scores_huge_def)
  have I_3_2: "s_i T (Suc (Suc (Suc 0))) (Suc (Suc 0)) 0 = Fin huge_score"
    using f_1_2(2) huge_score_facts S_0_0 S_1_1 S_2_2 S_3_3 S_4_4  by (simp add: cell_defs scores_huge_def)
  have Pi_2_3: "p_i T (Suc (Suc 0)) (Suc (Suc (Suc 0))) 0 = (Suc (Suc 0))"
    using f_1_2(3) huge_score_facts S_0_0 S_1_1 S_2_2 S_3_3 S_4_4  by (simp add: cell_defs scores_huge_def)
  have Pi_3_2: "p_i T (Suc (Suc (Suc 0))) (Suc (Suc 0)) 0 = (Suc (Suc 0))"
    using f_1_2(4) huge_score_facts S_0_0 S_1_1 S_2_2 S_3_3 S_4_4  by (simp add: cell_defs scores_huge_def)
  have S_3_2: "s_c T (Suc (Suc (Suc 0))) (Suc (Suc 0)) 0 = Fin huge_score"
    using f_1_2(6) huge_score_facts S_0_0 S_1_1 S_2_2 S_3_3 S_4_4 I_2_3 I_3_2 by (simp add: cell_defs scores_huge_def)
  have Pc_3_2: "p_c T (Suc (Suc (Suc 0))) (Suc (Suc 0)) 0 = (Suc (Suc 0))"
    using f_1_2(8) huge_score_facts S_0_0 S_1_1 S_2_2 S_3_3 S_4_4 I_2_3 I_3_2 by (simp add: cell_defs scores_huge_def)
  have S_2_3: "s_c T (Suc (Suc 0)) (Suc (Suc (Suc 0))) 0 = Fin huge_score"
    using f_1_2(5) huge_score_facts S_0_0 S_1_1 S_2_2 S_3_3 S_4_4 I_2_3 I_3_2 by (simp add: cell_defs scores_huge_def)
  have Pc_2_3: "p_c T (Suc (Suc 0)) (Suc (Suc (Suc 0))) 0 = (Suc (Suc (Suc 0)))"
    using f_1_2(7) huge_score_facts S_0_0 S_1_1 S_2_2 S_3_3 S_4_4 I_2_3 I_3_2 by (simp add: cell_defs scores_huge_def)
  note f_1_3 = final_cells_Suc[of 0 4 "Suc (Suc (Suc 0))" 5 scores_huge "[4]" 0, folded T_def]
  have I_3_4: "s_i T (Suc (Suc (Suc 0))) (Suc (Suc (Suc (Suc 0)))) 0 = Fin huge_score"
    using f_1_3(1) huge_score_facts S_0_0 S_1_1 S_2_2 S_3_3 S_4_4  by (simp add: cell_defs scores_huge_def)
  have I_4_3: "s_i T (Suc (Suc (Suc (Suc 0)))) (Suc (Suc (Suc 0))) 0 = Fin huge_score"
    using f_1_3(2) huge_score_facts S_0_0 S_1_1 S_2_2 S_3_3 S_4_4  by (simp add: cell_defs scores_huge_def)
  have Pi_3_4: "p_i T (Suc (Suc (Suc 0))) (Suc (Suc (Suc (Suc 0)))) 0 = (Suc (Suc (Suc 0)))"
    using f_1_3(3) huge_score_facts S_0_0 S_1_1 S_2_2 S_3_3 S_4_4  by (simp add: cell_defs scores_huge_def)
  have Pi_4_3: "p_i T (Suc (Suc (Suc (Suc 0)))) (Suc (Suc (Suc 0))) 0 = (Suc (Suc (Suc 0)))"
    using f_1_3(4) huge_score_facts S_0_0 S_1_1 S_2_2 S_3_3 S_4_4  by (simp add: cell_defs scores_huge_def)
  have S_4_3: "s_c T (Suc (Suc (Suc (Suc 0)))) (Suc (Suc (Suc 0))) 0 = Fin huge_score"
    using f_1_3(6) huge_score_facts S_0_0 S_1_1 S_2_2 S_3_3 S_4_4 I_3_4 I_4_3 by (simp add: cell_defs scores_huge_def)
  have Pc_4_3: "p_c T (Suc (Suc (Suc (Suc 0)))) (Suc (Suc (Suc 0))) 0 = (Suc (Suc (Suc 0)))"
    using f_1_3(8) huge_score_facts S_0_0 S_1_1 S_2_2 S_3_3 S_4_4 I_3_4 I_4_3 by (simp add: cell_defs scores_huge_def)
  have S_3_4: "s_c T (Suc (Suc (Suc 0))) (Suc (Suc (Suc (Suc 0)))) 0 = Fin huge_score"
    using f_1_3(5) huge_score_facts S_0_0 S_1_1 S_2_2 S_3_3 S_4_4 I_3_4 I_4_3 by (simp add: cell_defs scores_huge_def)
  have Pc_3_4: "p_c T (Suc (Suc (Suc 0))) (Suc (Suc (Suc (Suc 0)))) 0 = (Suc (Suc (Suc (Suc 0))))"
    using f_1_3(7) huge_score_facts S_0_0 S_1_1 S_2_2 S_3_3 S_4_4 I_3_4 I_4_3 by (simp add: cell_defs scores_huge_def)
  note f_2_0 = final_cells_Suc[of "Suc 0" 4 0 5 scores_huge "[4]" 0, folded T_def]
  have I_0_2: "s_i T 0 (Suc (Suc 0)) 0 = PosInf"
    using f_2_0(1) huge_score_facts S_0_0 S_1_1 S_2_2 S_3_3 S_4_4 I_0_1 I_1_0 S_0_1 S_1_0 I_1_2 I_2_1 S_1_2 S_2_1 I_2_3 I_3_2 S_2_3 S_3_2 I_3_4 I_4_3 S_3_4 S_4_3  by (simp add: cell_defs scores_huge_def)
  have I_2_0: "s_i T (Suc (Suc 0)) 0 0 = PosInf"
    using f_2_0(2) huge_score_facts S_0_0 S_1_1 S_2_2 S_3_3 S_4_4 I_0_1 I_1_0 S_0_1 S_1_0 I_1_2 I_2_1 S_1_2 S_2_1 I_2_3 I_3_2 S_2_3 S_3_2 I_3_4 I_4_3 S_3_4 S_4_3  by (simp add: cell_defs scores_huge_def)
  have Pi_0_2: "p_i T 0 (Suc (Suc 0)) 0 = 0"
    using f_2_0(3) huge_score_facts S_0_0 S_1_1 S_2_2 S_3_3 S_4_4 I_0_1 I_1_0 S_0_1 S_1_0 I_1_2 I_2_1 S_1_2 S_2_1 I_2_3 I_3_2 S_2_3 S_3_2 I_3_4 I_4_3 S_3_4 S_4_3  by (simp add: cell_defs scores_huge_def)
  have Pi_2_0: "p_i T (Suc (Suc 0)) 0 0 = 0"
    using f_2_0(4) huge_score_facts S_0_0 S_1_1 S_2_2 S_3_3 S_4_4 I_0_1 I_1_0 S_0_1 S_1_0 I_1_2 I_2_1 S_1_2 S_2_1 I_2_3 I_3_2 S_2_3 S_3_2 I_3_4 I_4_3 S_3_4 S_4_3  by (simp add: cell_defs scores_huge_def)
  have S_2_0: "s_c T (Suc (Suc 0)) 0 0 = PosInf"
    using f_2_0(6) huge_score_facts S_0_0 S_1_1 S_2_2 S_3_3 S_4_4 I_0_1 I_1_0 S_0_1 S_1_0 I_1_2 I_2_1 S_1_2 S_2_1 I_2_3 I_3_2 S_2_3 S_3_2 I_3_4 I_4_3 S_3_4 S_4_3 I_0_2 I_2_0 by (simp add: cell_defs scores_huge_def)
  have Pc_2_0: "p_c T (Suc (Suc 0)) 0 0 = 0"
    using f_2_0(8) huge_score_facts S_0_0 S_1_1 S_2_2 S_3_3 S_4_4 I_0_1 I_1_0 S_0_1 S_1_0 I_1_2 I_2_1 S_1_2 S_2_1 I_2_3 I_3_2 S_2_3 S_3_2 I_3_4 I_4_3 S_3_4 S_4_3 I_0_2 I_2_0 by (simp add: cell_defs scores_huge_def)
  have S_0_2: "s_c T 0 (Suc (Suc 0)) 0 = NegInf"
    using f_2_0(5) huge_score_facts S_0_0 S_1_1 S_2_2 S_3_3 S_4_4 I_0_1 I_1_0 S_0_1 S_1_0 I_1_2 I_2_1 S_1_2 S_2_1 I_2_3 I_3_2 S_2_3 S_3_2 I_3_4 I_4_3 S_3_4 S_4_3 I_0_2 I_2_0 by (simp add: cell_defs scores_huge_def)
  have Pc_0_2: "p_c T 0 (Suc (Suc 0)) 0 = (Suc 0)"
    using f_2_0(7) huge_score_facts S_0_0 S_1_1 S_2_2 S_3_3 S_4_4 I_0_1 I_1_0 S_0_1 S_1_0 I_1_2 I_2_1 S_1_2 S_2_1 I_2_3 I_3_2 S_2_3 S_3_2 I_3_4 I_4_3 S_3_4 S_4_3 I_0_2 I_2_0 by (simp add: cell_defs scores_huge_def)
  note f_2_1 = final_cells_Suc[of "Suc 0" 4 "Suc 0" 5 scores_huge "[4]" 0, folded T_def]
  have I_1_3: "s_i T (Suc 0) (Suc (Suc (Suc 0))) 0 = PosInf"
    using f_2_1(1) huge_score_facts S_0_0 S_1_1 S_2_2 S_3_3 S_4_4 I_0_1 I_1_0 S_0_1 S_1_0 I_1_2 I_2_1 S_1_2 S_2_1 I_2_3 I_3_2 S_2_3 S_3_2 I_3_4 I_4_3 S_3_4 S_4_3  by (simp add: cell_defs scores_huge_def)
  have I_3_1: "s_i T (Suc (Suc (Suc 0))) (Suc 0) 0 = PosInf"
    using f_2_1(2) huge_score_facts S_0_0 S_1_1 S_2_2 S_3_3 S_4_4 I_0_1 I_1_0 S_0_1 S_1_0 I_1_2 I_2_1 S_1_2 S_2_1 I_2_3 I_3_2 S_2_3 S_3_2 I_3_4 I_4_3 S_3_4 S_4_3  by (simp add: cell_defs scores_huge_def)
  have Pi_1_3: "p_i T (Suc 0) (Suc (Suc (Suc 0))) 0 = (Suc 0)"
    using f_2_1(3) huge_score_facts S_0_0 S_1_1 S_2_2 S_3_3 S_4_4 I_0_1 I_1_0 S_0_1 S_1_0 I_1_2 I_2_1 S_1_2 S_2_1 I_2_3 I_3_2 S_2_3 S_3_2 I_3_4 I_4_3 S_3_4 S_4_3  by (simp add: cell_defs scores_huge_def)
  have Pi_3_1: "p_i T (Suc (Suc (Suc 0))) (Suc 0) 0 = (Suc 0)"
    using f_2_1(4) huge_score_facts S_0_0 S_1_1 S_2_2 S_3_3 S_4_4 I_0_1 I_1_0 S_0_1 S_1_0 I_1_2 I_2_1 S_1_2 S_2_1 I_2_3 I_3_2 S_2_3 S_3_2 I_3_4 I_4_3 S_3_4 S_4_3  by (simp add: cell_defs scores_huge_def)
  have S_3_1: "s_c T (Suc (Suc (Suc 0))) (Suc 0) 0 = PosInf"
    using f_2_1(6) huge_score_facts S_0_0 S_1_1 S_2_2 S_3_3 S_4_4 I_0_1 I_1_0 S_0_1 S_1_0 I_1_2 I_2_1 S_1_2 S_2_1 I_2_3 I_3_2 S_2_3 S_3_2 I_3_4 I_4_3 S_3_4 S_4_3 I_1_3 I_3_1 by (simp add: cell_defs scores_huge_def)
  have Pc_3_1: "p_c T (Suc (Suc (Suc 0))) (Suc 0) 0 = (Suc 0)"
    using f_2_1(8) huge_score_facts S_0_0 S_1_1 S_2_2 S_3_3 S_4_4 I_0_1 I_1_0 S_0_1 S_1_0 I_1_2 I_2_1 S_1_2 S_2_1 I_2_3 I_3_2 S_2_3 S_3_2 I_3_4 I_4_3 S_3_4 S_4_3 I_1_3 I_3_1 by (simp add: cell_defs scores_huge_def)
  have S_1_3: "s_c T (Suc 0) (Suc (Suc (Suc 0))) 0 = PosInf"
    using f_2_1(5) huge_score_facts S_0_0 S_1_1 S_2_2 S_3_3 S_4_4 I_0_1 I_1_0 S_0_1 S_1_0 I_1_2 I_2_1 S_1_2 S_2_1 I_2_3 I_3_2 S_2_3 S_3_2 I_3_4 I_4_3 S_3_4 S_4_3 I_1_3 I_3_1 by (simp add: cell_defs scores_huge_def)
  have Pc_1_3: "p_c T (Suc 0) (Suc (Suc (Suc 0))) 0 = (Suc (Suc 0))"
    using f_2_1(7) huge_score_facts S_0_0 S_1_1 S_2_2 S_3_3 S_4_4 I_0_1 I_1_0 S_0_1 S_1_0 I_1_2 I_2_1 S_1_2 S_2_1 I_2_3 I_3_2 S_2_3 S_3_2 I_3_4 I_4_3 S_3_4 S_4_3 I_1_3 I_3_1 by (simp add: cell_defs scores_huge_def)
  note f_2_2 = final_cells_Suc[of "Suc 0" 4 "Suc (Suc 0)" 5 scores_huge "[4]" 0, folded T_def]
  have I_2_4: "s_i T (Suc (Suc 0)) (Suc (Suc (Suc (Suc 0)))) 0 = PosInf"
    using f_2_2(1) huge_score_facts S_0_0 S_1_1 S_2_2 S_3_3 S_4_4 I_0_1 I_1_0 S_0_1 S_1_0 I_1_2 I_2_1 S_1_2 S_2_1 I_2_3 I_3_2 S_2_3 S_3_2 I_3_4 I_4_3 S_3_4 S_4_3  by (simp add: cell_defs scores_huge_def)
  have I_4_2: "s_i T (Suc (Suc (Suc (Suc 0)))) (Suc (Suc 0)) 0 = PosInf"
    using f_2_2(2) huge_score_facts S_0_0 S_1_1 S_2_2 S_3_3 S_4_4 I_0_1 I_1_0 S_0_1 S_1_0 I_1_2 I_2_1 S_1_2 S_2_1 I_2_3 I_3_2 S_2_3 S_3_2 I_3_4 I_4_3 S_3_4 S_4_3  by (simp add: cell_defs scores_huge_def)
  have Pi_2_4: "p_i T (Suc (Suc 0)) (Suc (Suc (Suc (Suc 0)))) 0 = (Suc (Suc 0))"
    using f_2_2(3) huge_score_facts S_0_0 S_1_1 S_2_2 S_3_3 S_4_4 I_0_1 I_1_0 S_0_1 S_1_0 I_1_2 I_2_1 S_1_2 S_2_1 I_2_3 I_3_2 S_2_3 S_3_2 I_3_4 I_4_3 S_3_4 S_4_3  by (simp add: cell_defs scores_huge_def)
  have Pi_4_2: "p_i T (Suc (Suc (Suc (Suc 0)))) (Suc (Suc 0)) 0 = (Suc (Suc 0))"
    using f_2_2(4) huge_score_facts S_0_0 S_1_1 S_2_2 S_3_3 S_4_4 I_0_1 I_1_0 S_0_1 S_1_0 I_1_2 I_2_1 S_1_2 S_2_1 I_2_3 I_3_2 S_2_3 S_3_2 I_3_4 I_4_3 S_3_4 S_4_3  by (simp add: cell_defs scores_huge_def)
  have S_4_2: "s_c T (Suc (Suc (Suc (Suc 0)))) (Suc (Suc 0)) 0 = PosInf"
    using f_2_2(6) huge_score_facts S_0_0 S_1_1 S_2_2 S_3_3 S_4_4 I_0_1 I_1_0 S_0_1 S_1_0 I_1_2 I_2_1 S_1_2 S_2_1 I_2_3 I_3_2 S_2_3 S_3_2 I_3_4 I_4_3 S_3_4 S_4_3 I_2_4 I_4_2 by (simp add: cell_defs scores_huge_def)
  have Pc_4_2: "p_c T (Suc (Suc (Suc (Suc 0)))) (Suc (Suc 0)) 0 = (Suc (Suc 0))"
    using f_2_2(8) huge_score_facts S_0_0 S_1_1 S_2_2 S_3_3 S_4_4 I_0_1 I_1_0 S_0_1 S_1_0 I_1_2 I_2_1 S_1_2 S_2_1 I_2_3 I_3_2 S_2_3 S_3_2 I_3_4 I_4_3 S_3_4 S_4_3 I_2_4 I_4_2 by (simp add: cell_defs scores_huge_def)
  have S_2_4: "s_c T (Suc (Suc 0)) (Suc (Suc (Suc (Suc 0)))) 0 = PosInf"
    using f_2_2(5) huge_score_facts S_0_0 S_1_1 S_2_2 S_3_3 S_4_4 I_0_1 I_1_0 S_0_1 S_1_0 I_1_2 I_2_1 S_1_2 S_2_1 I_2_3 I_3_2 S_2_3 S_3_2 I_3_4 I_4_3 S_3_4 S_4_3 I_2_4 I_4_2 by (simp add: cell_defs scores_huge_def)
  have Pc_2_4: "p_c T (Suc (Suc 0)) (Suc (Suc (Suc (Suc 0)))) 0 = (Suc (Suc (Suc 0)))"
    using f_2_2(7) huge_score_facts S_0_0 S_1_1 S_2_2 S_3_3 S_4_4 I_0_1 I_1_0 S_0_1 S_1_0 I_1_2 I_2_1 S_1_2 S_2_1 I_2_3 I_3_2 S_2_3 S_3_2 I_3_4 I_4_3 S_3_4 S_4_3 I_2_4 I_4_2 by (simp add: cell_defs scores_huge_def)
  note f_3_0 = final_cells_Suc[of "Suc (Suc 0)" 4 0 5 scores_huge "[4]" 0, folded T_def]
  have I_0_3: "s_i T 0 (Suc (Suc (Suc 0))) 0 = PosInf"
    using f_3_0(1) huge_score_facts S_0_0 S_1_1 S_2_2 S_3_3 S_4_4 I_0_1 I_1_0 S_0_1 S_1_0 I_1_2 I_2_1 S_1_2 S_2_1 I_2_3 I_3_2 S_2_3 S_3_2 I_3_4 I_4_3 S_3_4 S_4_3 I_0_2 I_2_0 S_0_2 S_2_0 I_1_3 I_3_1 S_1_3 S_3_1 I_2_4 I_4_2 S_2_4 S_4_2  by (simp add: cell_defs scores_huge_def)
  have I_3_0: "s_i T (Suc (Suc (Suc 0))) 0 0 = PosInf"
    using f_3_0(2) huge_score_facts S_0_0 S_1_1 S_2_2 S_3_3 S_4_4 I_0_1 I_1_0 S_0_1 S_1_0 I_1_2 I_2_1 S_1_2 S_2_1 I_2_3 I_3_2 S_2_3 S_3_2 I_3_4 I_4_3 S_3_4 S_4_3 I_0_2 I_2_0 S_0_2 S_2_0 I_1_3 I_3_1 S_1_3 S_3_1 I_2_4 I_4_2 S_2_4 S_4_2  by (simp add: cell_defs scores_huge_def)
  have Pi_0_3: "p_i T 0 (Suc (Suc (Suc 0))) 0 = 0"
    using f_3_0(3) huge_score_facts S_0_0 S_1_1 S_2_2 S_3_3 S_4_4 I_0_1 I_1_0 S_0_1 S_1_0 I_1_2 I_2_1 S_1_2 S_2_1 I_2_3 I_3_2 S_2_3 S_3_2 I_3_4 I_4_3 S_3_4 S_4_3 I_0_2 I_2_0 S_0_2 S_2_0 I_1_3 I_3_1 S_1_3 S_3_1 I_2_4 I_4_2 S_2_4 S_4_2  by (simp add: cell_defs scores_huge_def)
  have Pi_3_0: "p_i T (Suc (Suc (Suc 0))) 0 0 = 0"
    using f_3_0(4) huge_score_facts S_0_0 S_1_1 S_2_2 S_3_3 S_4_4 I_0_1 I_1_0 S_0_1 S_1_0 I_1_2 I_2_1 S_1_2 S_2_1 I_2_3 I_3_2 S_2_3 S_3_2 I_3_4 I_4_3 S_3_4 S_4_3 I_0_2 I_2_0 S_0_2 S_2_0 I_1_3 I_3_1 S_1_3 S_3_1 I_2_4 I_4_2 S_2_4 S_4_2  by (simp add: cell_defs scores_huge_def)
  have S_3_0: "s_c T (Suc (Suc (Suc 0))) 0 0 = PosInf"
    using f_3_0(6) huge_score_facts S_0_0 S_1_1 S_2_2 S_3_3 S_4_4 I_0_1 I_1_0 S_0_1 S_1_0 I_1_2 I_2_1 S_1_2 S_2_1 I_2_3 I_3_2 S_2_3 S_3_2 I_3_4 I_4_3 S_3_4 S_4_3 I_0_2 I_2_0 S_0_2 S_2_0 I_1_3 I_3_1 S_1_3 S_3_1 I_2_4 I_4_2 S_2_4 S_4_2 I_0_3 I_3_0 by (simp add: cell_defs scores_huge_def)
  have Pc_3_0: "p_c T (Suc (Suc (Suc 0))) 0 0 = 0"
    using f_3_0(8) huge_score_facts S_0_0 S_1_1 S_2_2 S_3_3 S_4_4 I_0_1 I_1_0 S_0_1 S_1_0 I_1_2 I_2_1 S_1_2 S_2_1 I_2_3 I_3_2 S_2_3 S_3_2 I_3_4 I_4_3 S_3_4 S_4_3 I_0_2 I_2_0 S_0_2 S_2_0 I_1_3 I_3_1 S_1_3 S_3_1 I_2_4 I_4_2 S_2_4 S_4_2 I_0_3 I_3_0 by (simp add: cell_defs scores_huge_def)
  have S_0_3: "s_c T 0 (Suc (Suc (Suc 0))) 0 = NegInf"
    using f_3_0(5) huge_score_facts S_0_0 S_1_1 S_2_2 S_3_3 S_4_4 I_0_1 I_1_0 S_0_1 S_1_0 I_1_2 I_2_1 S_1_2 S_2_1 I_2_3 I_3_2 S_2_3 S_3_2 I_3_4 I_4_3 S_3_4 S_4_3 I_0_2 I_2_0 S_0_2 S_2_0 I_1_3 I_3_1 S_1_3 S_3_1 I_2_4 I_4_2 S_2_4 S_4_2 I_0_3 I_3_0 by (simp add: cell_defs scores_huge_def)
  have Pc_0_3: "p_c T 0 (Suc (Suc (Suc 0))) 0 = (Suc 0)"
    using f_3_0(7) huge_score_facts S_0_0 S_1_1 S_2_2 S_3_3 S_4_4 I_0_1 I_1_0 S_0_1 S_1_0 I_1_2 I_2_1 S_1_2 S_2_1 I_2_3 I_3_2 S_2_3 S_3_2 I_3_4 I_4_3 S_3_4 S_4_3 I_0_2 I_2_0 S_0_2 S_2_0 I_1_3 I_3_1 S_1_3 S_3_1 I_2_4 I_4_2 S_2_4 S_4_2 I_0_3 I_3_0 by (simp add: cell_defs scores_huge_def)
  note f_3_1 = final_cells_Suc[of "Suc (Suc 0)" 4 "Suc 0" 5 scores_huge "[4]" 0, folded T_def]
  have I_1_4: "s_i T (Suc 0) (Suc (Suc (Suc (Suc 0)))) 0 = PosInf"
    using f_3_1(1) huge_score_facts S_0_0 S_1_1 S_2_2 S_3_3 S_4_4 I_0_1 I_1_0 S_0_1 S_1_0 I_1_2 I_2_1 S_1_2 S_2_1 I_2_3 I_3_2 S_2_3 S_3_2 I_3_4 I_4_3 S_3_4 S_4_3 I_0_2 I_2_0 S_0_2 S_2_0 I_1_3 I_3_1 S_1_3 S_3_1 I_2_4 I_4_2 S_2_4 S_4_2  by (simp add: cell_defs scores_huge_def)
  have I_4_1: "s_i T (Suc (Suc (Suc (Suc 0)))) (Suc 0) 0 = PosInf"
    using f_3_1(2) huge_score_facts S_0_0 S_1_1 S_2_2 S_3_3 S_4_4 I_0_1 I_1_0 S_0_1 S_1_0 I_1_2 I_2_1 S_1_2 S_2_1 I_2_3 I_3_2 S_2_3 S_3_2 I_3_4 I_4_3 S_3_4 S_4_3 I_0_2 I_2_0 S_0_2 S_2_0 I_1_3 I_3_1 S_1_3 S_3_1 I_2_4 I_4_2 S_2_4 S_4_2  by (simp add: cell_defs scores_huge_def)
  have Pi_1_4: "p_i T (Suc 0) (Suc (Suc (Suc (Suc 0)))) 0 = (Suc 0)"
    using f_3_1(3) huge_score_facts S_0_0 S_1_1 S_2_2 S_3_3 S_4_4 I_0_1 I_1_0 S_0_1 S_1_0 I_1_2 I_2_1 S_1_2 S_2_1 I_2_3 I_3_2 S_2_3 S_3_2 I_3_4 I_4_3 S_3_4 S_4_3 I_0_2 I_2_0 S_0_2 S_2_0 I_1_3 I_3_1 S_1_3 S_3_1 I_2_4 I_4_2 S_2_4 S_4_2  by (simp add: cell_defs scores_huge_def)
  have Pi_4_1: "p_i T (Suc (Suc (Suc (Suc 0)))) (Suc 0) 0 = (Suc 0)"
    using f_3_1(4) huge_score_facts S_0_0 S_1_1 S_2_2 S_3_3 S_4_4 I_0_1 I_1_0 S_0_1 S_1_0 I_1_2 I_2_1 S_1_2 S_2_1 I_2_3 I_3_2 S_2_3 S_3_2 I_3_4 I_4_3 S_3_4 S_4_3 I_0_2 I_2_0 S_0_2 S_2_0 I_1_3 I_3_1 S_1_3 S_3_1 I_2_4 I_4_2 S_2_4 S_4_2  by (simp add: cell_defs scores_huge_def)
  have S_4_1: "s_c T (Suc (Suc (Suc (Suc 0)))) (Suc 0) 0 = PosInf"
    using f_3_1(6) huge_score_facts S_0_0 S_1_1 S_2_2 S_3_3 S_4_4 I_0_1 I_1_0 S_0_1 S_1_0 I_1_2 I_2_1 S_1_2 S_2_1 I_2_3 I_3_2 S_2_3 S_3_2 I_3_4 I_4_3 S_3_4 S_4_3 I_0_2 I_2_0 S_0_2 S_2_0 I_1_3 I_3_1 S_1_3 S_3_1 I_2_4 I_4_2 S_2_4 S_4_2 I_1_4 I_4_1 by (simp add: cell_defs scores_huge_def)
  have Pc_4_1: "p_c T (Suc (Suc (Suc (Suc 0)))) (Suc 0) 0 = (Suc 0)"
    using f_3_1(8) huge_score_facts S_0_0 S_1_1 S_2_2 S_3_3 S_4_4 I_0_1 I_1_0 S_0_1 S_1_0 I_1_2 I_2_1 S_1_2 S_2_1 I_2_3 I_3_2 S_2_3 S_3_2 I_3_4 I_4_3 S_3_4 S_4_3 I_0_2 I_2_0 S_0_2 S_2_0 I_1_3 I_3_1 S_1_3 S_3_1 I_2_4 I_4_2 S_2_4 S_4_2 I_1_4 I_4_1 by (simp add: cell_defs scores_huge_def)
  have S_1_4: "s_c T (Suc 0) (Suc (Suc (Suc (Suc 0)))) 0 = PosInf"
    using f_3_1(5) huge_score_facts S_0_0 S_1_1 S_2_2 S_3_3 S_4_4 I_0_1 I_1_0 S_0_1 S_1_0 I_1_2 I_2_1 S_1_2 S_2_1 I_2_3 I_3_2 S_2_3 S_3_2 I_3_4 I_4_3 S_3_4 S_4_3 I_0_2 I_2_0 S_0_2 S_2_0 I_1_3 I_3_1 S_1_3 S_3_1 I_2_4 I_4_2 S_2_4 S_4_2 I_1_4 I_4_1 by (simp add: cell_defs scores_huge_def)
  have Pc_1_4: "p_c T (Suc 0) (Suc (Suc (Suc (Suc 0)))) 0 = (Suc (Suc 0))"
    using f_3_1(7) huge_score_facts S_0_0 S_1_1 S_2_2 S_3_3 S_4_4 I_0_1 I_1_0 S_0_1 S_1_0 I_1_2 I_2_1 S_1_2 S_2_1 I_2_3 I_3_2 S_2_3 S_3_2 I_3_4 I_4_3 S_3_4 S_4_3 I_0_2 I_2_0 S_0_2 S_2_0 I_1_3 I_3_1 S_1_3 S_3_1 I_2_4 I_4_2 S_2_4 S_4_2 I_1_4 I_4_1 by (simp add: cell_defs scores_huge_def)
  note f_4_0 = final_cells_Suc[of "Suc (Suc (Suc 0))" 4 0 5 scores_huge "[4]" 0, folded T_def]
  have I_0_4: "s_i T 0 (Suc (Suc (Suc (Suc 0)))) 0 = Nan"
    using f_4_0(1) huge_score_facts S_0_0 S_1_1 S_2_2 S_3_3 S_4_4 I_0_1 I_1_0 S_0_1 S_1_0 I_1_2 I_2_1 S_1_2 S_2_1 I_2_3 I_3_2 S_2_3 S_3_2 I_3_4 I_4_3 S_3_4 S_4_3 I_0_2 I_2_0 S_0_2 S_2_0 I_1_3 I_3_1 S_1_3 S_3_1 I_2_4 I_4_2 S_2_4 S_4_2 I_0_3 I_3_0 S_0_3 S_3_0 I_1_4 I_4_1 S_1_4 S_4_1  by (simp add: cell_defs scores_huge_def)
  have I_4_0: "s_i T (Suc (Suc (Suc (Suc 0)))) 0 0 = Nan"
    using f_4_0(2) huge_score_facts S_0_0 S_1_1 S_2_2 S_3_3 S_4_4 I_0_1 I_1_0 S_0_1 S_1_0 I_1_2 I_2_1 S_1_2 S_2_1 I_2_3 I_3_2 S_2_3 S_3_2 I_3_4 I_4_3 S_3_4 S_4_3 I_0_2 I_2_0 S_0_2 S_2_0 I_1_3 I_3_1 S_1_3 S_3_1 I_2_4 I_4_2 S_2_4 S_4_2 I_0_3 I_3_0 S_0_3 S_3_0 I_1_4 I_4_1 S_1_4 S_4_1  by (simp add: cell_defs scores_huge_def)
  have Pi_0_4: "p_i T 0 (Suc (Suc (Suc (Suc 0)))) 0 = (Suc 0)"
    using f_4_0(3) huge_score_facts S_0_0 S_1_1 S_2_2 S_3_3 S_4_4 I_0_1 I_1_0 S_0_1 S_1_0 I_1_2 I_2_1 S_1_2 S_2_1 I_2_3 I_3_2 S_2_3 S_3_2 I_3_4 I_4_3 S_3_4 S_4_3 I_0_2 I_2_0 S_0_2 S_2_0 I_1_3 I_3_1 S_1_3 S_3_1 I_2_4 I_4_2 S_2_4 S_4_2 I_0_3 I_3_0 S_0_3 S_3_0 I_1_4 I_4_1 S_1_4 S_4_1  by (simp add: cell_defs scores_huge_def)
  have Pi_4_0: "p_i T (Suc (Suc (Suc (Suc 0)))) 0 0 = (Suc 0)"
    using f_4_0(4) huge_score_facts S_0_0 S_1_1 S_2_2 S_3_3 S_4_4 I_0_1 I_1_0 S_0_1 S_1_0 I_1_2 I_2_1 S_1_2 S_2_1 I_2_3 I_3_2 S_2_3 S_3_2 I_3_4 I_4_3 S_3_4 S_4_3 I_0_2 I_2_0 S_0_2 S_2_0 I_1_3 I_3_1 S_1_3 S_3_1 I_2_4 I_4_2 S_2_4 S_4_2 I_0_3 I_3_0 S_0_3 S_3_0 I_1_4 I_4_1 S_1_4 S_4_1  by (simp add: cell_defs scores_huge_def)
  have S_4_0: "s_c T (Suc (Suc (Suc (Suc 0)))) 0 0 = Nan"
    using f_4_0(6) huge_score_facts S_0_0 S_1_1 S_2_2 S_3_3 S_4_4 I_0_1 I_1_0 S_0_1 S_1_0 I_1_2 I_2_1 S_1_2 S_2_1 I_2_3 I_3_2 S_2_3 S_3_2 I_3_4 I_4_3 S_3_4 S_4_3 I_0_2 I_2_0 S_0_2 S_2_0 I_1_3 I_3_1 S_1_3 S_3_1 I_2_4 I_4_2 S_2_4 S_4_2 I_0_3 I_3_0 S_0_3 S_3_0 I_1_4 I_4_1 S_1_4 S_4_1 I_0_4 I_4_0 by (simp add: cell_defs scores_huge_def)
  have Pc_4_0: "p_c T (Suc (Suc (Suc (Suc 0)))) 0 0 = 0"
    using f_4_0(8) huge_score_facts S_0_0 S_1_1 S_2_2 S_3_3 S_4_4 I_0_1 I_1_0 S_0_1 S_1_0 I_1_2 I_2_1 S_1_2 S_2_1 I_2_3 I_3_2 S_2_3 S_3_2 I_3_4 I_4_3 S_3_4 S_4_3 I_0_2 I_2_0 S_0_2 S_2_0 I_1_3 I_3_1 S_1_3 S_3_1 I_2_4 I_4_2 S_2_4 S_4_2 I_0_3 I_3_0 S_0_3 S_3_0 I_1_4 I_4_1 S_1_4 S_4_1 I_0_4 I_4_0 by (simp add: cell_defs scores_huge_def)
  have S_0_4: "s_c T 0 (Suc (Suc (Suc (Suc 0)))) 0 = Nan"
    using f_4_0(5) huge_score_facts S_0_0 S_1_1 S_2_2 S_3_3 S_4_4 I_0_1 I_1_0 S_0_1 S_1_0 I_1_2 I_2_1 S_1_2 S_2_1 I_2_3 I_3_2 S_2_3 S_3_2 I_3_4 I_4_3 S_3_4 S_4_3 I_0_2 I_2_0 S_0_2 S_2_0 I_1_3 I_3_1 S_1_3 S_3_1 I_2_4 I_4_2 S_2_4 S_4_2 I_0_3 I_3_0 S_0_3 S_3_0 I_1_4 I_4_1 S_1_4 S_4_1 I_0_4 I_4_0 by (simp add: cell_defs scores_huge_def)
  have Pc_0_4: "p_c T 0 (Suc (Suc (Suc (Suc 0)))) 0 = (Suc (Suc (Suc (Suc 0))))"
    using f_4_0(7) huge_score_facts S_0_0 S_1_1 S_2_2 S_3_3 S_4_4 I_0_1 I_1_0 S_0_1 S_1_0 I_1_2 I_2_1 S_1_2 S_2_1 I_2_3 I_3_2 S_2_3 S_3_2 I_3_4 I_4_3 S_3_4 S_4_3 I_0_2 I_2_0 S_0_2 S_2_0 I_1_3 I_3_1 S_1_3 S_3_1 I_2_4 I_4_2 S_2_4 S_4_2 I_0_3 I_3_0 S_0_3 S_3_0 I_1_4 I_4_1 S_1_4 S_4_1 I_0_4 I_4_0 by (simp add: cell_defs scores_huge_def)
  show "p_i T 0 (Suc 0) 0 = 0" by (rule Pi_0_1)
  show "p_i T (Suc 0) 0 0 = 0" by (rule Pi_1_0)
  show "p_c T 0 (Suc 0) 0 = (Suc 0)" by (rule Pc_0_1)
  show "p_c T (Suc 0) 0 0 = 0" by (rule Pc_1_0)
  show "p_i T (Suc 0) (Suc (Suc 0)) 0 = (Suc 0)" by (rule Pi_1_2)
  show "p_i T (Suc (Suc 0)) (Suc 0) 0 = (Suc 0)" by (rule Pi_2_1)
  show "p_c T (Suc 0) (Suc (Suc 0)) 0 = (Suc (Suc 0))" by (rule Pc_1_2)
  show "p_c T (Suc (Suc 0)) (Suc 0) 0 = (Suc 0)" by (rule Pc_2_1)
  show "p_i T (Suc (Suc 0)) (Suc (Suc (Suc 0))) 0 = (Suc (Suc 0))" by (rule Pi_2_3)
  show "p_i T (Suc (Suc (Suc 0))) (Suc (Suc 0)) 0 = (Suc (Suc 0))" by (rule Pi_3_2)
  show "p_c T (Suc (Suc 0)) (Suc (Suc (Suc 0))) 0 = (Suc (Suc (Suc 0)))" by (rule Pc_2_3)
  show "p_c T (Suc (Suc (Suc 0))) (Suc (Suc 0)) 0 = (Suc (Suc 0))" by (rule Pc_3_2)
  show "p_i T (Suc (Suc (Suc 0))) (Suc (Suc (Suc (Suc 0)))) 0 = (Suc (Suc (Suc 0)))" by (rule Pi_3_4)
  show "p_i T (Suc (Suc (Suc (Suc 0)))) (Suc (Suc (Suc 0))) 0 = (Suc (Suc (Suc 0)))" by (rule Pi_4_3)
  show "p_c T (Suc (Suc (Suc 0))) (Suc (Suc (Suc (Suc 0)))) 0 = (Suc (Suc (Suc (Suc 0))))" by (rule Pc_3_4)
  show "p_c T (Suc (Suc (Suc (Suc 0)))) (Suc (Suc (Suc 0))) 0 = (Suc (Suc (Suc 0)))" by (rule Pc_4_3)
  show "p_i T 0 (Suc (Suc 0)) 0 = 0" by (rule Pi_0_2)
  show "p_i T (Suc (Suc 0)) 0 0 = 0" by (rule Pi_2_0)
  show "p_c T 0 (Suc (Suc 0)) 0 = (Suc 0)" by (rule Pc_0_2)
  show "p_c T (Suc (Suc 0)) 0 0 = 0" by (rule Pc_2_0)
  show "p_i T (Suc 0) (Suc (Suc (Suc 0))) 0 = (Suc 0)" by (rule Pi_1_3)
  show "p_i T (Suc (Suc (Suc 0))) (Suc 0) 0 = (Suc 0)" by (rule Pi_3_1)
  show "p_c T (Suc 0) (Suc (Suc (Suc 0))) 0 = (Suc (Suc 0))" by (rule Pc_1_3)
  show "p_c T (Suc (Suc (Suc 0))) (Suc 0) 0 = (Suc 0)" by (rule Pc_3_1)
  show "p_i T (Suc (Suc 0)) (Suc (Suc (Suc (Suc 0)))) 0 = (Suc (Suc 0))" by (rule Pi_2_4)
  show "p_i T (Suc (Suc (Suc (Suc 0)))) (Suc (Suc 0)) 0 = (Suc (Suc 0))" by (rule Pi_4_2)
  show "p_c T (Suc (Suc 0)) (Suc (Suc (Suc (Suc 0)))) 0 = (Suc (Suc (Suc 0)))" by (rule Pc_2_4)
  show "p_c T (Suc (Suc (Suc (Suc 0)))) (Suc (Suc 0)) 0 = (Suc (Suc 0))" by (rule Pc_4_2)
  show "p_i T 0 (Suc (Suc (Suc 0))) 0 = 0" by (rule Pi_0_3)
  show "p_i T (Suc (Suc (Suc 0))) 0 0 = 0" by (rule Pi_3_0)
  show "p_c T 0 (Suc (Suc (Suc 0))) 0 = (Suc 0)" by (rule Pc_0_3)
  show "p_c T (Suc (Suc (Suc 0))) 0 0 = 0" by (rule Pc_3_0)
  show "p_i T (Suc 0) (Suc (Suc (Suc (Suc 0)))) 0 = (Suc 0)" by (rule Pi_1_4)
  show "p_i T (Suc (Suc (Suc (Suc 0)))) (Suc 0) 0 = (Suc 0)" by (rule Pi_4_1)
  show "p_c T (Suc 0) (Suc (Suc (Suc (Suc 0)))) 0 = (Suc (Suc 0))" by (rule Pc_1_4)
  show "p_c T (Suc (Suc (Suc (Suc 0)))) (Suc 0) 0 = (Suc 0)" by (rule Pc_4_1)
  show "p_i T 0 (Suc (Suc (Suc (Suc 0)))) 0 = (Suc 0)" by (rule Pi_0_4)
  show "p_i T (Suc (Suc (Suc (Suc 0)))) 0 0 = (Suc 0)" by (rule Pi_4_0)
  show "p_c T 0 (Suc (Suc (Suc (Suc 0)))) 0 = (Suc (Suc (Suc (Suc 0))))" by (rule Pc_0_4)
  show "p_c T (Suc (Suc (Suc (Suc 0)))) 0 0 = 0" by (rule Pc_4_0)
qed

lemma backtrack_huge:
  assumes "P_i 0 (Suc 0) = 0"
    "P_i (Suc 0) 0 = 0"
    "P_c 0 (Suc 0) = (Suc 0)"
    "P_c (Suc 0) 0 = 0"
    "P_i (Suc 0) (Suc (Suc 0)) = (Suc 0)"
    "P_i (Suc (Suc 0)) (Suc 0) = (Suc 0)"
    "P_c (Suc 0) (Suc (Suc 0)) = (Suc (Suc 0))"
    "P_c (Suc (Suc 0)) (Suc 0) = (Suc 0)"
    "P_i (Suc (Suc 0)) (Suc (Suc (Suc 0))) = (Suc (Suc 0))"
    "P_i (Suc (Suc (Suc 0))) (Suc (Suc 0)) = (Suc (Suc 0))"
    "P_c (Suc (Suc 0)) (Suc (Suc (Suc 0))) = (Suc (Suc (Suc 0)))"
    "P_c (Suc (Suc (Suc 0))) (Suc (Suc 0)) = (Suc (Suc 0))"
    "P_i (Suc (Suc (Suc 0))) (Suc (Suc (Suc (Suc 0)))) = (Suc (Suc (Suc 0)))"
    "P_i (Suc (Suc (Suc (Suc 0)))) (Suc (Suc (Suc 0))) = (Suc (Suc (Suc 0)))"
    "P_c (Suc (Suc (Suc 0))) (Suc (Suc (Suc (Suc 0)))) = (Suc (Suc (Suc (Suc 0))))"
    "P_c (Suc (Suc (Suc (Suc 0)))) (Suc (Suc (Suc 0))) = (Suc (Suc (Suc 0)))"
    "P_i 0 (Suc (Suc 0)) = 0"
    "P_i (Suc (Suc 0)) 0 = 0"
    "P_c 0 (Suc (Suc 0)) = (Suc 0)"
    "P_c (Suc (Suc 0)) 0 = 0"
    "P_i (Suc 0) (Suc (Suc (Suc 0))) = (Suc 0)"
    "P_i (Suc (Suc (Suc 0))) (Suc 0) = (Suc 0)"
    "P_c (Suc 0) (Suc (Suc (Suc 0))) = (Suc (Suc 0))"
    "P_c (Suc (Suc (Suc 0))) (Suc 0) = (Suc 0)"
    "P_i (Suc (Suc 0)) (Suc (Suc (Suc (Suc 0)))) = (Suc (Suc 0))"
    "P_i (Suc (Suc (Suc (Suc 0)))) (Suc (Suc 0)) = (Suc (Suc 0))"
    "P_c (Suc (Suc 0)) (Suc (Suc (Suc (Suc 0)))) = (Suc (Suc (Suc 0)))"
    "P_c (Suc (Suc (Suc (Suc 0)))) (Suc (Suc 0)) = (Suc (Suc 0))"
    "P_i 0 (Suc (Suc (Suc 0))) = 0"
    "P_i (Suc (Suc (Suc 0))) 0 = 0"
    "P_c 0 (Suc (Suc (Suc 0))) = (Suc 0)"
    "P_c (Suc (Suc (Suc 0))) 0 = 0"
    "P_i (Suc 0) (Suc (Suc (Suc (Suc 0)))) = (Suc 0)"
    "P_i (Suc (Suc (Suc (Suc 0)))) (Suc 0) = (Suc 0)"
    "P_c (Suc 0) (Suc (Suc (Suc (Suc 0)))) = (Suc (Suc 0))"
    "P_c (Suc (Suc (Suc (Suc 0)))) (Suc 0) = (Suc 0)"
    "P_i 0 (Suc (Suc (Suc (Suc 0)))) = (Suc 0)"
    "P_i (Suc (Suc (Suc (Suc 0)))) 0 = (Suc 0)"
    "P_c 0 (Suc (Suc (Suc (Suc 0)))) = (Suc (Suc (Suc (Suc 0))))"
    "P_c (Suc (Suc (Suc (Suc 0)))) 0 = 0"
  shows "backtrack 10 5 P_i P_c [1, 1, 1, 1, 1] 0 4 True = Some (Inr [1, 0, 4, 4, 0])"
  using assms by (simp add: eval_nat_numeral)

lemma eisner_huge: "eisner 10 5 scores_huge [[False, True, True, True, True]] = Some (Inr [[1, 0, 4, 4, 0]])"
proof -
  let ?T = "tables_upto 5 scores_huge [4] 4"
  have T: "eisner_tables 5 scores_huge [4] = ?T" by (simp add: eisner_tables_upto)
  have "backtrack 10 5 (\<lambda>a c. p_i ?T a c 0) (\<lambda>a c. p_c ?T a c 0) [1, 1, 1, 1, 1] 0 4 True =
        Some (Inr [1, 0, 4, 4, 0])"
    by (rule backtrack_huge) (rule cells_huge)+
  then have "sentence_heads 10 5 ?T 0 4 = Some (Inr [1, 0, 4, 4, 0])"
    by (simp add: sentence_heads_def eval_nat_numeral)
  moreover have "lens_of [[False, True, True, True, True]] = [4]" by (simp add: lens_of_def)
  ultimately show ?thesis
    by (simp add: eisner_unfold T backtrack_all_Cons pad_sequence_def
        del: backtrack_all.simps(2))
qed

lemma cells_first_four:
  fixes T defines "T \<equiv> tables_upto 4 scores_first [2] 3"
  shows "p_i T 0 (Suc 0) 0 = 0"
    "p_i T (Suc 0) 0 0 = 0"
    "p_c T 0 (Suc 0) 0 = (Suc 0)"
    "p_c T (Suc 0) 0 0 = 0"
    "p_i T (Suc 0) (Suc (Suc 0)) 0 = (Suc 0)"
    "p_i T (Suc (Suc 0)) (Suc 0) 0 = (Suc 0)"
    "p_c T (Suc 0) (Suc (Suc 0)) 0 = (Suc (Suc 0))"
    "p_c T (Suc (Suc 0)) (Suc 0) 0 = (Suc 0)"
    "p_i T 0 (Suc (Suc 0)) 0 = 0"
    "p_i T (Suc (Suc 0)) 0 0 = 0"
    "p_c T 0 (Suc (Suc 0)) 0 = (Suc 0)"
    "p_c T (Suc (Suc 0)) 0 0 = 0"
proof -
  have S_0_0: "s_c T 0 0 0 = Fin 0" by (simp add: T_def final_diag)
  have S_1_1: "s_c T (Suc 0) (Suc 0) 0 = Fin 0" by (simp add: T_def final_diag)
  have S_2_2: "s_c T (Suc (Suc 0)) (Suc (Suc 0)) 0 = Fin 0" by (simp add: T_def final_diag)
  note f_1_0 = final_cells_Suc[of 0 3 0 4 scores_first "[2]" 0, folded T_def]
  have I_0_1: "s_i T 0 (Suc 0) 0 = Fin 10"
    using f_1_0(1) float_max_large S_0_0 S_1_1 S_2_2  by (simp add: cell_defs scores_first_def)
  have I_1_0: "s_i T (Suc 0) 0 0 = Fin 0"
    using f_1_0(2) float_max_large S_0_0 S_1_1 S_2_2  by (simp add: cell_defs scores_first_def)
  have Pi_0_1: "p_i T 0 (Suc 0) 0 = 0"
    using f_1_0(3) float_max_large S_0_0 S_1_1 S_2_2  by (simp add: cell_defs scores_first_def)
  have Pi_1_0: "p_i T (Suc 0) 0 0 = 0"
    using f_1_0(4) float_max_large S_0_0 S_1_1 S_2_2  by (simp add: cell_defs scores_first_def)
  have S_1_0: "s_c T (Suc 0) 0 0 = Fin 0"
    using f_1_0(6) float_max_large S_0_0 S_1_1 S_2_2 I_0_1 I_1_0 by (simp add: cell_defs scores_first_def)
  have Pc_1_0: "p_c T (Suc 0) 0 0 = 0"
    using f_1_0(8) float_max_large S_0_0 S_1_1 S_2_2 I_0_1 I_1_0 by (simp add: cell_defs scores_first_def)
  have S_0_1: "s_c T 0 (Suc 0) 0 = NegInf"
    using f_1_0(5) float_max_large S_0_0 S_1_1 S_2_2 I_0_1 I_1_0 by (simp add: cell_defs scores_first_def)
  have Pc_0_1: "p_c T 0 (Suc 0) 0 = (Suc 0)"
    using f_1_0(7) float_max_large S_0_0 S_1_1 S_2_2 I_0_1 I_1_0 by (simp add: cell_defs scores_first_def)
  note f_1_1 = final_cells_Suc[of 0 3 "Suc 0" 4 scores_first "[2]" 0, folded T_def]
  have I_1_2: "s_i T (Suc 0) (Suc (Suc 0)) 0 = Fin 0"
    using f_1_1(1) float_max_large S_0_0 S_1_1 S_2_2  by (simp add: cell_defs scores_first_def)
  have I_2_1: "s_i T (Suc (Suc 0)) (Suc 0) 0 = Fin 0"
    using f_1_1(2) float_max_large S_0_0 S_1_1 S_2_2  by (simp add: cell_defs scores_first_def)
  have Pi_1_2: "p_i T (Suc 0) (Suc (Suc 0)) 0 = (Suc 0)"
    using f_1_1(3) float_max_large S_0_0 S_1_1 S_2_2  by (simp add: cell_defs scores_first_def)
  have Pi_2_1: "p_i T (Suc (Suc 0)) (Suc 0) 0 = (Suc 0)"
    using f_1_1(4) float_max_large S_0_0 S_1_1 S_2_2  by (simp add: cell_defs scores_first_def)
  have S_2_1: "s_c T (Suc (Suc 0)) (Suc 0) 0 = Fin 0"
    using f_1_1(6) float_max_large S_0_0 S_1_1 S_2_2 I_1_2 I_2_1 by (simp add: cell_defs scores_first_def)
  have Pc_2_1: "p_c T (Suc (Suc 0)) (Suc 0) 0 = (Suc 0)"
    using f_1_1(8) float_max_large S_0_0 S_1_1 S_2_2 I_1_2 I_2_1 by (simp add: cell_defs scores_first_def)
  have S_1_2: "s_c T (Suc 0) (Suc (Suc 0)) 0 = Fin 0"
    using f_1_1(5) float_max_large S_0_0 S_1_1 S_2_2 I_1_2 I_2_1 by (simp add: cell_defs scores_first_def)
  have Pc_1_2: "p_c T (Suc 0) (Suc (Suc 0)) 0 = (Suc (Suc 0))"
    using f_1_1(7) float_max_large S_0_0 S_1_1 S_2_2 I_1_2 I_2_1 by (simp add: cell_defs scores_first_def)
  note f_2_0 = final_cells_Suc[of "Suc 0" 3 0 4 scores_first "[2]" 0, folded T_def]
  have I_0_2: "s_i T 0 (Suc (Suc 0)) 0 = Fin 0"
    using f_2_0(1) float_max_large S_0_0 S_1_1 S_2_2 I_0_1 I_1_0 S_0_1 S_1_0 I_1_2 I_2_1 S_1_2 S_2_1  by (simp add: cell_defs scores_first_def)
  have I_2_0: "s_i T (Suc (Suc 0)) 0 0 = Fin 0"
    using f_2_0(2) float_max_large S_0_0 S_1_1 S_2_2 I_0_1 I_1_0 S_0_1 S_1_0 I_1_2 I_2_1 S_1_2 S_2_1  by (simp add: cell_defs scores_first_def)
  have Pi_0_2: "p_i T 0 (Suc (Suc 0)) 0 = 0"
    using f_2_0(3) float_max_large S_0_0 S_1_1 S_2_2 I_0_1 I_1_0 S_0_1 S_1_0 I_1_2 I_2_1 S_1_2 S_2_1  by (simp add: cell_defs scores_first_def)
  have Pi_2_0: "p_i T (Suc (Suc 0)) 0 0 = 0"
    using f_2_0(4) float_max_large S_0_0 S_1_1 S_2_2 I_0_1 I_1_0 S_0_1 S_1_0 I_1_2 I_2_1 S_1_2 S_2_1  by (simp add: cell_defs scores_first_def)
  have S_2_0: "s_c T (Suc (Suc 0)) 0 0 = Fin 0"
    using f_2_0(6) float_max_large S_0_0 S_1_1 S_2_2 I_0_1 I_1_0 S_0_1 S_1_0 I_1_2 I_2_1 S_1_2 S_2_1 I_0_2 I_2_0 by (simp add: cell_defs scores_first_def)
  have Pc_2_0: "p_c T (Suc (Suc 0)) 0 0 = 0"
    using f_2_0(8) float_max_large S_0_0 S_1_1 S_2_2 I_0_1 I_1_0 S_0_1 S_1_0 I_1_2 I_2_1 S_1_2 S_2_1 I_0_2 I_2_0 by (simp add: cell_defs scores_first_def)
  have S_0_2: "s_c T 0 (Suc (Suc 0)) 0 = Fin 10"
    using f_2_0(5) float_max_large S_0_0 S_1_1 S_2_2 I_0_1 I_1_0 S_0_1 S_1_0 I_1_2 I_2_1 S_1_2 S_2_1 I_0_2 I_2_0 by (simp add: cell_defs scores_first_def)
  have Pc_0_2: "p_c T 0 (Suc (Suc 0)) 0 = (Suc 0)"
    using f_2_0(7) float_max_large S_0_0 S_1_1 S_2_2 I_0_1 I_1_0 S_0_1 S_1_0 I_1_2 I_2_1 S_1_2 S_2_1 I_0_2 I_2_0 by (simp add: cell_defs scores_first_def)
  show "p_i T 0 (Suc 0) 0 = 0" by (rule Pi_0_1)
  show "p_i T (Suc 0) 0 0 = 0" by (rule Pi_1_0)
  show "p_c T 0 (Suc 0) 0 = (Suc 0)" by (rule Pc_0_1)
  show "p_c T (Suc 0) 0 0 = 0" by (rule Pc_1_0)
  show "p_i T (Suc 0) (Suc (Suc 0)) 0 = (Suc 0)" by (rule Pi_1_2)
  show "p_i T (Suc (Suc 0)) (Suc 0) 0 = (Suc 0)" by (rule Pi_2_1)
  show "p_c T (Suc 0) (Suc (Suc 0)) 0 = (Suc (Suc 0))" by (rule Pc_1_2)
  show "p_c T (Suc (Suc 0)) (Suc 0) 0 = (Suc 0)" by (rule Pc_2_1)
  show "p_i T 0 (Suc (Suc 0)) 0 = 0" by (rule Pi_0_2)
  show "p_i T (Suc (Suc 0)) 0 0 = 0" by (rule Pi_2_0)
  show "p_c T 0 (Suc (Suc 0)) 0 = (Suc 0)" by (rule Pc_0_2)
  show "p_c T (Suc (Suc 0)) 0 0 = 0" by (rule Pc_2_0)
qed

lemma backtrack_first_four:
  assumes "P_i 0 (Suc 0) = 0"
    "P_i (Suc 0) 0 = 0"
    "P_c 0 (Suc 0) = (Suc 0)"
    "P_c (Suc 0) 0 = 0"
    "P_i (Suc 0) (Suc (Suc 0)) = (Suc 0)"
    "P_i (Suc (Suc 0)) (Suc 0) = (Suc 0)"
    "P_c (Suc 0) (Suc (Suc 0)) = (Suc (Suc 0))"
    "P_c (Suc (Suc 0)) (Suc 0) = (Suc 0)"
    "P_i 0 (Suc (Suc 0)) = 0"
    "P_i (Suc (Suc 0)) 0 = 0"
    "P_c 0 (Suc (Suc 0)) = (Suc 0)"
    "P_c (Suc (Suc 0)) 0 = 0"
  shows "backtrack 8 4 P_i P_c [1, 1, 1] 0 2 True = Some (Inr [1, 0, 1])"
  using assms by (simp add: eval_nat_numeral)

lemma eisner_first_four: "eisner 8 4 scores_first [[False, True, True, False]] = Some (Inr [[1, 0, 1, 1]])"
proof -
  let ?T = "tables_upto 4 scores_first [2] 3"
  have T: "eisner_tables 4 scores_first [2] = ?T" by (simp add: eisner_tables_upto)
  have "backtrack 8 4 (\<lambda>a c. p_i ?T a c 0) (\<lambda>a c. p_c ?T a c 0) [1, 1, 1] 0 2 True =
        Some (Inr [1, 0, 1])"
    by (rule backtrack_first_four) (rule cells_first_four)+
  then have "sentence_heads 8 4 ?T 0 2 = Some (Inr [1, 0, 1])"
    by (simp add: sentence_heads_def eval_nat_numeral)
  moreover have "lens_of [[False, True, True, False]] = [2]" by (simp add: lens_of_def)
  ultimately show ?thesis
    by (simp add: eisner_unfold T backtrack_all_Cons pad_sequence_def
        del: backtrack_all.simps(2))
qed


lemma eisner_one_token: "eisner 6 3 sc [[False, True, False]] = Some (Inr [[1, 0, 1]])"
proof -
  let ?T = "tables_upto 3 sc [Suc 0] 2"
  have T: "eisner_tables 3 sc [Suc 0] = ?T" by (simp add: eisner_tables_upto)
  note a = final_cells_Suc[of 0 2 0 3 sc "[Suc 0]" 0]
  have p: "p_c ?T 0 (Suc 0) 0 = Suc 0" "p_i ?T 0 (Suc 0) 0 = 0"
    using a(3,7) by (simp_all add: cell_defs)
  have "backtrack 6 3 (\<lambda>a c. p_i ?T a c 0) (\<lambda>a c. p_c ?T a c 0) [1, 1] 0 1 True =
        Some (Inr [1, 0])"
    using p by (simp add: eval_nat_numeral)
  then have "sentence_heads 6 3 ?T 0 1 = Some (Inr [1, 0])"
    by (simp add: sentence_heads_def eval_nat_numeral)
  moreover have "lens_of [[False, True, False]] = [1]" by (simp add: lens_of_def)
  ultimately show ?thesis
    by (simp add: eisner_unfold T backtrack_all_Cons pad_sequence_def
        del: backtrack_all.simps(2))
qed

subsection \<open>Properties of the decoder\<close>




text \<open>
  Claim C4, amended. The row that \<^verbatim>\<open>eisner\<close> returns for sentence \<open>b\<close> is the same for
  two score tensors that agree, for this sentence, on every entry whose two indices are
  among the positions \<open>0, \<dots>, lens[b]\<close>: the root position and the tokens of the sentence.
\<close>

theorem eisner_ignores_scores_beyond_sentence:
  assumes "eisner fuel seq_len scores mask' = Some (Inr out)"
    and "eisner fuel seq_len scores' mask' = Some (Inr out')"
    and "b < length mask'"
    and "\<forall>i j. i \<le> lens_of mask' ! b \<and> j \<le> lens_of mask' ! b \<longrightarrow> scores b i j = scores' b i j"
  shows "out ! b = out' ! b"
proof -
  let ?L = "lens_of mask' ! b"
  obtain hs where h: "sentence_heads fuel seq_len (eisner_tables seq_len scores (lens_of mask')) b ?L
      = Some (Inr hs)"
    and o: "out ! b = hs @ replicate (seq_len - length hs) 1"
    using eisner_sentence[OF assms(1,3)] by blast
  obtain hs' where h': "sentence_heads fuel seq_len (eisner_tables seq_len scores' (lens_of mask')) b ?L
      = Some (Inr hs')"
    and o': "out' ! b = hs' @ replicate (seq_len - length hs') 1"
    using eisner_sentence[OF assms(2,3)] by blast
  have ag: "scores b i j = scores' b i j" if "i \<le> ?L" "j \<le> ?L" for i j
    using assms(4) that by blast
  have "hs = hs'"
    using h h' sentence_heads_agree[of ?L scores b scores' fuel seq_len "lens_of mask'", OF ag]
    by simp
  then show ?thesis using o o' by simp
qed

text \<open>
  The theorem at the sequence length 4 and the mask \<open>[False, True, True, False]\<close>: the
  two score tensors agree on the positions 0, 1 and 2 and differ at position 3; both give
  the row \<open>[1, 2, 0, 1]\<close>. Other scores at the positions of the sentence give another row.
\<close>

theorem eisner_ignores_scores_beyond_sentence_witness:
  "eisner 8 4 scores_second [[False, True, True, False]] = Some (Inr [[1, 2, 0, 1]]) \<and>
   eisner 8 4 scores_second_pad [[False, True, True, False]] = Some (Inr [[1, 2, 0, 1]]) \<and>
   scores_second 0 3 0 \<noteq> scores_second_pad 0 3 0 \<and>
   scores_second 0 1 3 \<noteq> scores_second_pad 0 1 3 \<and>
   [[1, 2, 0, 1 :: int]] ! 0 = [[1, 2, 0, 1]] ! 0 \<and>
   eisner 8 4 scores_first [[False, True, True, False]] = Some (Inr [[1, 0, 1, 1]])"
proof -
  note a = eisner_second_four and b = eisner_second_pad
  have c: "(0::nat) < length [[False, True, True, False]]" by simp
  have d: "\<forall>i j. i \<le> lens_of [[False, True, True, False]] ! 0 \<and>
      j \<le> lens_of [[False, True, True, False]] ! 0 \<longrightarrow>
      scores_second 0 i j = scores_second_pad 0 i j"
    by (simp add: lens_of_def scores_second_def scores_second_pad_def)
  have e: "scores_second 0 3 0 \<noteq> scores_second_pad 0 3 0"
    "scores_second 0 1 3 \<noteq> scores_second_pad 0 1 3"
    by (simp_all add: scores_second_def scores_second_pad_def)
  show ?thesis
    using a b e eisner_first_four eisner_ignores_scores_beyond_sentence[OF a b c d] by blast
qed

text \<open>
  Claim C4 as stated fails: \<^verbatim>\<open>eisner\<close> reads the mask through its row sums only. With
  the mask \<open>[False, True, True]\<close> the unmasked positions are 1 and 2; two score tensors
  that agree on every entry with both indices among them, and differ at entries of the
  root position 0, give different heads to both tokens.
\<close>

theorem eisner_root_scores_counterexample:
  "scores_first 0 1 1 = scores_second 0 1 1 \<and> scores_first 0 1 2 = scores_second 0 1 2 \<and>
   scores_first 0 2 1 = scores_second 0 2 1 \<and> scores_first 0 2 2 = scores_second 0 2 2 \<and>
   eisner 6 3 scores_first [[False, True, True]] = Some (Inr [[1, 0, 1]]) \<and>
   eisner 6 3 scores_second [[False, True, True]] = Some (Inr [[1, 2, 0]])"
proof -
  have "scores_first 0 1 1 = scores_second 0 1 1" "scores_first 0 1 2 = scores_second 0 1 2"
    "scores_first 0 2 1 = scores_second 0 2 1" "scores_first 0 2 2 = scores_second 0 2 2"
    by (simp_all add: scores_first_def scores_second_def)
  then show ?thesis using eisner_first eisner_second by blast
qed

text \<open>
  Claim C8, amended. For a batch whose mask rows have a row sum between 1 and
  \<open>seq_len - 1\<close>, \<^verbatim>\<open>eisner\<close> returns one row per sentence; each row has the length
  \<open>seq_len\<close>, holds 1 at position 0, heads between 0 and the length of the sentence at the
  positions of its tokens, and 1 at every position beyond them.
\<close>

theorem eisner_rows_padded:
  assumes "valid_batch seq_len mask'"
    and "\<forall>b < length mask'. lens_of mask' ! b < seq_len" and "2 * seq_len \<le> fuel"
  shows "\<exists>out. eisner fuel seq_len scores mask' = Some (Inr out) \<and> length out = length mask' \<and>
           (\<forall>b < length mask'.
              length (out ! b) = seq_len \<and> out ! b ! 0 = 1 \<and>
              (\<forall>j. 1 \<le> j \<and> j \<le> lens_of mask' ! b \<longrightarrow>
                   0 \<le> out ! b ! j \<and> out ! b ! j \<le> int (lens_of mask' ! b)) \<and>
              (\<forall>j. lens_of mask' ! b < j \<and> j < seq_len \<longrightarrow> out ! b ! j = 1))"
proof -
  have rows: "\<forall>b < length mask'. 1 \<le> lens_of mask' ! b \<and> lens_of mask' ! b < seq_len"
    using valid_batch_lens[OF assms(1)] assms(2) by simp
  obtain out where out: "eisner fuel seq_len scores mask' = Some (Inr out)"
    and lo: "length out = length mask'"
    using eisner_returns[OF rows assms(3)] by blast
  have "length (out ! b) = seq_len \<and> out ! b ! 0 = 1 \<and>
        (\<forall>j. 1 \<le> j \<and> j \<le> lens_of mask' ! b \<longrightarrow>
             0 \<le> out ! b ! j \<and> out ! b ! j \<le> int (lens_of mask' ! b)) \<and>
        (\<forall>j. lens_of mask' ! b < j \<and> j < seq_len \<longrightarrow> out ! b ! j = 1)"
    if b: "b < length mask'" for b
  proof -
    let ?L = "lens_of mask' ! b"
    let ?F = "eisner_tables seq_len scores (lens_of mask')"
    have bl: "b < length (lens_of mask')" using b by simp
    have L: "1 \<le> ?L" "?L < seq_len" using rows b by simp_all
    obtain hs where h: "sentence_heads fuel seq_len ?F b ?L = Some (Inr hs)"
      and o: "out ! b = hs @ replicate (seq_len - length hs) 1"
      using eisner_sentence[OF out b] by blast
    from sentence_heads_span[OF L(2) assms(3), of scores "lens_of mask'" b] h
    have p: "length hs = Suc ?L" "hs ! 0 = 1" "RC hs 0 ?L"
      by auto
    have a: "length (out ! b) = seq_len" unfolding o using p(1) L by simp
    have c: "out ! b ! 0 = 1" unfolding o using p(1,2) by (simp add: nth_append)
    have d: "0 \<le> out ! b ! j \<and> out ! b ! j \<le> int ?L" if "1 \<le> j \<and> j \<le> ?L" for j
    proof -
      have j: "j < Suc ?L" using that by simp
      have "out ! b ! j = hs ! j" unfolding o using p(1) j by (simp add: nth_append)
      then show ?thesis using span_heads_range[OF p(3), of j] that by simp
    qed
    have e: "out ! b ! j = 1" if "?L < j \<and> j < seq_len" for j
    proof -
      have "j - Suc ?L < seq_len - Suc ?L" using that by auto
      then have "replicate (seq_len - Suc ?L) (1::int) ! (j - Suc ?L) = 1" by (rule nth_replicate)
      then show ?thesis unfolding o using p(1) that by (simp add: nth_append)
    qed
    show ?thesis using a c d e by blast
  qed
  then show ?thesis using out lo by blast
qed

theorem eisner_rows_padded_witness:
  "valid_batch 3 [[False, True, False]] \<and>
   (\<exists>out. eisner 6 3 scores_second [[False, True, False]] = Some (Inr out) \<and> out = [[1, 0, 1]] \<and>
          length out = 1 \<and> length (out ! 0) = 3 \<and> out ! 0 ! 0 = 1 \<and>
          0 \<le> out ! 0 ! 1 \<and> out ! 0 ! 1 \<le> 1 \<and> out ! 0 ! 2 = 1)"
proof -
  have v: "valid_batch 3 [[False, True, False]]" by (simp add: valid_batch_def)
  have rows: "\<forall>b < length [[False, True, False]]. lens_of [[False, True, False]] ! b < 3"
    by (simp add: lens_of_def)
  have f: "2 * 3 \<le> (6::nat)" by simp
  have e: "eisner 6 3 scores_second [[False, True, False]] = Some (Inr [[1, 0, 1]])"
    by (rule eisner_one_token)
  have "\<exists>out. eisner 6 3 scores_second [[False, True, False]] = Some (Inr out) \<and>
      length out = length [[False, True, False]] \<and>
      (\<forall>b < length [[False, True, False]].
              length (out ! b) = 3 \<and> out ! b ! 0 = 1 \<and>
              (\<forall>j. 1 \<le> j \<and> j \<le> lens_of [[False, True, False]] ! b \<longrightarrow>
                   0 \<le> out ! b ! j \<and> out ! b ! j \<le> int (lens_of [[False, True, False]] ! b)) \<and>
              (\<forall>j. lens_of [[False, True, False]] ! b < j \<and> j < 3 \<longrightarrow> out ! b ! j = 1))"
    by (rule eisner_rows_padded[OF v rows f])
  then show ?thesis using v e by simp
qed

text \<open>
  Claim C8 as stated fails: a mask row whose sum is the sequence length satisfies the
  stated precondition, and \<^verbatim>\<open>eisner\<close> raises for it: the head array would have
  \<open>seq_len + 1\<close> entries, and the backtracking starts at the span \<open>(0, seq_len)\<close>, outside
  the pointer tables.
\<close>

theorem eisner_full_row_counterexample:
  "valid_batch 2 [[True, True]] \<and>
   eisner 4 2 scores_flat [[True, True]] = Some (Inl IndexError)"
proof -
  have "valid_batch 2 [[True, True]]" by (simp add: valid_batch_def)
  moreover have "eisner 4 2 scores_flat [[True, True]] = Some (Inl IndexError)"
    by (rule eisner_first_row_raises) simp_all
  ultimately show ?thesis by blast
qed

text \<open>
  Claim C9. Processing width \<open>w\<close> leaves negative infinity at position \<open>(0, w)\<close> of the
  complete-span scores of every sentence whose length differs from \<open>w\<close>, whatever the
  tables held before; no later width writes that position, so the value is there after
  any number of further widths and in the tables that the backtracking reads. For a
  sentence of length \<open>w\<close> the position keeps the maximum that the width computed.
\<close>

theorem eisner_masks_root_span:
  assumes "1 \<le> w" and "w < seq_len" and "b < length lens"
  shows "(lens ! b \<noteq> w \<longrightarrow>
            s_c (eisner_width seq_len scores lens st w) 0 w b = NegInf \<and>
            (\<forall>M. w \<le> M \<longrightarrow> s_c (tables_upto seq_len scores lens M) 0 w b = NegInf) \<and>
            s_c (eisner_tables seq_len scores lens) 0 w b = NegInf) \<and>
         (lens ! b = w \<longrightarrow>
            s_c (eisner_tables seq_len scores lens) 0 w b =
              score_max (cr_list (s_c (eisner_tables seq_len scores lens))
                                 (s_i (eisner_tables seq_len scores lens)) b 0 w))"
proof -
  obtain m where m: "w = Suc m" using assms(1) by (cases w) auto
  have pos: "0 < w" using assms(1) by simp
  have a: "s_c (eisner_width seq_len scores lens st w) 0 w b = NegInf" if "lens ! b \<noteq> w"
    unfolding width_s_c[OF pos] using that assms(3) by simp
  have c: "s_c (tables_upto seq_len scores lens M) 0 w b = NegInf" if "lens ! b \<noteq> w" "w \<le> M" for M
    using eisner_masked[of m M seq_len b lens scores] that assms m by simp
  have wn: "Suc m \<le> seq_len - 1" "0 + Suc m < seq_len" using assms(2) m by simp_all
  have d: "s_c (eisner_tables seq_len scores lens) 0 w b =
      score_max (cr_list (s_c (eisner_tables seq_len scores lens))
                         (s_i (eisner_tables seq_len scores lens)) b 0 w)" if "lens ! b = w"
    using final_cells_Suc(5)[OF wn, of scores lens b, folded eisner_tables_upto] that m by simp
  have e: "s_c (eisner_tables seq_len scores lens) 0 w b = NegInf" if "lens ! b \<noteq> w"
    unfolding eisner_tables_upto using c[OF that, of "seq_len - 1"] assms(2) by simp
  show ?thesis using a c d e by blast
qed

theorem eisner_masks_root_span_witness:
  "s_c (eisner_width 3 scores_flat [2] (initial_state 3) 1) 0 1 0 = NegInf \<and>
   s_c (eisner_tables 3 scores_flat [2]) 0 1 0 = NegInf"
proof -
  have h: "(1::nat) \<le> 1" "(1::nat) < 3" "(0::nat) < length [2::nat]" by simp_all
  have n: "[2::nat] ! 0 \<noteq> 1" by simp
  show ?thesis
    using eisner_masks_root_span[OF h, of scores_flat "initial_state 3"] n by blast
qed


section \<open>The loop of the bucketer returns\<close>

text \<open>
  With exact arithmetic the loop ends: the assignment takes every length to a nearest
  centroid, the update takes every centroid to the mean of its cluster, and moving a length
  into an empty cluster removes its distance from the cost; so the cost of the labels does
  not grow, and it falls when the centroids change.
\<close>

lemma argbest_min_val:
  "rs \<noteq> [] \<Longrightarrow> r \<in> set rs \<Longrightarrow> rs ! argbest min_better (map Val rs) \<le> r"
proof (induction rs arbitrary: r)
  case Nil
  then show ?case by simp
next
  case (Cons a as)
  show ?case
  proof (cases "\<exists>b \<in> set (map Val as). min_better b (Val a)")
    case True
    then obtain b where b: "b \<in> set as" "b < a" by auto
    then have ne: "as \<noteq> []" by auto
    have "as ! argbest min_better (map Val as) \<le> b" by (rule Cons.IH[OF ne b(1)])
    moreover have "r \<in> set as \<Longrightarrow> as ! argbest min_better (map Val as) \<le> r" by (rule Cons.IH[OF ne])
    ultimately show ?thesis using True b Cons.prems(2) by auto
  next
    case False
    then have "\<forall>b \<in> set as. \<not> b < a" by auto
    then show ?thesis using False Cons.prems(2) by (auto simp: not_less)
  qed
qed

lemma argbest_max_val:
  "rs \<noteq> [] \<Longrightarrow> r \<in> set rs \<Longrightarrow> r \<le> rs ! argbest max_better (map Val rs)"
proof (induction rs arbitrary: r)
  case Nil
  then show ?case by simp
next
  case (Cons a as)
  show ?case
  proof (cases "\<exists>b \<in> set (map Val as). max_better b (Val a)")
    case True
    then obtain b where b: "b \<in> set as" "a < b" by auto
    then have ne: "as \<noteq> []" by auto
    have "b \<le> as ! argbest max_better (map Val as)" by (rule Cons.IH[OF ne b(1)])
    moreover have "r \<in> set as \<Longrightarrow> r \<le> as ! argbest max_better (map Val as)" by (rule Cons.IH[OF ne])
    ultimately show ?thesis using True b Cons.prems(2) by auto
  next
    case False
    then have "\<forall>b \<in> set as. \<not> a < b" by auto
    then show ?thesis using False Cons.prems(2) by (auto simp: not_less)
  qed
qed

lemma absdiff_row: "map (f_absdiff v) (map Val cs) = map Val (map (\<lambda>c. \<bar>v - c\<bar>) cs)"
  by simp

lemma nearest_less: "cs \<noteq> [] \<Longrightarrow> j < length d \<Longrightarrow> nearest d cs ! j < length cs"
  unfolding nearest_def using argbest_less[of "map (f_absdiff (d ! j)) (map Val cs)" min_better]
  by simp

lemma length_nearest [simp]: "length (nearest d cs) = length d"
  by (simp add: nearest_def)

lemma nearest_best:
  assumes "cs \<noteq> []" "j < length d" "a < length cs"
  shows "\<bar>d ! j - cs ! (nearest d cs ! j)\<bar> \<le> \<bar>d ! j - cs ! a\<bar>"
proof -
  let ?rs = "map (\<lambda>c. \<bar>d ! j - c\<bar>) cs"
  have ne: "?rs \<noteq> []" using assms(1) by simp
  have idx: "nearest d cs ! j = argbest min_better (map Val ?rs)"
    using assms(2) by (simp add: nearest_def comp_def)
  have lt: "argbest min_better (map Val ?rs) < length cs"
    using argbest_less[of "map Val ?rs" min_better] ne by simp
  have "\<bar>d ! j - cs ! a\<bar> \<in> set ?rs" using assms(3) by auto
  then have "?rs ! argbest min_better (map Val ?rs) \<le> \<bar>d ! j - cs ! a\<bar>"
    by (rule argbest_min_val[OF ne])
  then show ?thesis unfolding idx using lt by simp
qed

lemma assign_labels_nearest:
  assumes "cs \<noteq> []"
  shows "assign_labels d (map Val cs) =
           Inr (map (\<lambda>j. Val \<bar>d ! j - cs ! (nearest d cs ! j)\<bar>) [0..<length d], nearest d cs)"
proof -
  have row: "map (f_absdiff v) (map Val cs) ! argbest min_better (map (f_absdiff v) (map Val cs)) =
      Val \<bar>v - cs ! argbest min_better (map (f_absdiff v) (map Val cs))\<bar>" for v
    using argbest_less[of "map (f_absdiff v) (map Val cs)" min_better] assms by simp
  have "map (\<lambda>row. row ! argbest min_better row) (map (\<lambda>v. map (f_absdiff v) (map Val cs)) d) =
      map (\<lambda>j. Val \<bar>d ! j - cs ! (nearest d cs ! j)\<bar>) [0..<length d]"
    by (rule nth_equalityI) (simp_all add: row nearest_def del: map_map)
  moreover have "map (argbest min_better) (map (\<lambda>v. map (f_absdiff v) (map Val cs)) d) = nearest d cs"
    by (simp add: nearest_def)
  ultimately show ?thesis using assms by (simp add: assign_labels_def Let_def del: map_map)
qed

lemma sum_list_upt_sum: "sum_list (map g [0..<n]) = sum g {..<n}"
  by (simp add: interv_sum_list_conv_sum_set_nat atLeast0LessThan)

lemma cost_nearest_le:
  assumes "cs \<noteq> []" "\<forall>j < length d. y ! j < length cs"
  shows "cost d f cs (nearest d cs) \<le> cost d f cs y"
  unfolding cost_def
proof (rule sum_mono)
  fix j assume "j \<in> {..<length d}"
  then have j: "j < length d" by simp
  have "\<bar>d ! j - cs ! (nearest d cs ! j)\<bar> \<le> \<bar>d ! j - cs ! (y ! j)\<bar>"
    by (rule nearest_best[OF assms(1) j]) (use assms(2) j in simp)
  then have "(d ! j - cs ! (nearest d cs ! j)) ^ 2 \<le> (d ! j - cs ! (y ! j)) ^ 2"
    by (simp add: abs_le_square_iff)
  then show "of_nat (f ! j) * (d ! j - cs ! (nearest d cs ! j)) ^ 2
      \<le> of_nat (f ! j) * (d ! j - cs ! (y ! j)) ^ 2"
    by (rule mult_left_mono) simp
qed

lemma cl_weight_set: "cl_weight f y a = (\<Sum>j \<in> {j. j < length y \<and> y ! j = a}. f ! j)"
proof -
  have "{j \<in> {..<length y}. y ! j = a} = {j. j < length y \<and> y ! j = a}" by auto
  then show ?thesis unfolding cl_weight_def using sum.inter_filter[of "{..<length y}" "\<lambda>j. f ! j" "\<lambda>j. y ! j = a"]
    by simp
qed

lemma cl_total_set:
  "cl_total d f y a = (\<Sum>j \<in> {j. j < length y \<and> y ! j = a}. d ! j * of_nat (f ! j))"
proof -
  have "{j \<in> {..<length y}. y ! j = a} = {j. j < length y \<and> y ! j = a}" by auto
  then show ?thesis unfolding cl_total_def
    using sum.inter_filter[of "{..<length y}" "\<lambda>j. d ! j * of_nat (f ! j)" "\<lambda>j. y ! j = a"]
    by simp
qed

lemma cl_weight_pos:
  assumes "\<forall>j < length y. 0 < f ! j" "j < length y" "y ! j = a"
  shows "0 < cl_weight f y a"
proof -
  have fin: "finite {j. j < length y \<and> y ! j = a}" by simp
  have "f ! j \<le> (\<Sum>j \<in> {j. j < length y \<and> y ! j = a}. f ! j)"
    by (rule member_le_sum[OF _ _ fin]) (use assms in simp_all)
  then show ?thesis unfolding cl_weight_set using assms(1,2) by (metis less_le_trans)
qed

lemma cluster_identity:
  fixes A :: "nat set" and c :: rat and v :: "nat \<Rightarrow> rat" and w :: "nat \<Rightarrow> nat"
  assumes fin: "finite A" and pos: "\<forall>j \<in> A. 0 < w j"
  defines "W \<equiv> (\<Sum>j \<in> A. of_nat (w j) :: rat)"
  defines "S \<equiv> (\<Sum>j \<in> A. v j * of_nat (w j))"
  shows "(\<Sum>j \<in> A. of_nat (w j) * (v j - c) ^ 2) =
         (\<Sum>j \<in> A. of_nat (w j) * (v j - S / W) ^ 2) + W * (S / W - c) ^ 2"
proof -
  have ex: "(\<Sum>j \<in> A. of_nat (w j) * (v j - x) ^ 2) =
      (\<Sum>j \<in> A. of_nat (w j) * (v j) ^ 2) - 2 * x * S + x ^ 2 * W" for x :: rat
  proof -
    have "(\<Sum>j \<in> A. of_nat (w j) * (v j - x) ^ 2) =
        (\<Sum>j \<in> A. of_nat (w j) * (v j) ^ 2 - 2 * x * (v j * of_nat (w j)) + x ^ 2 * of_nat (w j))"
      by (rule sum.cong) (simp_all add: power2_eq_square algebra_simps)
    also have "\<dots> = (\<Sum>j \<in> A. of_nat (w j) * (v j) ^ 2) - 2 * x * S + x ^ 2 * W"
      by (simp add: sum.distrib sum_subtractf sum_distrib_left S_def W_def)
    finally show ?thesis .
  qed
  show ?thesis
  proof (cases "A = {}")
    case True
    then show ?thesis by (simp add: W_def S_def)
  next
    case False
    then obtain j where j: "j \<in> A" by blast
    have "(of_nat (w j) :: rat) \<le> W" unfolding W_def
      by (rule member_le_sum[OF j _ fin]) simp
    moreover have "(0::rat) < of_nat (w j)" using pos j by simp
    ultimately have W0: "W \<noteq> 0" by linarith
    then have SW: "S = (S / W) * W" by simp
    have "(\<Sum>j \<in> A. of_nat (w j) * (v j - S / W) ^ 2) + W * (S / W - c) ^ 2 =
        (\<Sum>j \<in> A. of_nat (w j) * (v j) ^ 2) - 2 * (S / W) * S + (S / W) ^ 2 * W + W * (S / W - c) ^ 2"
      unfolding ex[of "S / W"] ..
    also have "\<dots> = (\<Sum>j \<in> A. of_nat (w j) * (v j) ^ 2) - 2 * c * S + c ^ 2 * W"
      using W0 by (simp add: power2_eq_square field_simps)
    finally show ?thesis unfolding ex[of c] by simp
  qed
qed

lemma cost_grouped:
  assumes len: "length y = length d" and lab: "\<forall>j < length d. y ! j < k"
  shows "cost d f cs y =
     (\<Sum>a<k. \<Sum>j \<in> {j. j < length y \<and> y ! j = a}. of_nat (f ! j) * (d ! j - cs ! a) ^ 2)"
proof -
  let ?h = "\<lambda>j. of_nat (f ! j) * (d ! j - cs ! (y ! j)) ^ 2 :: rat"
  have sub: "(\<lambda>j. y ! j) ` {..<length d} \<subseteq> {..<k}" using lab by auto
  have "(\<Sum>a \<in> {..<k}. \<Sum>j \<in> {j \<in> {..<length d}. y ! j = a}. ?h j) = sum ?h {..<length d}"
    by (rule sum.group[OF _ _ sub]) simp_all
  moreover have "(\<Sum>j \<in> {j \<in> {..<length d}. y ! j = a}. ?h j) =
      (\<Sum>j \<in> {j. j < length y \<and> y ! j = a}. of_nat (f ! j) * (d ! j - cs ! a) ^ 2)" for a
    by (rule sum.cong) (use len in auto)
  ultimately show ?thesis unfolding cost_def by simp
qed

lemma means_nth: "a < k \<Longrightarrow> means k d f y ! a = cl_total d f y a / of_nat (cl_weight f y a)"
  by (simp add: means_def)

lemma length_means [simp]: "length (means k d f y) = k"
  by (simp add: means_def)

lemma cost_decomp:
  assumes len: "length y = length d" and lab: "\<forall>j < length d. y ! j < k"
    and pos: "\<forall>j < length d. 0 < f ! j"
  shows "cost d f cs y =
     wcss k d f y + (\<Sum>a<k. of_nat (cl_weight f y a) * (means k d f y ! a - cs ! a) ^ 2)"
proof -
  let ?A = "\<lambda>a. {j. j < length y \<and> y ! j = a}"
  let ?M = "means k d f y"
  have one: "(\<Sum>j \<in> ?A a. of_nat (f ! j) * (d ! j - cs ! a) ^ 2) =
      (\<Sum>j \<in> ?A a. of_nat (f ! j) * (d ! j - ?M ! a) ^ 2) +
      of_nat (cl_weight f y a) * (?M ! a - cs ! a) ^ 2" if a: "a < k" for a
  proof -
    have fin: "finite (?A a)" by simp
    have p: "\<forall>j \<in> ?A a. 0 < f ! j" using pos len by simp
    have W: "(\<Sum>j \<in> ?A a. of_nat (f ! j) :: rat) = of_nat (cl_weight f y a)"
      unfolding cl_weight_set by simp
    have S: "(\<Sum>j \<in> ?A a. d ! j * of_nat (f ! j)) = cl_total d f y a"
      unfolding cl_total_set ..
    show ?thesis
      using cluster_identity[OF fin p, of "\<lambda>j. d ! j" "cs ! a"]
      unfolding W S means_nth[OF a] .
  qed
  have "cost d f cs y = (\<Sum>a<k. \<Sum>j \<in> ?A a. of_nat (f ! j) * (d ! j - cs ! a) ^ 2)"
    by (rule cost_grouped[OF len lab])
  also have "\<dots> = (\<Sum>a<k. (\<Sum>j \<in> ?A a. of_nat (f ! j) * (d ! j - ?M ! a) ^ 2) +
      of_nat (cl_weight f y a) * (?M ! a - cs ! a) ^ 2)"
    by (rule sum.cong) (simp_all add: one)
  also have "\<dots> = (\<Sum>a<k. \<Sum>j \<in> ?A a. of_nat (f ! j) * (d ! j - ?M ! a) ^ 2) +
      (\<Sum>a<k. of_nat (cl_weight f y a) * (?M ! a - cs ! a) ^ 2)"
    by (rule sum.distrib)
  also have "(\<Sum>a<k. \<Sum>j \<in> ?A a. of_nat (f ! j) * (d ! j - ?M ! a) ^ 2) = wcss k d f y"
    unfolding wcss_def by (rule cost_grouped[OF len lab, symmetric])
  finally show ?thesis .
qed

lemma wcss_le_cost:
  assumes "length y = length d" "\<forall>j < length d. y ! j < k" "\<forall>j < length d. 0 < f ! j"
  shows "wcss k d f y \<le> cost d f cs y"
proof -
  have "0 \<le> (\<Sum>a<k. of_nat (cl_weight f y a) * (means k d f y ! a - cs ! a) ^ 2)"
    by (rule sum_nonneg) simp
  then show ?thesis unfolding cost_decomp[OF assms, of cs] by simp
qed

lemma wcss_less_cost:
  assumes "length y = length d" "\<forall>j < length d. y ! j < k" "\<forall>j < length d. 0 < f ! j"
    and full: "\<forall>a < k. 0 < cl_weight f y a" and lc: "length cs = k"
    and ne: "cs \<noteq> means k d f y"
  shows "wcss k d f y < cost d f cs y"
proof -
  obtain a where a: "a < k" "cs ! a \<noteq> means k d f y ! a"
    using ne lc nth_equalityI[of cs "means k d f y"] by auto
  have "0 < of_nat (cl_weight f y a) * (means k d f y ! a - cs ! a) ^ 2"
    using full a by simp
  moreover have "a \<in> {..<k}" using a by simp
  ultimately have "0 < (\<Sum>a<k. of_nat (cl_weight f y a) * (means k d f y ! a - cs ! a) ^ 2)"
    by (intro sum_pos2[of "{..<k}" a]) simp_all
  then show ?thesis unfolding cost_decomp[OF assms(1,2,3), of cs] by simp
qed

lemma update_centroids_means:
  assumes len: "length y = length d" and full: "\<forall>a < k. 0 < cl_weight f y a"
  shows "update_centroids k (map (\<lambda>j. d ! j * of_nat (f ! j)) [0..<length d]) f y =
         map Val (means k d f y)"
proof -
  have t: "(\<Sum>j\<leftarrow>[0..<length y]. if y ! j = a then map (\<lambda>j. d ! j * of_nat (f ! j)) [0..<length d] ! j else 0)
      = cl_total d f y a" for a
    unfolding sum_list_upt_sum cl_total_def by (rule sum.cong) (use len in simp_all)
  have w: "(\<Sum>j\<leftarrow>[0..<length y]. if y ! j = a then f ! j else 0) = cl_weight f y a" for a
    unfolding sum_list_upt_sum cl_weight_def ..
  show ?thesis
    unfolding update_centroids_def t w means_def using full by (simp add: f_div_def)
qed

lemma filter_idx_count: "length (filter (\<lambda>j. xs ! j = a) [0..<length xs]) = count_list xs a"
proof (induction xs rule: rev_induct)
  case Nil
  show ?case by simp
next
  case (snoc x xs)
  have "filter (\<lambda>j. (xs @ [x]) ! j = a) [0..<length xs] = filter (\<lambda>j. xs ! j = a) [0..<length xs]"
    by (rule filter_cong) (simp_all add: nth_append)
  then show ?case using snoc.IH by (simp add: nth_append)
qed

lemma count_sum:
  assumes "labels_ok k m y"
  shows "(\<Sum>a<k. count_list y a) = m"
proof -
  have "set y \<subseteq> {..<k}" using assms by (auto simp: labels_ok_def)
  then have "sum (count_list y) {..<k} = length y" by (rule sum_count_set) simp
  then show ?thesis using assms by (simp add: labels_ok_def)
qed

lemma big_of_less: "0 < k \<Longrightarrow> big_of k y < k"
  unfolding big_of_def using argbest_less[of "map (count_list y) [0..<k]" "\<lambda>b a. a < b"] by simp

lemma big_of_max:
  assumes "a < k"
  shows "count_list y a \<le> count_list y (big_of k y)"
proof -
  let ?lens = "map (count_list y) [0..<k]"
  have ne: "?lens \<noteq> []" using assms by auto
  have k0: "0 < k" using assms by simp
  have "count_list y a \<in> set ?lens" using assms by simp
  then have "count_list y a \<le> ?lens ! argbest (\<lambda>b a. a < b) ?lens" by (rule argbest_nat_max[OF ne])
  then show ?thesis using big_of_less[OF k0, of y] unfolding big_of_def by simp
qed

lemma biggest_two:
  assumes ok: "labels_ok k m y" and km: "k \<le> m" and i: "i < k" and ni: "i \<notin> set y"
  shows "2 \<le> count_list y (big_of k y)"
proof (rule ccontr)
  assume "\<not> 2 \<le> count_list y (big_of k y)"
  then have le1: "count_list y (big_of k y) \<le> 1" by simp
  have each: "\<forall>a \<in> {..<k} - {i}. count_list y a \<le> 1"
    using big_of_max[of _ k y] le1 by (auto intro: order_trans)
  have ci: "count_list y i = 0" using ni by (simp add: count_list_0_iff)
  have "(\<Sum>a<k. count_list y a) = count_list y i + sum (count_list y) ({..<k} - {i})"
    by (rule sum.remove) (use i in simp_all)
  also have "\<dots> = sum (count_list y) ({..<k} - {i})" using ci by simp
  also have "\<dots> \<le> of_nat (card ({..<k} - {i})) * 1"
    by (rule sum_bounded_above) (use each in simp)
  also have "\<dots> = k - 1" using i by simp
  finally have "(\<Sum>a<k. count_list y a) \<le> k - 1" .
  then show False using count_sum[OF ok] km i by simp
qed

lemma far_of_props:
  assumes ok: "labels_ok k m y" and km: "k \<le> m" and i: "i < k" and ni: "i \<notin> set y"
  shows "far_of k dists y < m" "y ! far_of k dists y = big_of k y"
    "repair_one k dists i y = Inr (y[far_of k dists y := i])"
proof -
  let ?big = "big_of k y"
  let ?biggest = "filter (\<lambda>j. y ! j = ?big) [0..<length y]"
  let ?far = "argbest max_better (map (\<lambda>j. dists ! j) ?biggest)"
  have len: "length y = m" using ok by (simp add: labels_ok_def)
  have "length ?biggest = count_list y ?big" by (rule filter_idx_count)
  then have l2: "2 \<le> length ?biggest" using biggest_two[OF ok km i ni] by simp
  then have ne: "?biggest \<noteq> []" by auto
  then have fl: "?far < length ?biggest"
    using argbest_less[of "map (\<lambda>j. dists ! j) ?biggest" max_better] by simp
  then have mem: "?biggest ! ?far \<in> set ?biggest" by (rule nth_mem)
  have fo: "far_of k dists y = ?biggest ! ?far" by (simp add: far_of_def Let_def)
  show "far_of k dists y < m" using mem len unfolding fo by simp
  show "y ! far_of k dists y = big_of k y" using mem unfolding fo by simp
  have lens: "map (count_list y) [0..<k] \<noteq> []" using i by auto
  have am: "argmax_nat (map (count_list y) [0..<k]) = Inr ?big"
    using lens by (simp add: argmax_nat_def big_of_def)
  have fa: "np_argmax (map (\<lambda>j. dists ! j) ?biggest) = Inr ?far"
    using ne by (simp add: np_argmax_def)
  show "repair_one k dists i y = Inr (y[far_of k dists y := i])"
    unfolding fo using ni am fa by (simp add: repair_one_def Let_def)
qed

lemma far_of_positive:
  assumes ok: "labels_ok k m y" and km: "k \<le> m" and i: "i < k" and ni: "i \<notin> set y"
    and dd: "distinct d" and m: "length d = m"
  shows "d ! far_of k (dists_of d cs y) y \<noteq> cs ! big_of k y"
proof
  let ?big = "big_of k y"
  let ?dists = "dists_of d cs y"
  let ?biggest = "filter (\<lambda>j. y ! j = ?big) [0..<length y]"
  let ?rs = "map (\<lambda>j. \<bar>d ! j - cs ! ?big\<bar>) ?biggest"
  let ?far = "argbest max_better (map (\<lambda>j. ?dists ! j) ?biggest)"
  assume eq: "d ! far_of k ?dists y = cs ! ?big"
  have len: "length y = m" using ok by (simp add: labels_ok_def)
  have "length ?biggest = count_list y ?big" by (rule filter_idx_count)
  then have l2: "2 \<le> length ?biggest" using biggest_two[OF ok km i ni] by simp
  then have ne: "?rs \<noteq> []" by auto
  have row: "map (\<lambda>j. ?dists ! j) ?biggest = map Val ?rs"
    by (rule nth_equalityI) (use len m in \<open>auto simp add: dists_of_def dest: nth_mem\<close>)
  have bne: "?biggest \<noteq> []" using l2 by auto
  have fl: "?far < length ?biggest"
    using argbest_less[of "map (\<lambda>j. ?dists ! j) ?biggest" max_better] bne by simp
  have fo: "far_of k ?dists y = ?biggest ! ?far" by (simp add: far_of_def Let_def)
  have top: "?rs ! ?far = 0" using eq fl unfolding fo by simp
  have zero: "\<bar>d ! j - cs ! ?big\<bar> = 0" if j: "j \<in> set ?biggest" for j
  proof -
    have "\<bar>d ! j - cs ! ?big\<bar> \<in> set ?rs" using j by auto
    then have "\<bar>d ! j - cs ! ?big\<bar> \<le> ?rs ! argbest max_better (map Val ?rs)"
      by (rule argbest_max_val[OF ne])
    then show ?thesis using top unfolding row by simp
  qed
  have i0: "0 < length ?biggest" and i1: "1 < length ?biggest" using l2 by linarith+
  have j0: "?biggest ! 0 \<in> set ?biggest" by (rule nth_mem[OF i0])
  have j1: "?biggest ! 1 \<in> set ?biggest" by (rule nth_mem[OF i1])
  have "distinct ?biggest" by simp
  then have neq: "?biggest ! 0 \<noteq> ?biggest ! 1"
    using nth_eq_iff_index_eq[of ?biggest 0 1] i0 i1 by simp
  have b0: "?biggest ! 0 < length d" and b1: "?biggest ! 1 < length d"
    using j0 j1 len m by auto
  have "d ! (?biggest ! 0) = d ! (?biggest ! 1)" using zero[OF j0] zero[OF j1] by simp
  then show False using dd neq b0 b1 by (simp add: nth_eq_iff_index_eq)
qed

lemma cost_move:
  assumes len: "length y = length d" and j: "j < length d" and i: "i < length cs"
    and ni: "i \<notin> set y"
  shows "cost d f (cs[i := d ! j]) (y[j := i]) =
         cost d f cs y - of_nat (f ! j) * (d ! j - cs ! (y ! j)) ^ 2"
proof -
  let ?new = "\<lambda>t. of_nat (f ! t) * (d ! t - (cs[i := d ! j]) ! ((y[j := i]) ! t)) ^ 2 :: rat"
  let ?old = "\<lambda>t. of_nat (f ! t) * (d ! t - cs ! (y ! t)) ^ 2 :: rat"
  have jm: "j \<in> {..<length d}" using j by simp
  have nj: "?new j = 0" using j len i by simp
  have rest: "sum ?new ({..<length d} - {j}) = sum ?old ({..<length d} - {j})"
  proof (rule sum.cong)
    fix t assume "t \<in> {..<length d} - {j}"
    then have t: "t < length y" "t \<noteq> j" using len by simp_all
    then have "y ! t \<in> set y" by simp
    then have "y ! t \<noteq> i" using ni by auto
    then show "?new t = ?old t" using t by simp
  qed simp
  have "sum ?new {..<length d} = ?new j + sum ?new ({..<length d} - {j})"
    by (rule sum.remove[OF _ jm]) simp
  moreover have "sum ?old {..<length d} = ?old j + sum ?old ({..<length d} - {j})"
    by (rule sum.remove[OF _ jm]) simp
  ultimately show ?thesis unfolding cost_def using nj rest by simp
qed

lemma move_set:
  assumes j: "j < length y" and two: "2 \<le> count_list y (y ! j)"
  shows "insert i (set y) \<subseteq> set (y[j := i])"
proof -
  let ?big = "y ! j"
  let ?biggest = "filter (\<lambda>t. y ! t = ?big) [0..<length y]"
  have l2: "2 \<le> length ?biggest" using two filter_idx_count[of y ?big] by simp
  have i0: "0 < length ?biggest" and i1: "1 < length ?biggest" using l2 by linarith+
  have "distinct ?biggest" by simp
  then have neq: "?biggest ! 0 \<noteq> ?biggest ! 1"
    using nth_eq_iff_index_eq[of ?biggest 0 1] i0 i1 by simp
  have j0: "?biggest ! 0 \<in> set ?biggest" by (rule nth_mem[OF i0])
  have j1: "?biggest ! 1 \<in> set ?biggest" by (rule nth_mem[OF i1])
  obtain j' where j': "j' < length y" "y ! j' = ?big" "j' \<noteq> j"
  proof (cases "?biggest ! 0 = j")
    case True
    then show ?thesis using that[of "?biggest ! 1"] j1 neq by auto
  next
    case False
    then show ?thesis using that[of "?biggest ! 0"] j0 by auto
  qed
  have "v \<in> set (y[j := i])" if v: "v \<in> set y" for v
  proof -
    obtain t where t: "t < length y" "y ! t = v" using v by (auto simp: in_set_conv_nth)
    show ?thesis
    proof (cases "t = j")
      case True
      then have "(y[j := i]) ! j' = v" using j' t by simp
      then show ?thesis using j'(1) by (metis length_list_update nth_mem)
    next
      case False
      then have "(y[j := i]) ! t = v" using t by simp
      then show ?thesis using t(1) by (metis length_list_update nth_mem)
    qed
  qed
  moreover have "i \<in> set (y[j := i])" using j by (rule set_update_memI)
  ultimately show ?thesis by blast
qed

lemma repair_inv:
  assumes dd: "distinct d" and pos: "\<forall>j < length d. 0 < f ! j" and km: "k \<le> length d"
    and ok1: "labels_ok k (length d) y1" and lc1: "length c1 = k"
  shows "labels_ok k (length d) yc \<Longrightarrow> length cc = k \<Longrightarrow>
         (yc = y1 \<and> cc = c1) \<or> cost d f cc yc < cost d f c1 y1 \<Longrightarrow> \<forall>i \<in> set is. i < k \<Longrightarrow>
         \<exists>Y C. repair k (dists_of d c1 y1) is yc = Inr Y \<and> labels_ok k (length d) Y \<and> length C = k \<and>
               ((Y = y1 \<and> C = c1) \<or> cost d f C Y < cost d f c1 y1) \<and> set yc \<union> set is \<subseteq> set Y"
proof (induction "is" arbitrary: yc cc)
  case Nil
  then show ?case by auto
next
  case (Cons i "is")
  have i: "i < k" and rest: "\<forall>i \<in> set is. i < k" using Cons.prems(4) by simp_all
  show ?case
  proof (cases "i \<in> set yc")
    case True
    then have r1: "repair_one k (dists_of d c1 y1) i yc = Inr yc" by (simp add: repair_one_def)
    obtain Y C where Y: "repair k (dists_of d c1 y1) is yc = Inr Y" "labels_ok k (length d) Y"
      "length C = k" "(Y = y1 \<and> C = c1) \<or> cost d f C Y < cost d f c1 y1" "set yc \<union> set is \<subseteq> set Y"
      using Cons.IH[OF Cons.prems(1,2,3) rest] by blast
    have "set yc \<union> set (i # is) \<subseteq> set Y" using Y(5) True by auto
    then show ?thesis using r1 Y by auto
  next
    case False
    let ?dists = "dists_of d c1 y1"
    let ?j = "far_of k ?dists yc"
    let ?yc = "yc[?j := i]"
    let ?cc = "cc[i := d ! ?j]"
    note fp = far_of_props[OF Cons.prems(1) km i False, of ?dists]
    have len: "length yc = length d" using Cons.prems(1) by (simp add: labels_ok_def)
    have r1: "repair_one k ?dists i yc = Inr ?yc" by (rule fp(3))
    have "set ?yc \<subseteq> insert i (set yc)" by (rule set_update_subset_insert)
    then have ok': "labels_ok k (length d) ?yc"
      using Cons.prems(1) i by (auto simp: labels_ok_def)
    have lc': "length ?cc = k" using Cons.prems(2) by simp
    have ci: "i < length cc" using i Cons.prems(2) by simp
    have cm: "cost d f ?cc ?yc = cost d f cc yc - of_nat (f ! ?j) * (d ! ?j - cc ! (yc ! ?j)) ^ 2"
      by (rule cost_move[OF len fp(1) ci False])
    have fj: "(0::rat) < of_nat (f ! ?j)" using pos fp(1) by simp
    have strict: "cost d f ?cc ?yc < cost d f c1 y1"
    proof (cases "yc = y1 \<and> cc = c1")
      case True
      have "d ! far_of k (dists_of d c1 y1) y1 \<noteq> c1 ! big_of k y1"
        by (rule far_of_positive[OF ok1 km i _ dd refl]) (use False True in simp)
      then have "d ! ?j \<noteq> cc ! (yc ! ?j)" using True fp(2) by simp
      then have "0 < (d ! ?j - cc ! (yc ! ?j)) ^ 2" by simp
      then have "0 < of_nat (f ! ?j) * (d ! ?j - cc ! (yc ! ?j)) ^ 2" using fj by simp
      then show ?thesis unfolding cm using True by simp
    next
      case False
      then have lt: "cost d f cc yc < cost d f c1 y1" using Cons.prems(3) by blast
      have "0 \<le> of_nat (f ! ?j) * (d ! ?j - cc ! (yc ! ?j)) ^ 2" by simp
      then show ?thesis unfolding cm using lt by linarith
    qed
    then have inv': "(?yc = y1 \<and> ?cc = c1) \<or> cost d f ?cc ?yc < cost d f c1 y1" by blast
    obtain Y C where Y: "repair k ?dists is ?yc = Inr Y" "labels_ok k (length d) Y"
      "length C = k" "(Y = y1 \<and> C = c1) \<or> cost d f C Y < cost d f c1 y1" "set ?yc \<union> set is \<subseteq> set Y"
      using Cons.IH[OF ok' lc' inv' rest] by blast
    have two: "2 \<le> count_list yc (yc ! ?j)"
      unfolding fp(2) by (rule biggest_two[OF Cons.prems(1) km i False])
    have jl: "?j < length yc" using fp(1) len by simp
    have "insert i (set yc) \<subseteq> set ?yc" by (rule move_set[OF jl two])
    then have "set yc \<union> set (i # is) \<subseteq> set Y" using Y(5) by auto
    then show ?thesis using r1 Y by auto
  qed
qed

lemma full_weight:
  assumes "labels_ok k (length d) Y" "\<forall>a < k. a \<in> set Y" "\<forall>j < length d. 0 < f ! j" "a < k"
  shows "0 < cl_weight f Y a"
proof -
  have len: "length Y = length d" using assms(1) by (simp add: labels_ok_def)
  obtain j where j: "j < length Y" "Y ! j = a" using assms(2,4) by (auto simp: in_set_conv_nth)
  show ?thesis by (rule cl_weight_pos[OF _ j]) (use assms(3) len in simp)
qed

lemma labels_okD:
  "labels_ok k m y \<Longrightarrow> length y = m" "labels_ok k m y \<Longrightarrow> j < m \<Longrightarrow> y ! j < k"
  by (auto simp: labels_ok_def)

lemma nearest_labels_ok: "cs \<noteq> [] \<Longrightarrow> labels_ok (length cs) (length d) (nearest d cs)"
  unfolding labels_ok_def using nearest_less[of cs _ d] by (auto simp: in_set_conv_nth)

lemma strict_decrease:
  assumes dd: "distinct d" and pos: "\<forall>j < length d. 0 < f ! j" and km: "k \<le> length d"
    and k0: "0 < k" and ok0: "labels_ok k (length d) Y0" and full0: "\<forall>a < k. a \<in> set Y0"
  defines "c1 \<equiv> means k d f Y0"
  defines "y1 \<equiv> nearest d c1"
  shows "\<exists>Y1. repair k (dists_of d c1 y1) [0..<k] y1 = Inr Y1 \<and> labels_ok k (length d) Y1 \<and>
           (\<forall>a < k. a \<in> set Y1) \<and>
           (means k d f Y1 \<noteq> c1 \<longrightarrow> wcss k d f Y1 < wcss k d f Y0)"
proof -
  have lc1: "length c1 = k" by (simp add: c1_def)
  have ne: "c1 \<noteq> []" using lc1 k0 by auto
  have ok1: "labels_ok k (length d) y1" unfolding y1_def using nearest_labels_ok[OF ne, of d] lc1 by simp
  have inv: "(y1 = y1 \<and> c1 = c1) \<or> cost d f c1 y1 < cost d f c1 y1" by simp
  have all: "\<forall>i \<in> set [0..<k]. i < k" by simp
  obtain Y1 C where Y: "repair k (dists_of d c1 y1) [0..<k] y1 = Inr Y1" "labels_ok k (length d) Y1"
    "length C = k" "(Y1 = y1 \<and> C = c1) \<or> cost d f C Y1 < cost d f c1 y1"
    "set y1 \<union> set [0..<k] \<subseteq> set Y1"
    using repair_inv[OF dd pos km ok1 lc1 ok1 lc1 inv all] by blast
  have full1: "\<forall>a < k. a \<in> set Y1" using Y(5) by auto
  have l0: "length Y0 = length d" and b0: "\<forall>j < length d. Y0 ! j < k"
    using labels_okD[OF ok0] by simp_all
  have l1: "length Y1 = length d" and b1: "\<forall>j < length d. Y1 ! j < k"
    using labels_okD[OF Y(2)] by simp_all
  have near: "cost d f c1 y1 \<le> wcss k d f Y0"
    unfolding wcss_def c1_def[symmetric] y1_def
    by (rule cost_nearest_le[OF ne]) (use b0 lc1 in simp)
  have w1: "\<forall>a < k. 0 < cl_weight f Y1 a" using full_weight[OF Y(2) full1 pos] by simp
  have "wcss k d f Y1 < wcss k d f Y0" if nm: "means k d f Y1 \<noteq> c1"
  proof (cases "Y1 = y1 \<and> C = c1")
    case True
    have "wcss k d f Y1 < cost d f c1 Y1"
      by (rule wcss_less_cost[OF l1 b1 pos w1 lc1]) (use nm in simp)
    then show ?thesis using near True by simp
  next
    case False
    then have lt: "cost d f C Y1 < cost d f c1 y1" using Y(4) by blast
    have "wcss k d f Y1 \<le> cost d f C Y1" by (rule wcss_le_cost[OF l1 b1 pos])
    then show ?thesis using lt near by linarith
  qed
  then show ?thesis using Y(1,2) full1 by blast
qed

lemma converged_Val: "converged (map Val cs') (Some (map Val cs)) \<longleftrightarrow> cs' = cs"
proof -
  have "list_all2 f_equal (map Val cs') (map Val cs) = list_all2 (=) cs' cs"
    by (simp add: list_all2_map1 list_all2_map2)
  then show ?thesis by (simp add: converged_def list_all2_eq)
qed

lemma finite_labelings: "finite (labelings k m)"
  unfolding labelings_def by (rule finite_lists_length_eq) simp

lemma card_labelings: "card (labelings k m) = k ^ m"
  unfolding labelings_def using card_lists_length_eq[of "{..<k}" m] by simp

lemma labelings_iff: "y \<in> labelings k m \<longleftrightarrow> labels_ok k m y"
  by (auto simp: labelings_def labels_ok_def)

lemma rank_of_less:
  assumes "labels_ok k (length d) y"
  shows "rank_of k d f y < k ^ length d"
proof -
  let ?S = "{z \<in> labelings k (length d). wcss k d f z < wcss k d f y}"
  have y: "y \<in> labelings k (length d)" using assms by (simp add: labelings_iff)
  have "y \<notin> ?S" by simp
  then have "?S \<subset> labelings k (length d)" using y by blast
  then have "card ?S < card (labelings k (length d))"
    by (rule psubset_card_mono[OF finite_labelings])
  then show ?thesis by (simp add: rank_of_def card_labelings)
qed

lemma rank_of_mono:
  assumes "labels_ok k (length d) y'" "wcss k d f y' < wcss k d f y"
  shows "rank_of k d f y' < rank_of k d f y"
proof -
  let ?S = "\<lambda>y. {z \<in> labelings k (length d). wcss k d f z < wcss k d f y}"
  have fin: "finite (?S y)" using finite_labelings by simp
  have "y' \<in> ?S y" using assms by (simp add: labelings_iff)
  moreover have "y' \<notin> ?S y'" by simp
  moreover have "?S y' \<subseteq> ?S y" using assms(2) by auto
  ultimately have "?S y' \<subset> ?S y" by blast
  then show ?thesis unfolding rank_of_def by (rule psubset_card_mono[OF fin])
qed

lemma means_ne: "0 < k \<Longrightarrow> means k d f y \<noteq> []"
  by (simp add: means_def)

lemma head_step:
  assumes r: "repair k (dists_of d cs (nearest d cs)) [0..<k] (nearest d cs) = Inr Y"
    and ok: "labels_ok k (length d) Y" and full: "\<forall>a < k. a \<in> set Y"
    and pos: "\<forall>j < length d. 0 < f ! j" and k0: "0 < k"
    and nc: "\<not> converged (map Val cs) old"
  shows "kmeans_loop (Suc n) k d (map (\<lambda>j. d ! j * of_nat (f ! j)) [0..<length d]) f
           (map Val cs) old (dists_of d cs (nearest d cs)) (nearest d cs) =
         kmeans_loop n k d (map (\<lambda>j. d ! j * of_nat (f ! j)) [0..<length d]) f
           (map Val (means k d f Y)) (Some (map Val cs))
           (dists_of d (means k d f Y) (nearest d (means k d f Y))) (nearest d (means k d f Y))"
proof -
  have len: "length Y = length d" using labels_okD(1)[OF ok] .
  have w: "\<forall>a < k. 0 < cl_weight f Y a" using full_weight[OF ok full pos] by simp
  have u: "update_centroids k (map (\<lambda>j. d ! j * of_nat (f ! j)) [0..<length d]) f Y =
      map Val (means k d f Y)"
    by (rule update_centroids_means[OF len w])
  have ne: "means k d f Y \<noteq> []" by (rule means_ne[OF k0])
  have a: "assign_labels d (map Val (means k d f Y)) =
      Inr (dists_of d (means k d f Y) (nearest d (means k d f Y)), nearest d (means k d f Y))"
    unfolding dists_of_def by (rule assign_labels_nearest[OF ne])
  show ?thesis using nc r by (simp add: Let_def u a)
qed

lemma loop_from_means:
  assumes dd: "distinct d" and pos: "\<forall>j < length d. 0 < f ! j" and km: "k \<le> length d"
    and k0: "0 < k"
  shows "labels_ok k (length d) Y \<Longrightarrow> \<forall>a < k. a \<in> set Y \<Longrightarrow> rank_of k d f Y < n \<Longrightarrow>
         \<exists>c' y'. kmeans_loop n k d (map (\<lambda>j. d ! j * of_nat (f ! j)) [0..<length d]) f
                   (map Val (means k d f Y)) old
                   (dists_of d (means k d f Y) (nearest d (means k d f Y)))
                   (nearest d (means k d f Y)) = Some (Inr (c', y')) \<and>
                 length c' = k \<and> labels_ok k (length d) y'"
proof (induction n arbitrary: Y old)
  case 0
  then show ?case by simp
next
  case (Suc n)
  let ?cs = "means k d f Y"
  let ?T = "map (\<lambda>j. d ! j * of_nat (f ! j)) [0..<length d]"
  have lcs: "length ?cs = k" by simp
  have ne: "?cs \<noteq> []" by (rule means_ne[OF k0])
  have oky: "labels_ok k (length d) (nearest d ?cs)"
    using nearest_labels_ok[OF ne, of d] by simp
  show ?case
  proof (cases "converged (map Val ?cs) old")
    case True
    then show ?thesis using oky by simp
  next
    case False
    obtain Y1 where Y1: "repair k (dists_of d ?cs (nearest d ?cs)) [0..<k] (nearest d ?cs) = Inr Y1"
      "labels_ok k (length d) Y1" "\<forall>a < k. a \<in> set Y1"
      "means k d f Y1 \<noteq> ?cs \<longrightarrow> wcss k d f Y1 < wcss k d f Y"
      using strict_decrease[OF dd pos km k0 Suc.prems(1,2)] by blast
    let ?cs1 = "means k d f Y1"
    have step: "kmeans_loop (Suc n) k d ?T f (map Val ?cs) old
        (dists_of d ?cs (nearest d ?cs)) (nearest d ?cs) =
      kmeans_loop n k d ?T f (map Val ?cs1) (Some (map Val ?cs))
        (dists_of d ?cs1 (nearest d ?cs1)) (nearest d ?cs1)"
      by (rule head_step[OF Y1(1,2,3) pos k0 False])
    have ne1: "?cs1 \<noteq> []" by (rule means_ne[OF k0])
    have oky1: "labels_ok k (length d) (nearest d ?cs1)"
      using nearest_labels_ok[OF ne1, of d] by simp
    show ?thesis
    proof (cases "?cs1 = ?cs")
      case True
      then have c: "converged (map Val ?cs1) (Some (map Val ?cs))" by (simp add: converged_Val)
      have "kmeans_loop n k d ?T f (map Val ?cs1) (Some (map Val ?cs))
          (dists_of d ?cs1 (nearest d ?cs1)) (nearest d ?cs1) =
          Some (Inr (map Val ?cs1, nearest d ?cs1))"
        using c by (cases n) simp_all
      then show ?thesis unfolding step using oky1 by simp
    next
      case False
      then have "wcss k d f Y1 < wcss k d f Y" using Y1(4) by blast
      then have "rank_of k d f Y1 < rank_of k d f Y" by (rule rank_of_mono[OF Y1(2)])
      then have rk: "rank_of k d f Y1 < n" using Suc.prems(3) by simp
      show ?thesis unfolding step by (rule Suc.IH[OF Y1(2,3) rk])
    qed
  qed
qed

lemma loop_initial:
  assumes dd: "distinct d" and pos: "\<forall>j < length d. 0 < f ! j" and km: "k \<le> length d"
    and k0: "0 < k" and lc: "length cs = k" and fu: "k ^ length d < fuel"
  shows "\<exists>c' y'. kmeans_loop fuel k d (map (\<lambda>j. d ! j * of_nat (f ! j)) [0..<length d]) f
                   (map Val cs) None (dists_of d cs (nearest d cs)) (nearest d cs)
                 = Some (Inr (c', y')) \<and>
               length c' = k \<and> labels_ok k (length d) y'"
proof -
  obtain n where n: "fuel = Suc n" "k ^ length d \<le> n" using fu by (cases fuel) auto
  have ne: "cs \<noteq> []" using k0 lc by auto
  have ok1: "labels_ok k (length d) (nearest d cs)"
    using nearest_labels_ok[OF ne, of d] lc by simp
  have inv: "(nearest d cs = nearest d cs \<and> cs = cs) \<or>
      cost d f cs (nearest d cs) < cost d f cs (nearest d cs)" by simp
  have all: "\<forall>i \<in> set [0..<k]. i < k" by simp
  obtain Y where Y: "repair k (dists_of d cs (nearest d cs)) [0..<k] (nearest d cs) = Inr Y"
    "labels_ok k (length d) Y" "set (nearest d cs) \<union> set [0..<k] \<subseteq> set Y"
    using repair_inv[OF dd pos km ok1 lc ok1 lc inv all] by blast
  have full: "\<forall>a < k. a \<in> set Y" using Y(3) by auto
  have nc: "\<not> converged (map Val cs) None" by (simp add: converged_def)
  have step: "kmeans_loop (Suc n) k d (map (\<lambda>j. d ! j * of_nat (f ! j)) [0..<length d]) f
        (map Val cs) None (dists_of d cs (nearest d cs)) (nearest d cs) =
      kmeans_loop n k d (map (\<lambda>j. d ! j * of_nat (f ! j)) [0..<length d]) f
        (map Val (means k d f Y)) (Some (map Val cs))
        (dists_of d (means k d f Y) (nearest d (means k d f Y))) (nearest d (means k d f Y))"
    by (rule head_step[OF Y(1,2) full pos k0 nc])
  have rk: "rank_of k d f Y < n" using rank_of_less[OF Y(2), of f] n(2) by simp
  show ?thesis unfolding n(1) step by (rule loop_from_means[OF dd pos km k0 Y(2) full rk])
qed

lemma np_unique_counts:
  assumes "np_unique x = (d, indices, f)"
  shows "length f = length d" "\<forall>j < length d. 0 < f ! j"
proof -
  have d: "d = sort (remdups x)" and f: "f = map (count_list x) d"
    using assms by (auto simp: np_unique_def Let_def)
  show "length f = length d" unfolding f by simp
  show "\<forall>j < length d. 0 < f ! j"
  proof (intro allI impI)
    fix j assume j: "j < length d"
    then have "d ! j \<in> set d" by simp
    then have "d ! j \<in> set x" unfolding d by simp
    then have "count_list x (d ! j) \<noteq> 0" by (rule mem_count_nonzero)
    then show "0 < f ! j" unfolding f using j by simp
  qed
qed

lemma kmeans_returns:
  assumes x: "x \<noteq> []" and k: "1 \<le> k" and p: "is_permutation (length (remdups x)) perm"
    and u: "np_unique (map rat_of_int x) = (d, indices, f)"
    and fu: "min (length d) k ^ length d < fuel"
  shows "\<exists>c' y'. length y' = length d \<and> set y' \<subseteq> {..<min (length d) k} \<and>
            kmeans fuel perm x k =
              Some (Inr (map (\<lambda>a. c' ! a) (sort (remdups y')), clusters_of y' indices))"
proof -
  let ?t = "map (\<lambda>j. d ! j * of_nat (f ! j)) [0..<length d]"
  let ?cs = "map (\<lambda>p. d ! p) (take k perm)"
  let ?c = "map (\<lambda>p. Val (d ! p)) (take k perm)"
  let ?k = "min (length d) k"
  have c: "?c = map Val ?cs" by simp
  have ld: "length d = length (remdups x)"
    using np_unique_facts(3)[OF u] by (simp add: length_remdups_of_int)
  have "remdups x \<noteq> []" using x by simp
  then have nd: "0 < length d" using ld by simp
  have lc: "length ?cs = ?k" using is_permutation_length[OF p] ld by (simp add: min.commute)
  have kpos: "0 < ?k" using nd k by simp
  have "0 < length ?cs" unfolding lc by (rule kpos)
  then have ne: "?cs \<noteq> []" by (metis length_greater_0_conv)
  have a: "assign_labels d ?c = Inr (dists_of d ?cs (nearest d ?cs), nearest d ?cs)"
    unfolding c dists_of_def by (rule assign_labels_nearest[OF ne])
  have dd: "distinct d" by (rule np_unique_facts(1)[OF u])
  have pos: "\<forall>j < length d. 0 < f ! j" by (rule np_unique_counts(2)[OF u])
  have km: "?k \<le> length d" by simp
  obtain c' y' where r: "kmeans_loop fuel ?k d ?t f (map Val ?cs) None
      (dists_of d ?cs (nearest d ?cs)) (nearest d ?cs) = Some (Inr (c', y'))"
    and ok': "labels_ok ?k (length d) y'"
    using loop_initial[OF dd pos km kpos lc fu] by blast
  have "kmeans fuel perm x k =
      Some (Inr (map (\<lambda>a. c' ! a) (sort (remdups y')), clusters_of y' indices))"
    using r unfolding c[symmetric] by (simp add: kmeans_def u a Let_def clusters_of_def)
  moreover have "length y' = length d" "set y' \<subseteq> {..<?k}"
    using ok' by (auto simp: labels_ok_def)
  ultimately show ?thesis by blast
qed

subsection \<open>The claims about the bucketer\<close>






end
